(* ===== verification/Qio_Base.thy ===== *)
theory Qio_Base
  imports Main "HOL-Library.Word" "HOL-Library.Sublist"
begin

text \<open>
  The prelude of the development: the C-level vocabulary the components share.
  It holds C strings inside GLib buffers, ASCII digits with \<open>g_ascii_strtoull\<close>, big-endian
  integers as byte strings, the named theorem collections and the generic list lemmas.
  A byte is a \<^typ>\<open>char\<close> (HOL characters are eight bits wide) and a buffer is a
  \<^typ>\<open>string\<close>, so the literals of the source can be written down as they are.
\<close>

unbundle bit_operations_syntax

named_theorems frame_simps \<open>which fields of the server state an operation leaves alone\<close>
named_theorems wf_intros \<open>preservation of the well-formedness of the server state\<close>

section \<open>Names of the C types\<close>

type_synonym guint16 = "16 word"
type_synonym guint32 = "32 word"
type_synonym guint64 = "64 word"
type_synonym uint128 = "128 word"

abbreviation NUL :: char where
  "NUL \<equiv> CHR 0x00"

abbreviation byte :: "char \<Rightarrow> nat" where
  "byte c \<equiv> of_char c"

section \<open>Lists\<close>

lemma takeWhile_append_stop:
  "\<forall>x \<in> set xs. P x \<Longrightarrow> \<not> P y \<Longrightarrow> takeWhile P (xs @ y # ys) = xs"
  by (induction xs) auto

lemma dropWhile_append_stop:
  "\<forall>x \<in> set xs. P x \<Longrightarrow> \<not> P y \<Longrightarrow> dropWhile P (xs @ y # ys) = y # ys"
  by (induction xs) auto

lemma length_dropWhile_less [termination_simp]:
  "length (dropWhile P xs) < Suc (length xs)"
  by (simp add: le_imp_less_Suc length_dropWhile_le)

lemma drop_eq_Cons_nth:
  "drop i xs = y # ys \<Longrightarrow> i < length xs \<and> xs ! i = y \<and> drop (Suc i) xs = ys"
proof -
  assume h: "drop i xs = y # ys"
  then have "i < length xs" by (rule_tac ccontr) simp
  with h show ?thesis by (simp add: Cons_nth_drop_Suc [symmetric])
qed

lemma take_update_last:
  "w < length xs \<Longrightarrow> take (Suc w) (xs[w := c]) = take w xs @ [c]"
  by (simp add: take_Suc_conv_app_nth)

lemma drop_update_before:
  "w < k \<Longrightarrow> drop k (xs[w := c]) = drop k xs"
  by simp

section \<open>C strings\<close>

text \<open>
  The C string that starts at the front of a buffer ends before its first NUL; a GString
  always has a NUL after its last byte, so a buffer without one is its own C string.
\<close>

definition cstr :: "string \<Rightarrow> string" where
  "cstr s = takeWhile (\<lambda>c. c \<noteq> NUL) s"

lemma cstr_no_NUL: "NUL \<notin> set (cstr s)"
  unfolding cstr_def by (metis (full_types) set_takeWhileD)

lemma cstr_id: "NUL \<notin> set s \<Longrightarrow> cstr s = s"
  unfolding cstr_def by (simp add: takeWhile_eq_all_conv) blast

lemma cstr_append_NUL: "NUL \<notin> set s \<Longrightarrow> cstr (s @ NUL # r) = s"
  unfolding cstr_def by (rule takeWhile_append_stop) auto

lemma cstr_cstr [simp]: "cstr (cstr s) = cstr s"
  by (simp add: cstr_id cstr_no_NUL)

lemma length_cstr: "length (cstr s) \<le> length s"
  by (simp add: cstr_def length_takeWhile_le)

text \<open>\<open>strchr\<close>: the text before the first occurrence of a character and the text after it.\<close>

definition str_split_at :: "char \<Rightarrow> string \<Rightarrow> (string \<times> string) option" where
  "str_split_at c s =
     (case dropWhile (\<lambda>d. d \<noteq> c) s of
        [] \<Rightarrow> None
      | _ # r \<Rightarrow> Some (takeWhile (\<lambda>d. d \<noteq> c) s, r))"

lemma str_split_at_append:
  "c \<notin> set a \<Longrightarrow> str_split_at c (a @ c # b) = Some (a, b)"
proof -
  assume "c \<notin> set a"
  then have "\<forall>x \<in> set a. x \<noteq> c" by auto
  then show ?thesis
    by (simp add: str_split_at_def takeWhile_append_stop dropWhile_append_stop)
qed

lemma str_split_at_None: "str_split_at c s = None \<longleftrightarrow> c \<notin> set s"
proof
  assume "str_split_at c s = None"
  then have "dropWhile (\<lambda>d. d \<noteq> c) s = []" by (simp add: str_split_at_def split: list.splits)
  then show "c \<notin> set s" by (auto simp: dropWhile_eq_Nil_conv)
next
  assume "c \<notin> set s"
  then have h: "dropWhile (\<lambda>d. d \<noteq> c) s = []" by (auto simp: dropWhile_eq_Nil_conv)
  show "str_split_at c s = None" by (simp only: str_split_at_def h list.case)
qed

lemma str_split_at_Some:
  "str_split_at c s = Some (a, b) \<Longrightarrow> s = a @ c # b \<and> c \<notin> set a"
proof -
  assume h: "str_split_at c s = Some (a, b)"
  then obtain d where d: "dropWhile (\<lambda>d. d \<noteq> c) s = d # b"
    and a: "a = takeWhile (\<lambda>d. d \<noteq> c) s"
    by (auto simp: str_split_at_def split: list.splits)
  from d have "d = c" by (metis (mono_tags, lifting) dropWhile_eq_Cons_conv)
  with a d have "s = a @ c # b" by (metis takeWhile_dropWhile_id)
  moreover from a have "c \<notin> set a" by (metis (mono_tags, lifting) set_takeWhileD)
  ultimately show ?thesis by simp
qed

section \<open>Decimal numbers\<close>

definition is_digit :: "char \<Rightarrow> bool" where
  "is_digit c \<longleftrightarrow> 48 \<le> byte c \<and> byte c \<le> 57"

definition digit_value :: "char \<Rightarrow> nat" where
  "digit_value c = byte c - 48"

definition digit_char :: "nat \<Rightarrow> char" where
  "digit_char d = char_of (48 + d)"

definition is_space :: "char \<Rightarrow> bool" where
  "is_space c \<longleftrightarrow> byte c = 32 \<or> (9 \<le> byte c \<and> byte c \<le> 13)"

text \<open>The decimal digits of a number, most significant first (\<open>printf\<close>'s \<open>%u\<close>).\<close>

fun dec_str :: "nat \<Rightarrow> string" where
  "dec_str n = (if n < 10 then [digit_char n] else dec_str (n div 10) @ [digit_char (n mod 10)])"

declare dec_str.simps [simp del]

definition digits_value :: "string \<Rightarrow> nat" where
  "digits_value s = foldl (\<lambda>a c. a * 10 + digit_value c) 0 s"

text \<open>
  \<open>g_ascii_strtoull (s, &end, 10)\<close>: skip white space, read an optional sign and the
  digits. The result is the value, the rest of the string at \<open>end\<close>, and whether the value
  was out of range (\<open>errno = ERANGE\<close>, the value is then \<open>G_MAXUINT64\<close>). Without a digit
  nothing is converted and \<open>end\<close> is the start of the string.
\<close>

definition strtoull :: "string \<Rightarrow> guint64 \<times> string \<times> bool" where
  "strtoull s =
     (let t = dropWhile is_space s;
          neg = (t \<noteq> [] \<and> hd t = CHR ''-'');
          u = (if t \<noteq> [] \<and> (hd t = CHR ''-'' \<or> hd t = CHR ''+'') then tl t else t);
          ds = takeWhile is_digit u;
          n = digits_value ds
      in if ds = [] then (0, s, False)
         else if 2 ^ 64 \<le> n then (- 1, drop (length ds) u, True)
         else ((if neg then - word_of_nat n else word_of_nat n), drop (length ds) u, False))"

lemma digit_char_props:
  assumes "d < 10"
  shows "is_digit (digit_char d)" "digit_value (digit_char d) = d"
  using assms by (simp_all add: is_digit_def digit_value_def digit_char_def)

lemma is_digit_not_space: "is_digit c \<Longrightarrow> \<not> is_space c"
  by (auto simp: is_digit_def is_space_def)

lemma is_digit_not_sign: "is_digit c \<Longrightarrow> c \<noteq> CHR ''-'' \<and> c \<noteq> CHR ''+''"
  by (auto simp: is_digit_def)

lemma dec_str_nonempty: "dec_str n \<noteq> []"
  by (subst dec_str.simps) simp

lemma dec_str_digits: "\<forall>c \<in> set (dec_str n). is_digit c"
proof (induction n rule: dec_str.induct)
  case (1 n)
  then show ?case
    by (cases "n < 10") (auto simp: dec_str.simps [of n] digit_char_props)
qed

lemma digits_value_snoc: "digits_value (s @ [c]) = digits_value s * 10 + digit_value c"
  by (simp add: digits_value_def)

lemma digits_value_dec_str: "digits_value (dec_str n) = n"
proof (induction n rule: dec_str.induct)
  case (1 n)
  show ?case
  proof (cases "n < 10")
    case True
    then show ?thesis
      by (simp add: dec_str.simps [of n] digits_value_def digit_char_props)
  next
    case False
    with "1.IH" show ?thesis
      by (simp add: dec_str.simps [of n] digits_value_snoc digit_char_props)
  qed
qed

lemma strtoull_dec_str:
  assumes "n < 2 ^ 64" and "r = [] \<or> \<not> is_digit (hd r)"
  shows "strtoull (dec_str n @ r) = (word_of_nat n, r, False)"
proof -
  obtain c cs where c: "dec_str n = c # cs"
    by (cases "dec_str n") (auto simp: dec_str_nonempty)
  from c dec_str_digits [of n] have dc: "is_digit c" by simp
  have sp: "dropWhile is_space (dec_str n @ r) = dec_str n @ r"
    using dc by (simp add: c is_digit_not_space)
  have tw: "takeWhile is_digit (dec_str n @ r) = dec_str n"
  proof (cases r)
    case Nil
    then show ?thesis using dec_str_digits [of n] by (simp add: takeWhile_eq_all_conv)
  next
    case (Cons a as)
    with assms(2) show ?thesis
      using dec_str_digits [of n] by (simp add: takeWhile_append_stop)
  qed
  from dc have sg: "c \<noteq> CHR ''-''" "c \<noteq> CHR ''+''" by (simp_all add: is_digit_not_sign)
  have hd: "hd (dec_str n @ r) = c" by (simp add: c)
  from assms(1) show ?thesis
    by (simp add: strtoull_def Let_def sp tw hd sg dec_str_nonempty digits_value_dec_str)
qed

section \<open>Big-endian integers\<close>

text \<open>\<open>be_bytes k n\<close>: the \<open>k\<close> bytes of \<open>n\<close> in network order; \<open>be_value\<close> reads them back.\<close>

fun be_bytes :: "nat \<Rightarrow> nat \<Rightarrow> string" where
  "be_bytes 0 n = []"
| "be_bytes (Suc k) n = be_bytes k (n div 256) @ [char_of (n mod 256)]"

definition be_value :: "string \<Rightarrow> nat" where
  "be_value s = foldl (\<lambda>a c. a * 256 + byte c) 0 s"

lemma length_be_bytes [simp]: "length (be_bytes k n) = k"
  by (induction k arbitrary: n) auto

lemma be_value_Nil [simp]: "be_value [] = 0"
  by (simp add: be_value_def)

lemma be_value_snoc: "be_value (s @ [c]) = be_value s * 256 + byte c"
  by (simp add: be_value_def)

lemma byte_less: "byte c < 256"
  by (metis of_char_mod_256 mod_less_divisor zero_less_numeral)

lemma be_value_bound: "be_value s < 256 ^ length s"
proof (induction s rule: rev_induct)
  case Nil
  then show ?case by simp
next
  case (snoc c s)
  then have "Suc (be_value s) \<le> 256 ^ length s" by simp
  then have "Suc (be_value s) * 256 \<le> 256 ^ length s * 256" by (rule mult_le_mono1)
  then have "be_value s * 256 + 256 \<le> 256 ^ length s * 256" by simp
  then have "be_value s * 256 + byte c < 256 ^ length s * 256"
    using byte_less [of c] by (rule_tac less_le_trans) simp_all
  then show ?case by (simp add: be_value_snoc mult.commute)
qed

lemma be_value_be_bytes: "n < 256 ^ k \<Longrightarrow> be_value (be_bytes k n) = n"
proof (induction k arbitrary: n)
  case 0
  then show ?case by simp
next
  case (Suc k)
  from Suc.prems have "n div 256 < 256 ^ k"
    by (simp add: less_mult_imp_div_less mult.commute)
  with Suc.IH show ?case by (simp add: be_value_snoc)
qed

lemma be_bytes_be_value: "be_bytes (length s) (be_value s) = s"
proof (induction s rule: rev_induct)
  case Nil
  then show ?case by simp
next
  case (snoc c s)
  have "(be_value s * 256 + byte c) div 256 = be_value s"
    using byte_less [of c] by simp
  with snoc show ?case by (simp add: be_value_snoc byte_less)
qed

section \<open>Contracts of quick-event's helpers\<close>

text \<open>
  \<open>qev_safe_uadd (a, b, &out)\<close> and \<open>qev_buffer_append_uint (buff, n)\<close> live in quick-event,
  a git submodule. The definitions that call them take them as arguments; what the code
  relies on is their documented contract: addition of unsigned 64-bit integers that reports
  overflow, and the decimal rendering of an unsigned integer.
\<close>

definition checked_uadd :: "guint64 \<Rightarrow> guint64 \<Rightarrow> guint64 option" where
  "checked_uadd a b = (if unat a + unat b < 2 ^ 64 then Some (a + b) else None)"

definition safe_uadd_law :: "(guint64 \<Rightarrow> guint64 \<Rightarrow> guint64 option) \<Rightarrow> bool" where
  "safe_uadd_law uadd \<longleftrightarrow> (\<forall>a b. uadd a b = checked_uadd a b)"

definition uint_str_law :: "(guint64 \<Rightarrow> string) \<Rightarrow> bool" where
  "uint_str_law f \<longleftrightarrow> (\<forall>n. f n = dec_str (unat n))"

lemma checked_uadd_Some: "checked_uadd a b = Some c \<Longrightarrow> unat c = unat a + unat b"
  by (auto simp: checked_uadd_def unat_word_ariths split: if_splits)

lemma checked_uadd_fits: "unat a + unat b < 2 ^ 64 \<Longrightarrow> checked_uadd a b = Some (a + b)"
  by (simp add: checked_uadd_def)

end
