(* ===== verification/Evs_Path.thy ===== *)
theory Evs_Path
  imports Qio_Base
begin

text \<open>
  Event paths (\<open>src/evs.c\<close>: \<open>_allowed_chars\<close>, \<open>evs_clean_path\<close>, \<open>evs_make_path\<close>).
  \<open>evs_clean_path\<close> rewrites a path in place with a reading and a writing pointer; it is
  modelled as it is, over a buffer and two indices, and shown equal to the reference
  function \<open>clean_path\<close> on the C string in the buffer. The properties of cleaned paths are
  proved on the reference function.
\<close>

section \<open>The table of characters a path may hold\<close>

definition allowed_chars :: "nat list" where
  "allowed_chars =
    [0, 0, 0, 0, 0, 0, 0, 0, 0, 0, 0, 0, 0, 0, 0,
     0, 0, 0, 0, 0, 0, 0, 0, 0, 0, 0, 0, 0, 0, 0,
     0, 0, 0, 0, 0, 0, 0, 0, 0, 0, 0, 0, 0, 0, 0,
     1, 0, 1, 1, 1, 1, 1, 1, 1, 1, 1, 1, 1, 0, 0,
     0, 0, 0, 0, 0, 1, 1, 1, 1, 1, 1, 1, 1, 1, 1,
     1, 1, 1, 1, 1, 1, 1, 1, 1, 1, 1, 1, 1, 1, 1,
     1, 0, 0, 0, 0, 1, 0, 1, 1, 1, 1, 1, 1, 1, 1,
     1, 1, 1, 1, 1, 1, 1, 1, 1, 1, 1, 1, 1, 1, 1,
     1, 1, 1] @ replicate 133 0"

definition allowed :: "char \<Rightarrow> bool" where
  "allowed c \<longleftrightarrow> allowed_chars ! byte c \<noteq> 0"

text \<open>What the comment above the table says the table means: \<open>[_\-/a-zA-Z0-9]\<close>.\<close>

definition path_code :: "nat \<Rightarrow> bool" where
  "path_code n \<longleftrightarrow> n = 45 \<or> (47 \<le> n \<and> n \<le> 57) \<or> (65 \<le> n \<and> n \<le> 90) \<or> n = 95 \<or> (97 \<le> n \<and> n \<le> 122)"

lemma allowed_chars_table: "map (\<lambda>x. x \<noteq> 0) allowed_chars = map path_code [0..<256]"
  by code_simp

lemma allowed_iff: "allowed c \<longleftrightarrow> path_code (byte c)"
proof -
  have l: "byte c < length allowed_chars" using byte_less [of c] by (simp add: allowed_chars_def)
  then have "allowed c = map (\<lambda>x. x \<noteq> 0) allowed_chars ! byte c" by (simp add: allowed_def)
  also have "\<dots> = path_code (byte c)"
    unfolding allowed_chars_table using byte_less [of c] by simp
  finally show ?thesis .
qed

lemma allowed_slash [simp]: "allowed (CHR ''/'')"
  by (simp add: allowed_iff path_code_def)

lemma allowed_NUL [simp]: "\<not> allowed NUL"
  by (simp add: allowed_iff path_code_def)

lemma allowed_range: "allowed c \<Longrightarrow> 45 \<le> byte c \<and> byte c \<le> 122"
  by (auto simp: allowed_iff path_code_def)

section \<open>Cleaning a path in place\<close>

text \<open>\<open>at buf i\<close>: the byte at index \<open>i\<close>, the terminating NUL behind the last one.\<close>

definition at :: "string \<Rightarrow> nat \<Rightarrow> char" where
  "at buf i = (if i < length buf then buf ! i else NUL)"

text \<open>The inner \<open>do\<close>-\<open>while\<close>, after its first increment.\<close>

function clean_skip :: "string \<Rightarrow> nat \<Rightarrow> nat" where
  "clean_skip buf cur =
     (if cur < length buf \<and>
         (at buf cur = CHR ''/'' \<or> (\<not> allowed (at buf cur) \<and> at buf cur \<noteq> NUL))
      then clean_skip buf (Suc cur)
      else cur)"
  by pat_completeness auto
termination
  by (relation "measure (\<lambda>(buf, cur). length buf - cur)") auto

declare clean_skip.simps [simp del]

lemma clean_skip_ge [simp]: "cur \<le> clean_skip buf cur"
proof (induction buf cur rule: clean_skip.induct)
  case (1 buf cur)
  then show ?case by (subst clean_skip.simps) auto
qed

lemma clean_skip_le: "cur \<le> length buf \<Longrightarrow> clean_skip buf cur \<le> length buf"
proof (induction buf cur rule: clean_skip.induct)
  case (1 buf cur)
  then show ?case by (subst clean_skip.simps) auto
qed

text \<open>The outer loop: \<open>cur\<close> reads, \<open>writing\<close> writes.\<close>

function clean_loop :: "string \<Rightarrow> nat \<Rightarrow> nat \<Rightarrow> string \<times> nat" where
  "clean_loop buf cur writing =
     (if cur < length buf \<and> at buf cur \<noteq> NUL then
        let c = at buf cur;
            buf' = (if allowed c then buf[writing := c] else buf);
            writing' = (if allowed c then Suc writing else writing);
            cur' = (if c = CHR ''/'' then clean_skip buf' (Suc cur) else Suc cur)
        in clean_loop buf' cur' writing'
      else (buf, writing))"
  by pat_completeness auto
termination
proof (relation "measure (\<lambda>(buf, cur, writing). length buf - cur)", goal_cases)
  case 1
  show ?case by simp
next
  case (2 buf cur writing c buf' writing' cur')
  then have "length buf' = length buf" by simp
  moreover have "Suc cur \<le> cur'"
    using 2(5) by (simp only: clean_skip_ge split: if_split) simp
  moreover from 2(1) have "cur < length buf" by simp
  ultimately have "length buf' - cur' < length buf - cur" by linarith
  then show ?case by simp
qed

declare clean_loop.simps [simp del]

definition evs_clean_path :: "string \<Rightarrow> string \<times> nat" where
  "evs_clean_path buf =
     (let (b, w) = clean_loop buf 0 0;
          w' = (if w \<noteq> 0 \<and> at b (w - 1) = CHR ''/'' then w - 1 else w)
      in (b[w' := NUL], w'))"

section \<open>The reference function\<close>

definition skipped :: "char \<Rightarrow> bool" where
  "skipped c \<longleftrightarrow> c = CHR ''/'' \<or> \<not> allowed c"

fun clean_chars :: "string \<Rightarrow> string" where
  "clean_chars [] = []"
| "clean_chars (c # cs) =
     (if c = CHR ''/'' then c # clean_chars (dropWhile skipped cs)
      else if allowed c then c # clean_chars cs
      else clean_chars cs)"

definition strip_trailing_slash :: "string \<Rightarrow> string" where
  "strip_trailing_slash s = (if s \<noteq> [] \<and> last s = CHR ''/'' then butlast s else s)"

definition clean_path :: "string \<Rightarrow> string" where
  "clean_path s = strip_trailing_slash (clean_chars s)"

subsection \<open>Shape of a cleaned path\<close>

lemma dropWhile_skipped_hd: "dropWhile skipped s = c # r \<Longrightarrow> allowed c \<and> c \<noteq> CHR ''/''"
  by (induction s) (auto simp: skipped_def split: if_splits)

lemma clean_chars_allowed: "\<forall>c \<in> set (clean_chars s). allowed c"
proof (induction s rule: clean_chars.induct)
  case 1
  then show ?case by simp
next
  case (2 c cs)
  then show ?case by (cases "c = CHR ''/''"; cases "allowed c") simp_all
qed

lemma clean_chars_length: "length (clean_chars s) \<le> length s"
proof (induction s rule: clean_chars.induct)
  case 1
  then show ?case by simp
next
  case (2 c cs)
  then show ?case
    using length_dropWhile_le [of skipped cs] by (auto intro: le_trans)
qed

text \<open>No two slashes in a row.\<close>

fun no_double_slash :: "string \<Rightarrow> bool" where
  "no_double_slash (c # d # s) \<longleftrightarrow> \<not> (c = CHR ''/'' \<and> d = CHR ''/'') \<and> no_double_slash (d # s)"
| "no_double_slash s \<longleftrightarrow> True"

definition is_clean :: "string \<Rightarrow> bool" where
  "is_clean s \<longleftrightarrow> (\<forall>c \<in> set s. allowed c) \<and> no_double_slash s \<and> (s \<noteq> [] \<longrightarrow> last s \<noteq> CHR ''/'')"

lemma no_double_slash_Cons:
  "no_double_slash (c # s) \<longleftrightarrow> (s \<noteq> [] \<longrightarrow> \<not> (c = CHR ''/'' \<and> hd s = CHR ''/'')) \<and> no_double_slash s"
  by (cases s) auto

lemma no_double_slash_butlast: "no_double_slash s \<Longrightarrow> no_double_slash (butlast s)"
  by (induction s rule: no_double_slash.induct) (auto simp: no_double_slash_Cons split: if_splits)

lemma clean_chars_hd_skip:
  "clean_chars (dropWhile skipped s) \<noteq> [] \<Longrightarrow> hd (clean_chars (dropWhile skipped s)) \<noteq> CHR ''/''"
  by (cases "dropWhile skipped s") (auto dest: dropWhile_skipped_hd)

lemma clean_chars_no_double_slash: "no_double_slash (clean_chars s)"
  by (induction s rule: clean_chars.induct) (auto simp: no_double_slash_Cons clean_chars_hd_skip)

lemma no_double_slash_last2:
  assumes "no_double_slash s" "s \<noteq> []" "last s = CHR ''/''" "butlast s \<noteq> []"
  shows "last (butlast s) \<noteq> CHR ''/''"
  using assms
proof (induction s rule: no_double_slash.induct)
  case (1 c d s)
  then show ?case by (cases s) auto
qed auto

lemma clean_path_is_clean: "is_clean (clean_path s)"
proof -
  let ?s = "clean_chars s"
  have al: "\<forall>c \<in> set ?s. allowed c" by (rule clean_chars_allowed)
  have nd: "no_double_slash ?s" by (rule clean_chars_no_double_slash)
  show ?thesis
  proof (cases "?s \<noteq> [] \<and> last ?s = CHR ''/''")
    case True
    then have "butlast ?s \<noteq> [] \<Longrightarrow> last (butlast ?s) \<noteq> CHR ''/''"
      using no_double_slash_last2 [OF nd] by simp
    with True al nd show ?thesis
      by (auto simp: is_clean_def clean_path_def strip_trailing_slash_def
          no_double_slash_butlast dest: in_set_butlastD)
  next
    case False
    with al nd show ?thesis
      by (auto simp: is_clean_def clean_path_def strip_trailing_slash_def)
  qed
qed

lemma clean_chars_clean:
  "\<forall>c \<in> set s. allowed c \<Longrightarrow> no_double_slash s \<Longrightarrow> clean_chars s = s"
proof (induction s)
  case Nil
  then show ?case by simp
next
  case (Cons c s)
  have "dropWhile skipped s = s" if "c = CHR ''/''"
    using Cons.prems that by (cases s) (auto simp: skipped_def)
  with Cons show ?case by (auto simp: no_double_slash_Cons)
qed

lemma clean_path_id: "is_clean s \<Longrightarrow> clean_path s = s"
  by (auto simp: is_clean_def clean_path_def clean_chars_clean strip_trailing_slash_def)

lemma clean_path_length: "length (clean_path s) \<le> length s"
  using clean_chars_length [of s] by (auto simp: clean_path_def strip_trailing_slash_def)

lemma is_clean_no_NUL: "is_clean s \<Longrightarrow> NUL \<notin> set s"
  by (auto simp: is_clean_def)

section \<open>The loop computes the reference function\<close>

lemma clean_skip_drop:
  "drop (clean_skip buf cur) buf = dropWhile (\<lambda>c. c = CHR ''/'' \<or> (\<not> allowed c \<and> c \<noteq> NUL)) (drop cur buf)"
proof (induction buf cur rule: clean_skip.induct)
  case (1 buf cur)
  show ?case
  proof (cases "cur < length buf")
    case True
    then have "drop cur buf = buf ! cur # drop (Suc cur) buf" by (simp add: Cons_nth_drop_Suc)
    with True "1" show ?thesis by (subst clean_skip.simps) (auto simp: at_def)
  next
    case False
    then show ?thesis by (subst clean_skip.simps) auto
  qed
qed

text \<open>
  While \<open>writing \<le> cur\<close>, what is still to be read is untouched, so the loop appends the
  cleaned rest of the C string to what was written.
\<close>

lemma dropWhile_skipped_cstr:
  "cstr (dropWhile (\<lambda>c. c = CHR ''/'' \<or> (\<not> allowed c \<and> c \<noteq> NUL)) s) = dropWhile skipped (cstr s)"
  by (induction s) (auto simp: cstr_def skipped_def)

lemma clean_loop_correct:
  assumes "w \<le> cur" "cur \<le> length buf" "clean_loop buf cur w = (b, v)"
  shows "take v b = take w buf @ clean_chars (cstr (drop cur buf)) \<and>
    length b = length buf \<and> v \<le> length buf \<and> w \<le> v"
  using assms
proof (induction buf cur w arbitrary: b v rule: clean_loop.induct)
  case (1 buf cur w)
  show ?case
  proof (cases "cur < length buf \<and> at buf cur \<noteq> NUL")
    case False
    with "1.prems" have r: "b = buf" "v = w" by (auto simp: clean_loop.simps [of buf cur w])
    from False have "cstr (drop cur buf) = []"
      by (cases "cur < length buf") (auto simp: at_def cstr_def Cons_nth_drop_Suc [symmetric])
    with r "1.prems" show ?thesis by simp
  next
    case True
    let ?c = "at buf cur"
    let ?buf = "if allowed ?c then buf[w := ?c] else buf"
    let ?w = "if allowed ?c then Suc w else w"
    let ?cur = "if ?c = CHR ''/'' then clean_skip ?buf (Suc cur) else Suc cur"
    have rec: "clean_loop ?buf ?cur ?w = (b, v)"
      using True "1.prems" by (simp add: clean_loop.simps [of buf cur w] Let_def)
    have le: "?w \<le> ?cur" "?cur \<le> length ?buf"
    proof -
      have "Suc cur \<le> clean_skip b (Suc cur)" for b by (rule clean_skip_ge)
      then show "?w \<le> ?cur" using "1.prems"(1)
        by (auto intro: le_trans [of "Suc w" "Suc cur"] le_trans [of w "Suc cur"])
      have "clean_skip ?buf (Suc cur) \<le> length ?buf"
        using True by (intro clean_skip_le) simp
      moreover have "Suc cur \<le> length ?buf" using True by simp
      ultimately show "?cur \<le> length ?buf" by (simp only: split: if_split) simp
    qed
    have IH: "take v b = take ?w ?buf @ clean_chars (cstr (drop ?cur ?buf)) \<and>
        length b = length ?buf \<and> v \<le> length ?buf \<and> ?w \<le> v"
      using "1.IH" [OF True refl refl refl refl] le rec by simp
    have tk: "take ?w ?buf = take w buf @ (if allowed ?c then [?c] else [])"
      using True "1.prems"(1) by (simp add: take_update_last)
    have cs: "cstr (drop cur buf) = ?c # cstr (drop (Suc cur) buf)"
    proof -
      from True have "cur < length buf" "buf ! cur \<noteq> NUL" by (auto simp: at_def split: if_splits)
      then show ?thesis by (simp add: at_def cstr_def Cons_nth_drop_Suc [symmetric])
    qed
    have rest: "clean_chars (cstr (drop cur buf)) =
        (if allowed ?c then [?c] else []) @ clean_chars (cstr (drop ?cur ?buf))"
      using "1.prems"(1) by (simp add: cs clean_skip_drop dropWhile_skipped_cstr)
    have "w \<le> ?w" by simp
    with IH have "w \<le> v" by (metis le_trans)
    moreover have "length ?buf = length buf" by simp
    ultimately show ?thesis using IH by (simp only: tk rest append_assoc simp_thms)
  qed
qed

lemma evs_clean_path_correct:
  assumes "evs_clean_path buf = (b, n)"
  shows "n = length (clean_path (cstr buf)) \<and> take n b = clean_path (cstr buf) \<and>
    cstr b = clean_path (cstr buf) \<and> length b = length buf"
proof -
  obtain b0 w where l: "clean_loop buf 0 0 = (b0, w)" by (cases "clean_loop buf 0 0")
  have c: "take w b0 = clean_chars (cstr buf)" "length b0 = length buf" "w \<le> length buf"
    using clean_loop_correct [OF _ _ l] by auto
  let ?w = "if w \<noteq> 0 \<and> at b0 (w - 1) = CHR ''/'' then w - 1 else w"
  have last: "w \<noteq> 0 \<Longrightarrow> at b0 (w - 1) = last (clean_chars (cstr buf))"
  proof -
    assume w: "w \<noteq> 0"
    then have "last (take w b0) = take w b0 ! (w - 1)"
      using c(2,3) by (subst last_conv_nth) (auto simp: min_def)
    moreover from w c(3) have "w - 1 < length buf" by linarith
    ultimately show ?thesis using w c(2) by (simp add: c(1) [symmetric] at_def)
  qed
  have ne: "w \<noteq> 0 \<longleftrightarrow> clean_chars (cstr buf) \<noteq> []"
    using c by (auto simp: c(1) [symmetric])
  have tk: "take ?w b0 = clean_path (cstr buf)"
    using c(3) last ne
    by (auto simp: clean_path_def strip_trailing_slash_def c(1) [symmetric] butlast_take c(2))
  have bn: "b = b0[?w := NUL]" "n = ?w"
    using assms l by (auto simp: evs_clean_path_def Let_def)
  have tk': "take n b = clean_path (cstr buf)" using bn tk by simp
  have n: "n = length (clean_path (cstr buf))"
    using bn(2) c(2,3) by (simp add: tk [symmetric])
  have "cstr b = clean_path (cstr buf)"
  proof (cases "n < length b")
    case True
    then have "b ! n = NUL" using bn by simp
    with True have "b = take n b @ NUL # drop (Suc n) b"
      using id_take_nth_drop [OF True] by simp
    then have "cstr b = cstr (clean_path (cstr buf) @ NUL # drop (Suc n) b)"
      by (simp only: tk')
    then show ?thesis
      by (simp add: cstr_append_NUL is_clean_no_NUL clean_path_is_clean)
  next
    case False
    then have "b = clean_path (cstr buf)" using tk' by simp
    then show ?thesis by (simp add: cstr_id is_clean_no_NUL clean_path_is_clean)
  qed
  with n tk' bn c(2) show ?thesis by simp
qed

section \<open>Building a path\<close>

text \<open>
  \<open>evs_make_path\<close>: \<open>"%s/%s/%s"\<close> of the three parts (NULL prints nothing), a leading slash if
  there is none, then cleaned; \<open>g_string_set_size\<close> cuts the buffer at the new length.
\<close>

definition str_or_empty :: "string option \<Rightarrow> string" where
  "str_or_empty s = (case s of None \<Rightarrow> [] | Some t \<Rightarrow> cstr t)"

definition evs_make_path :: "string option \<Rightarrow> string option \<Rightarrow> string option \<Rightarrow> string" where
  "evs_make_path ev_prefix ev_path ev_extra =
     (let p = str_or_empty ev_prefix @ ''/'' @ str_or_empty ev_path @ ''/'' @ str_or_empty ev_extra;
          p' = (if hd p \<noteq> CHR ''/'' then CHR ''/'' # p else p);
          (b, n) = evs_clean_path p'
      in take n b)"

lemma evs_make_path_eq:
  "evs_make_path a b c =
     (let p = str_or_empty a @ ''/'' @ str_or_empty b @ ''/'' @ str_or_empty c
      in clean_path (if hd p \<noteq> CHR ''/'' then CHR ''/'' # p else p))"
proof -
  let ?p = "str_or_empty a @ ''/'' @ str_or_empty b @ ''/'' @ str_or_empty c"
  let ?q = "if hd ?p \<noteq> CHR ''/'' then CHR ''/'' # ?p else ?p"
  have "NUL \<notin> set (str_or_empty s)" for s
    by (cases s) (auto simp: str_or_empty_def cstr_no_NUL)
  then have "cstr ?q = ?q" by (intro cstr_id) auto
  then show ?thesis
    using evs_clean_path_correct [of ?q] by (auto simp: evs_make_path_def Let_def split: prod.splits)
qed

lemma evs_make_path_is_clean: "is_clean (evs_make_path a b c)"
  by (simp add: evs_make_path_eq Let_def clean_path_is_clean)

text \<open>A made path is empty or starts with a slash.\<close>

lemma clean_path_absolute:
  "clean_path (CHR ''/'' # s) = [] \<or> hd (clean_path (CHR ''/'' # s)) = CHR ''/''"
  by (simp add: clean_path_def strip_trailing_slash_def)

lemma evs_make_path_absolute: "evs_make_path a b c = [] \<or> hd (evs_make_path a b c) = CHR ''/''"
proof -
  let ?p = "str_or_empty a @ ''/'' @ str_or_empty b @ ''/'' @ str_or_empty c"
  have "(if hd ?p \<noteq> CHR ''/'' then CHR ''/'' # ?p else ?p) =
      CHR ''/'' # (if hd ?p \<noteq> CHR ''/'' then ?p else tl ?p)"
    by (cases "str_or_empty a") auto
  then have "evs_make_path a b c = clean_path (CHR ''/'' # (if hd ?p \<noteq> CHR ''/'' then ?p else tl ?p))"
    by (simp only: evs_make_path_eq Let_def)
  then show ?thesis by (simp only: clean_path_absolute)
qed

section \<open>Property\<close>

text \<open>
  C18. The in-place loop over the two pointers computes the reference normalisation of the C string
  in the buffer: only allowed characters, no two slashes in a row, no slash at the end. It returns the
  length of what it wrote, never makes the string longer, writes inside the buffer only, and running it again
  changes nothing.
\<close>

theorem evs_clean_path_normalises:
  "cstr (fst (evs_clean_path buf)) = clean_path (cstr buf) \<and>
   snd (evs_clean_path buf) = length (cstr (fst (evs_clean_path buf))) \<and>
   snd (evs_clean_path buf) \<le> length (cstr buf) \<and>
   length (fst (evs_clean_path buf)) = length buf \<and>
   is_clean (cstr (fst (evs_clean_path buf))) \<and>
   cstr (fst (evs_clean_path (fst (evs_clean_path buf)))) = cstr (fst (evs_clean_path buf))"
proof -
  obtain b n where e: "evs_clean_path buf = (b, n)" by (cases "evs_clean_path buf")
  obtain b' n' where e': "evs_clean_path b = (b', n')" by (cases "evs_clean_path b")
  note c = evs_clean_path_correct [OF e]
  have "clean_path (cstr b) = cstr b"
    using c by (simp add: clean_path_id clean_path_is_clean)
  with evs_clean_path_correct [OF e'] c clean_path_length [of "cstr buf"] clean_path_is_clean [of "cstr buf"]
  show ?thesis by (simp add: e e')
qed

end
