(* ===== verification/Evs_Query.thy ===== *)
theory Evs_Query
  imports Evs_Path
begin

text \<open>
  The event registry (\<open>src/evs_query.c\<close>, \<open>struct event\<close> and \<open>event_init\<close> of \<open>src/evs.c\<close>).
  Events live in a prefix tree with one node per character. The tree is modelled as the
  code has it: a node holds an event (or the zeroed memory of one, whose \<open>ev_path\<close> is NULL),
  its character and an array of 78 children indexed by \<open>character - '-'\<close>. The index is an
  unsigned char, so it wraps; the code does not check it against the array, and the model
  makes an access out of the array a result of its own.
\<close>

section \<open>Events\<close>

text \<open>
  Function pointers are names: the handlers of \<open>src/evs_qio.c\<close> have one constructor each,
  those of applications carry a number. \<open>ev_path\<close> identifies an event: a node is never
  initialised twice.
\<close>

datatype handler_ptr =
    H_callback | H_hostname | H_on | H_off | H_ping | H_app nat

datatype on_ptr = On_no_on | On_app nat

datatype off_ptr = Off_app nat

record event =
  ev_path :: string
  handler_fn :: "handler_ptr option"
  on_fn :: "on_ptr option"
  off_fn :: "off_ptr option"
  handle_children :: bool

definition event_init ::
  "string \<Rightarrow> handler_ptr option \<Rightarrow> on_ptr option \<Rightarrow> off_ptr option \<Rightarrow> bool \<Rightarrow> event" where
  "event_init path h on off children =
     \<lparr>ev_path = path, handler_fn = h, on_fn = on, off_fn = off, handle_children = children\<rparr>"

section \<open>The prefix tree\<close>

datatype ptrie = Ptrie (p_ev: "event option") (p_ch: nat) (p_childs: "ptrie option list")

definition n_childs :: nat where
  "n_childs = 78"  \<comment> \<open>\<open>'z' - '-' + 1\<close>\<close>

definition new_node :: "nat \<Rightarrow> ptrie" where
  "new_node ch = Ptrie None ch (replicate n_childs None)"

text \<open>\<open>guchar ch = *curr - '-'\<close>\<close>

definition child_index :: "char \<Rightarrow> nat" where
  "child_index c = (byte c + 256 - 45) mod 256"

definition skip_slash :: "string \<Rightarrow> string" where
  "skip_slash s = (case s of [] \<Rightarrow> [] | c # cs \<Rightarrow> if c = CHR ''/'' then cs else s)"

subsection \<open>Insertion\<close>

text \<open>
  The walk creates the missing nodes. At the end of the path the event is initialised unless
  the node has one. The result is \<open>None\<close> for an access out of the array, otherwise whether an
  event was created, and the new tree.
\<close>

fun insert_walk :: "ptrie \<Rightarrow> string \<Rightarrow> event \<Rightarrow> (bool \<times> ptrie) option" where
  "insert_walk (Ptrie ev ch childs) [] e =
     (case ev of Some _ \<Rightarrow> Some (False, Ptrie ev ch childs)
               | None \<Rightarrow> Some (True, Ptrie (Some e) ch childs))"
| "insert_walk (Ptrie ev ch childs) (c # cs) e =
     (let i = child_index c in
      if i < length childs then
        let child = (case childs ! i of None \<Rightarrow> new_node i | Some t \<Rightarrow> t) in
        case insert_walk child cs e of
          None \<Rightarrow> None
        | Some (ok, t) \<Rightarrow> Some (ok, Ptrie ev ch (childs[i := Some t]))
      else None)"

definition evs_query_insert ::
  "ptrie \<Rightarrow> string \<Rightarrow> handler_ptr option \<Rightarrow> on_ptr option \<Rightarrow> off_ptr option \<Rightarrow> bool \<Rightarrow>
   (bool \<times> ptrie) option" where
  "evs_query_insert t path h on off children =
     (let cur = skip_slash path in
      if cur = [] then Some (False, t)
      else insert_walk t cur (event_init path h on off children))"

subsection \<open>Lookup\<close>

datatype query_result = Q_oob | Q_null | Q_found event string

definition node_handles :: "ptrie \<Rightarrow> bool" where
  "node_handles t = (case p_ev t of None \<Rightarrow> False | Some e \<Rightarrow> handle_children e)"

text \<open>
  \<open>saved\<close> is the pair of \<open>child_handler\<close> (its event) and \<open>child_start\<close>: the last node on the
  way that handles children, and the path behind it.
\<close>

definition query_child :: "(event \<times> string) option \<Rightarrow> query_result" where
  "query_child saved =
     (case saved of
        None \<Rightarrow> Q_null
      | Some (e, start) \<Rightarrow> if start \<noteq> [] \<and> hd start = CHR ''/'' then Q_found e start else Q_null)"

fun query_walk :: "ptrie \<Rightarrow> string \<Rightarrow> (event \<times> string) option \<Rightarrow> query_result" where
  "query_walk (Ptrie ev ch childs) [] saved =
     (case ev of Some e \<Rightarrow> Q_found e [] | None \<Rightarrow> Q_null)"
| "query_walk (Ptrie ev ch childs) (c # cs) saved =
     (let i = child_index c;
          saved' = (if node_handles (Ptrie ev ch childs)
                    then map_option (\<lambda>e. (e, c # cs)) ev else saved) in
      if i < length childs then
        (case childs ! i of
           None \<Rightarrow> query_child saved'
         | Some t \<Rightarrow> query_walk t cs saved')
      else Q_oob)"

definition evs_query :: "ptrie \<Rightarrow> string \<Rightarrow> query_result" where
  "evs_query t path = query_walk t (skip_slash path) None"

section \<open>What the tree stores\<close>

text \<open>\<open>node_at t s\<close>: the node the characters of \<open>s\<close> lead to; \<open>event_at\<close>: the event it holds.\<close>

fun node_at :: "ptrie \<Rightarrow> string \<Rightarrow> ptrie option" where
  "node_at t [] = Some t"
| "node_at (Ptrie ev ch childs) (c # cs) =
     (if child_index c < length childs
      then case childs ! child_index c of None \<Rightarrow> None | Some t \<Rightarrow> node_at t cs
      else None)"

definition event_at :: "ptrie \<Rightarrow> string \<Rightarrow> event option" where
  "event_at t s = Option.bind (node_at t s) p_ev"

lemma event_at_node: "event_at t s = Some e \<Longrightarrow> node_at t s \<noteq> None"
  by (cases "node_at t s") (simp_all add: event_at_def)

text \<open>Every node has the full array; \<open>in_range\<close> characters index into it.\<close>

inductive wf_trie :: "ptrie \<Rightarrow> bool" where
  wf_node: "length childs = n_childs \<Longrightarrow> (\<And>t. Some t \<in> set childs \<Longrightarrow> wf_trie t) \<Longrightarrow>
     wf_trie (Ptrie ev ch childs)"

inductive_cases wf_trieE: "wf_trie (Ptrie ev ch childs)"

definition in_range :: "char \<Rightarrow> bool" where
  "in_range c \<longleftrightarrow> 45 \<le> byte c \<and> byte c \<le> 122"

lemma child_index_eq: "child_index c = (if 45 \<le> byte c then byte c - 45 else byte c + 211)"
proof (cases "45 \<le> byte c")
  case True
  then have "byte c + 256 - 45 = (byte c - 45) + 256" by simp
  moreover have "byte c - 45 < 256" using byte_less [of c] by linarith
  ultimately have "child_index c = byte c - 45"
    unfolding child_index_def by (simp only: mod_add_self2 mod_less)
  with True show ?thesis by simp
next
  case False
  then show ?thesis by (simp add: child_index_def)
qed

lemma in_range_index: "in_range c \<longleftrightarrow> child_index c < n_childs"
proof (cases "45 \<le> byte c")
  case True
  then show ?thesis by (simp add: in_range_def child_index_eq n_childs_def) arith
next
  case False
  then show ?thesis by (simp add: in_range_def child_index_eq n_childs_def)
qed

lemma child_index_inj: "in_range c \<Longrightarrow> in_range d \<Longrightarrow> child_index c = child_index d \<Longrightarrow> c = d"
proof -
  assume h: "in_range c" "in_range d" "child_index c = child_index d"
  then have "byte c = byte d"
    by (simp add: in_range_def child_index_eq eq_diff_iff)
  then show "c = d" by simp
qed

lemma allowed_in_range: "allowed c \<Longrightarrow> in_range c"
  using allowed_range by (simp add: in_range_def)

lemma clean_in_range: "is_clean s \<Longrightarrow> c \<in> set s \<Longrightarrow> in_range c"
  by (auto simp: is_clean_def intro: allowed_in_range)

lemma skip_slash_set: "set (skip_slash s) \<subseteq> set s"
  by (auto simp: skip_slash_def split: list.splits if_splits)

lemma wf_new_node [simp]: "wf_trie (new_node ch)"
  unfolding new_node_def by (rule wf_trie.intros) auto

lemma node_at_wf: "wf_trie t \<Longrightarrow> node_at t s = Some u \<Longrightarrow> wf_trie u"
proof (induction t s rule: node_at.induct)
  case (1 t)
  then show ?case by simp
next
  case (2 ev ch childs c cs)
  then show ?case
    by (auto elim!: wf_trieE split: if_splits option.splits dest: nth_mem)
qed

lemma node_at_Cons:
  "node_at t (c # cs) =
     (if child_index c < length (p_childs t)
      then Option.bind (p_childs t ! child_index c) (\<lambda>u. node_at u cs) else None)"
  by (cases t) (auto split: option.splits)

lemma node_at_append:
  "node_at t (s @ r) = Option.bind (node_at t s) (\<lambda>u. node_at u r)"
  by (induction s arbitrary: t) (auto simp: node_at_Cons split: option.splits Option.bind_splits)

lemma event_at_new_node [simp]: "event_at (new_node i) s = None"
  by (cases s) (auto simp: event_at_def new_node_def node_at_Cons)

section \<open>Insertion meets the map specification\<close>

lemma insert_walk_in_range:
  "wf_trie t \<Longrightarrow> \<forall>c \<in> set s. in_range c \<Longrightarrow> \<exists>ok u. insert_walk t s e = Some (ok, u) \<and> wf_trie u"
proof (induction s arbitrary: t)
  case Nil
  then show ?case by (cases t) (auto split: option.splits elim!: wf_trieE intro!: wf_trie.intros)
next
  case (Cons c cs)
  obtain ev ch childs where t: "t = Ptrie ev ch childs" by (cases t)
  with Cons.prems have l: "length childs = n_childs" "\<And>u. Some u \<in> set childs \<Longrightarrow> wf_trie u"
    by (auto elim!: wf_trieE)
  let ?i = "child_index c"
  have i: "?i < length childs" using Cons.prems l by (simp add: in_range_index)
  let ?child = "case childs ! ?i of None \<Rightarrow> new_node ?i | Some t \<Rightarrow> t"
  have "wf_trie ?child"
  proof (cases "childs ! ?i")
    case (Some x)
    with i have "Some x \<in> set childs" by (metis nth_mem)
    with l Some show ?thesis by simp
  qed simp
  from Cons.IH [OF this] Cons.prems
  obtain ok u where r: "insert_walk ?child cs e = Some (ok, u)" "wf_trie u" by auto
  have "wf_trie (Ptrie ev ch (childs[?i := Some u]))"
    using l r set_update_subset_insert [of childs ?i "Some u"] by (intro wf_trie.intros) auto
  with t i r show ?case by (simp add: Let_def)
qed

lemma insert_walk_event_at:
  "insert_walk t s e = Some (ok, u) \<Longrightarrow> \<forall>c \<in> set r. in_range c \<Longrightarrow> \<forall>c \<in> set s. in_range c \<Longrightarrow>
   event_at u r = (if ok \<and> r = s then Some e else event_at t r) \<and> ok = (event_at t s = None)"
proof (induction s arbitrary: t u ok r)
  case Nil
  then show ?case by (cases t; cases r) (auto simp: event_at_def split: option.splits)
next
  case (Cons c cs)
  obtain ev ch childs where t: "t = Ptrie ev ch childs" by (cases t)
  let ?i = "child_index c"
  let ?child = "case childs ! ?i of None \<Rightarrow> new_node ?i | Some t \<Rightarrow> t"
  from Cons.prems t obtain v where i: "?i < length childs"
    and v: "insert_walk ?child cs e = Some (ok, v)" and u: "u = Ptrie ev ch (childs[?i := Some v])"
    by (auto simp: Let_def split: if_splits option.splits)
  have at_child: "event_at ?child q = event_at t (c # q)" for q
  proof (cases "childs ! ?i")
    case None
    then have "event_at t (c # q) = None" using t by (simp add: event_at_def)
    with None show ?thesis by simp
  next
    case (Some x)
    with t i show ?thesis by (simp add: event_at_def)
  qed
  note IH = Cons.IH [OF v]
  have ok: "ok = (event_at t (c # cs) = None)" using IH [of "[]"] Cons.prems at_child by simp
  show ?case
  proof (cases r)
    case Nil
    then show ?thesis using ok t u by (simp add: event_at_def)
  next
    case (Cons d ds)
    show ?thesis
    proof (cases "d = c")
      case True
      have "event_at u r = event_at v ds" using True Cons u i by (simp add: event_at_def)
      with IH [of ds] Cons.prems Cons True at_child ok show ?thesis by auto
    next
      case False
      then have "child_index d \<noteq> ?i" using child_index_inj Cons Cons.prems by auto
      then have "event_at u r = event_at t r" using Cons u t by (simp add: event_at_def)
      with ok False Cons show ?thesis by simp
    qed
  qed
qed

text \<open>A path without NULs leads to a node afterwards exactly if it did before or was walked.\<close>

lemma insert_walk_node_at:
  "insert_walk t s e = Some (ok, u) \<Longrightarrow> \<forall>c \<in> set r. in_range c \<Longrightarrow> \<forall>c \<in> set s. in_range c \<Longrightarrow>
   node_at u r \<noteq> None \<longleftrightarrow> node_at t r \<noteq> None \<or> prefix r s"
proof (induction s arbitrary: t u ok r)
  case Nil
  then show ?case by (cases t; cases r) (auto split: option.splits)
next
  case (Cons c cs)
  obtain ev ch childs where t: "t = Ptrie ev ch childs" by (cases t)
  let ?i = "child_index c"
  let ?child = "case childs ! ?i of None \<Rightarrow> new_node ?i | Some t \<Rightarrow> t"
  from Cons.prems t obtain v where i: "?i < length childs"
    and v: "insert_walk ?child cs e = Some (ok, v)" and u: "u = Ptrie ev ch (childs[?i := Some v])"
    by (auto simp: Let_def split: if_splits option.splits)
  show ?case
  proof (cases r)
    case Nil
    then show ?thesis by simp
  next
    case (Cons d ds)
    show ?thesis
    proof (cases "d = c")
      case True
      have "node_at (new_node ?i) ds = None \<or> ds = []"
        by (cases ds) (auto simp: node_at_Cons new_node_def)
      then have "node_at ?child ds \<noteq> None \<longleftrightarrow> node_at t r \<noteq> None \<or> ds = []"
        using True Cons t i by (cases "childs ! ?i") auto
      with Cons.IH [OF v, of ds] Cons.prems Cons True u i show ?thesis by auto
    next
      case False
      then have "child_index d \<noteq> ?i" using child_index_inj Cons Cons.prems by auto
      then show ?thesis using False Cons u t by simp
    qed
  qed
qed

section \<open>Lookup meets the longest-prefix specification\<close>

text \<open>
  \<open>R\<close> gives the event registered at a path, \<open>N\<close> says which paths have a node. The event that
  handles the children of \<open>s\<close> is the one registered at the longest proper prefix whose event
  asks for children.
\<close>

definition handles_at :: "(string \<Rightarrow> event option) \<Rightarrow> string \<Rightarrow> bool" where
  "handles_at R s = (case R s of None \<Rightarrow> False | Some e \<Rightarrow> handle_children e)"

definition deepest :: "(string \<Rightarrow> event option) \<Rightarrow> string \<Rightarrow> nat option" where
  "deepest R s = find (\<lambda>n. handles_at R (take n s)) (rev [0..<length s])"

definition reg_query :: "(string \<Rightarrow> event option) \<Rightarrow> (string \<Rightarrow> bool) \<Rightarrow> string \<Rightarrow> query_result" where
  "reg_query R N s =
     (if N s then (case R s of Some e \<Rightarrow> Q_found e [] | None \<Rightarrow> Q_null)
      else case deepest R s of
             None \<Rightarrow> Q_null
           | Some n \<Rightarrow> if s ! n = CHR ''/'' then Q_found (the (R (take n s))) (drop n s) else Q_null)"

text \<open>The pair the loop holds when it stops, as a function of the whole path.\<close>

definition saved_of :: "(string \<Rightarrow> event option) \<Rightarrow> string \<Rightarrow> (event \<times> string) option \<Rightarrow>
    (event \<times> string) option" where
  "saved_of R s saved =
     (case deepest R s of None \<Rightarrow> saved | Some n \<Rightarrow> Some (the (R (take n s)), drop n s))"

lemma find_append: "find P (xs @ ys) = (case find P xs of None \<Rightarrow> find P ys | Some x \<Rightarrow> Some x)"
  by (induction xs) auto

lemma find_map: "find P (map f xs) = map_option f (find (\<lambda>x. P (f x)) xs)"
  by (induction xs) auto

lemma deepest_Cons:
  "deepest R (c # cs) =
     (case deepest (\<lambda>s. R (c # s)) cs of
        Some n \<Rightarrow> Some (Suc n)
      | None \<Rightarrow> if handles_at R [] then Some 0 else None)"
proof -
  have "rev [0..<length (c # cs)] = map Suc (rev [0..<length cs]) @ [0]"
    by (simp add: upt_conv_Cons map_Suc_upt [symmetric] rev_map del: upt_Suc)
  then show ?thesis
    by (simp add: deepest_def find_append find_map handles_at_def split: option.splits)
qed

lemma saved_of_Cons:
  "saved_of R (c # cs) saved =
     saved_of (\<lambda>s. R (c # s)) cs
       (if handles_at R [] then map_option (\<lambda>e. (e, c # cs)) (R []) else saved)"
  by (auto simp: saved_of_def deepest_Cons handles_at_def split: option.splits)

lemma event_at_child:
  "child_index c < length (p_childs t) \<Longrightarrow> p_childs t ! child_index c = Some u \<Longrightarrow>
   event_at t (c # s) = event_at u s"
  by (cases t) (simp add: event_at_def)

lemma query_walk_spec:
  assumes "wf_trie t" "\<forall>c \<in> set s. in_range c"
  shows "query_walk t s saved =
    (if node_at t s \<noteq> None then (case event_at t s of Some e \<Rightarrow> Q_found e [] | None \<Rightarrow> Q_null)
     else query_child (saved_of (event_at t) s saved))"
  using assms
proof (induction s arbitrary: t saved)
  case Nil
  then show ?case by (cases t) (simp add: event_at_def)
next
  case (Cons c cs)
  obtain ev ch childs where t: "t = Ptrie ev ch childs" by (cases t)
  with Cons.prems have len: "length childs = n_childs" by (auto elim: wf_trieE)
  then have i: "child_index c < length childs" using Cons.prems by (simp add: in_range_index)
  have h: "handles_at (event_at t) [] = node_handles t" "event_at t [] = ev"
    using t by (simp_all add: handles_at_def node_handles_def event_at_def)
  show ?case
  proof (cases "childs ! child_index c")
    case None
    then have n: "node_at t (c # r) = None" for r using t by simp
    then have "event_at t (c # r) = None" for r by (simp add: event_at_def)
    then have "deepest (\<lambda>s. event_at t (c # s)) cs = None"
      by (simp add: deepest_def find_None_iff handles_at_def)
    then have "saved_of (event_at t) (c # cs) saved =
        (if node_handles t then map_option (\<lambda>e. (e, c # cs)) ev else saved)"
      by (simp add: saved_of_Cons h saved_of_def [of "\<lambda>s. event_at t (c # s)"])
    with None n i t show ?thesis by (simp add: Let_def)
  next
    case (Some u)
    have "wf_trie u"
      using Cons.prems(1) node_at_wf [of t "[c]" u] t i Some by simp
    then have IH: "query_walk u cs sv =
      (if node_at u cs \<noteq> None then (case event_at u cs of Some e \<Rightarrow> Q_found e [] | None \<Rightarrow> Q_null)
       else query_child (saved_of (event_at u) cs sv))" for sv
      using Cons by simp
    have eu: "(\<lambda>s. event_at t (c # s)) = event_at u"
      using event_at_child t i Some by fastforce
    have nu: "node_at t (c # cs) = node_at u cs" using t i Some by simp
    have "query_walk t (c # cs) saved =
        query_walk u cs (if node_handles t then map_option (\<lambda>e. (e, c # cs)) ev else saved)"
      using t i Some by (simp add: Let_def)
    then show ?thesis
      by (simp only: IH nu saved_of_Cons eu h fun_cong [OF eu, symmetric])
  qed
qed

lemma deepest_Some:
  "deepest R s = Some n \<Longrightarrow> n < length s \<and> handles_at R (take n s) \<and>
     (\<forall>m. n < m \<and> m < length s \<longrightarrow> \<not> handles_at R (take m s))"
proof -
  assume d: "deepest R s = Some n"
  let ?xs = "rev [0..<length s]"
  from d obtain i where i: "i < length ?xs" "?xs ! i = n" "handles_at R (take n s)"
    "\<forall>j < i. \<not> handles_at R (take (?xs ! j) s)"
    unfolding deepest_def find_Some_iff by auto
  then have n: "n = length s - Suc i" "i < length s" by (simp_all add: rev_nth)
  have "\<not> handles_at R (take m s)" if "n < m" "m < length s" for m
  proof -
    have "length s - Suc m < i" "?xs ! (length s - Suc m) = m"
      using that n by (auto simp: rev_nth)
    with i(4) show ?thesis by metis
  qed
  with i n show ?thesis by simp
qed

lemma deepest_None:
  "deepest R s = None \<longleftrightarrow> (\<forall>m < length s. \<not> handles_at R (take m s))"
  by (auto simp: deepest_def find_None_iff)

lemma query_child_saved_of:
  "query_child (saved_of R s None) =
     (case deepest R s of
        None \<Rightarrow> Q_null
      | Some n \<Rightarrow> if s ! n = CHR ''/'' then Q_found (the (R (take n s))) (drop n s) else Q_null)"
  by (auto simp: query_child_def saved_of_def hd_drop_conv_nth dest: deepest_Some
      split: option.splits)

theorem evs_query_spec:
  assumes "wf_trie t" "\<forall>c \<in> set p. in_range c"
  shows "evs_query t p =
    reg_query (event_at t) (\<lambda>s. node_at t s \<noteq> None) (skip_slash p)"
proof -
  have "\<forall>c \<in> set (skip_slash p). in_range c" using assms(2) skip_slash_set by blast
  with assms(1) show ?thesis
    by (simp add: evs_query_def query_walk_spec reg_query_def query_child_saved_of)
qed

section \<open>The registry interface\<close>

text \<open>
  What the clients of the registry rely on: adding a path that is not there stores the
  event, a second event for the same path is refused, and no other path is touched.
\<close>

fun register_all :: "('t \<Rightarrow> string \<Rightarrow> event \<Rightarrow> (bool \<times> 't) option) \<Rightarrow> 't \<Rightarrow>
    (string \<times> event) list \<Rightarrow> 't option" where
  "register_all add t [] = Some t"
| "register_all add t ((s, e) # xs) =
     (case add t s e of None \<Rightarrow> None | Some (b, u) \<Rightarrow> register_all add u xs)"

locale path_registry =
  fixes emp :: 't
    and add :: "'t \<Rightarrow> string \<Rightarrow> event \<Rightarrow> (bool \<times> 't) option"
    and stored :: "'t \<Rightarrow> string \<Rightarrow> event option"
    and good :: "string \<Rightarrow> bool"
    and inv :: "'t \<Rightarrow> bool"
  assumes inv_emp: "inv emp"
    and stored_emp: "stored emp s = None"
    and add_ok: "inv t \<Longrightarrow> good s \<Longrightarrow> \<exists>b u. add t s e = Some (b, u)"
    and inv_add: "inv t \<Longrightarrow> good s \<Longrightarrow> add t s e = Some (b, u) \<Longrightarrow> inv u"
    and stored_add: "inv t \<Longrightarrow> good s \<Longrightarrow> good r \<Longrightarrow> add t s e = Some (b, u) \<Longrightarrow>
      stored u r = (if b \<and> r = s then Some e else stored t r)"
    and added_iff: "inv t \<Longrightarrow> good s \<Longrightarrow> add t s e = Some (b, u) \<Longrightarrow> b \<longleftrightarrow> stored t s = None"
begin

lemma register_all_ok:
  "inv t \<Longrightarrow> \<forall>x \<in> set xs. good (fst x) \<Longrightarrow> \<exists>u. register_all add t xs = Some u \<and> inv u"
proof (induction xs arbitrary: t)
  case Nil
  then show ?case by simp
next
  case (Cons x xs)
  obtain s e where x: "x = (s, e)" by (cases x)
  with Cons.prems add_ok [of t s e] obtain b u where a: "add t s e = Some (b, u)" by auto
  with Cons.prems x have "inv u" using inv_add [of t s e b u] by simp
  with Cons a x show ?case by simp
qed

text \<open>The first registration of a path wins.\<close>

lemma stored_register_all:
  "inv t \<Longrightarrow> \<forall>x \<in> set xs. good (fst x) \<Longrightarrow> good r \<Longrightarrow> register_all add t xs = Some u \<Longrightarrow>
   stored u r = (case stored t r of Some e \<Rightarrow> Some e | None \<Rightarrow> map_of xs r)"
proof (induction xs arbitrary: t)
  case Nil
  then show ?case by (simp split: option.splits)
next
  case (Cons x xs)
  obtain s e where x: "x = (s, e)" by (cases x)
  with Cons.prems add_ok [of t s e] obtain b v where a: "add t s e = Some (b, v)" by auto
  have iv: "inv v" using Cons.prems x a inv_add [of t s e b v] by simp
  have st: "stored v r = (if b \<and> r = s then Some e else stored t r)"
    "b \<longleftrightarrow> stored t s = None"
    using Cons.prems x a stored_add added_iff by auto
  have "stored u r = (case stored v r of Some e \<Rightarrow> Some e | None \<Rightarrow> map_of xs r)"
    using Cons.IH [OF iv] Cons.prems x a by simp
  with st x show ?case by (auto split: option.splits)
qed

end

text \<open>The keys are the paths behind the leading slash.\<close>

definition good_key :: "string \<Rightarrow> bool" where
  "good_key s \<longleftrightarrow> s \<noteq> [] \<and> (\<forall>c \<in> set s. in_range c)"

definition empty_trie :: ptrie where
  "empty_trie = new_node 0"

interpretation trie: path_registry empty_trie insert_walk event_at good_key wf_trie
proof (unfold_locales, goal_cases)
  case 1
  show ?case by (simp add: empty_trie_def)
next
  case (2 s)
  show ?case by (simp add: empty_trie_def)
next
  case (3 t s e)
  then show ?case using insert_walk_in_range by (fastforce simp: good_key_def)
next
  case (4 t s e b u)
  then show ?case using insert_walk_in_range [of t s e] by (fastforce simp: good_key_def)
next
  case (5 t s r e b u)
  then show ?case using insert_walk_event_at [of t s e b u r] by (simp add: good_key_def)
next
  case (6 t s e b u)
  then show ?case using insert_walk_event_at [of t s e b u s] by (simp add: good_key_def)
qed

section \<open>Properties of the registry\<close>

lemma node_at_register_all:
  "wf_trie t \<Longrightarrow> \<forall>x \<in> set regs. good_key (fst x) \<Longrightarrow> \<forall>c \<in> set r. in_range c \<Longrightarrow>
   register_all insert_walk t regs = Some u \<Longrightarrow>
   node_at u r \<noteq> None \<longleftrightarrow> node_at t r \<noteq> None \<or> (\<exists>k \<in> fst ` set regs. prefix r k)"
proof (induction regs arbitrary: t)
  case Nil
  then show ?case by simp
next
  case (Cons x xs)
  obtain s e where x: "x = (s, e)" by (cases x)
  with Cons.prems trie.add_ok [of t s e] obtain b v where a: "insert_walk t s e = Some (b, v)" by auto
  have "wf_trie v" using trie.inv_add [of t s e b v] Cons.prems x a by simp
  then have "node_at u r \<noteq> None \<longleftrightarrow> node_at v r \<noteq> None \<or> (\<exists>k \<in> fst ` set xs. prefix r k)"
    using Cons.IH Cons.prems x a by simp
  moreover have "node_at v r \<noteq> None \<longleftrightarrow> node_at t r \<noteq> None \<or> prefix r s"
    using insert_walk_node_at [OF a] Cons.prems x by (simp add: good_key_def)
  ultimately show ?case using x by auto
qed

lemma node_at_empty_trie: "node_at empty_trie r \<noteq> None \<longleftrightarrow> r = []"
  by (cases r) (auto simp: empty_trie_def new_node_def node_at_Cons)

lemma reg_query_cong:
  assumes "\<And>r. \<forall>c \<in> set r. in_range c \<Longrightarrow> R r = R' r"
    and "\<And>r. \<forall>c \<in> set r. in_range c \<Longrightarrow> N r = N' r"
    and s: "\<forall>c \<in> set s. in_range c"
  shows "reg_query R N s = reg_query R' N' s"
proof -
  have t: "R (take n s) = R' (take n s)" for n
    using assms(1) [of "take n s"] s by (auto dest: in_set_takeD)
  then have "deepest R s = deepest R' s"
    by (simp add: deepest_def handles_at_def)
  moreover have "R s = R' s" "N s = N' s" using assms s by auto
  ultimately show ?thesis by (simp add: reg_query_def t split: option.split)
qed


definition sample_event :: "string \<Rightarrow> bool \<Rightarrow> event" where
  "sample_event p ch = event_init p None None None ch"


lemma evs_query_insert_wf:
  assumes "wf_trie t" and "\<forall>c \<in> set p. in_range c"
    and "evs_query_insert t p h on off ch = Some (ok, u)"
  shows "wf_trie u"
proof (cases "skip_slash p = []")
  case True
  with assms show ?thesis by (simp add: evs_query_insert_def)
next
  case False
  have "\<forall>c \<in> set (skip_slash p). in_range c" using assms(2) skip_slash_set by blast
  with False have "good_key (skip_slash p)" by (simp add: good_key_def)
  with False assms show ?thesis
    by (auto simp: evs_query_insert_def Let_def intro: trie.inv_add)
qed

lemma insert_then_query:
  assumes "wf_trie t" and "\<forall>c \<in> set p. in_range c"
    and "evs_query_insert t p h on off ch = Some (True, u)"
  shows "evs_query u p = Q_found (event_init p h on off ch) []"
proof -
  let ?s = "skip_slash p"
  have s: "?s \<noteq> []" "insert_walk t ?s (event_init p h on off ch) = Some (True, u)"
    using assms(3) by (auto simp: evs_query_insert_def Let_def split: if_splits)
  have r: "\<forall>c \<in> set ?s. in_range c" using assms(2) skip_slash_set by blast
  have w: "wf_trie u" by (rule evs_query_insert_wf [OF assms])
  have e: "event_at u ?s = Some (event_init p h on off ch)"
    using insert_walk_event_at [OF s(2) r r] by simp
  then have "node_at u ?s \<noteq> None" by (rule event_at_node)
  with e evs_query_spec [OF w assms(2)] show ?thesis by (simp add: reg_query_def)
qed

text \<open>
  An event that was just added is found under the very path it was added with, and the
  extra segments of the match are empty.
\<close>

theorem evs_query_after_insert:
  assumes "wf_trie t" and "\<forall>c \<in> set p. in_range c"
    and "evs_query_insert t p h on off ch = Some (True, u)"
  shows "evs_query u p = Q_found (event_init p h on off ch) []"
  using assms by (rule insert_then_query)

theorem evs_query_after_insert_witness:
  "\<exists>u. evs_query_insert empty_trie ''/a'' (Some H_ping) None None False = Some (True, u) \<and>
     evs_query u ''/a'' = Q_found (event_init ''/a'' (Some H_ping) None None False) []"
proof -
  obtain u where u: "evs_query_insert empty_trie ''/a'' (Some H_ping) None None False = Some (True, u)"
    by (simp add: evs_query_insert_def skip_slash_def empty_trie_def new_node_def n_childs_def
        child_index_eq Let_def)
  moreover have "\<forall>c \<in> set ''/a''. in_range c" by (simp add: in_range_def)
  ultimately show ?thesis using evs_query_after_insert [OF trie.inv_emp _ u] by auto
qed

lemma insert_preserves:
  assumes "wf_trie t" and "\<forall>c \<in> set p. in_range c" and "\<forall>c \<in> set q. in_range c"
    and "evs_query t q = Q_found e []"
    and "evs_query_insert t p h on off ch = Some (ok, u)"
  shows "evs_query u q = Q_found e [] \<and> (skip_slash p = skip_slash q \<longrightarrow> \<not> ok)"
proof -
  let ?q = "skip_slash q"
  have q: "\<forall>c \<in> set ?q. in_range c" using assms(3) skip_slash_set by blast
  have "reg_query (event_at t) (\<lambda>s. node_at t s \<noteq> None) ?q = Q_found e []"
    using evs_query_spec [OF assms(1,3)] assms(4) by simp
  then have e: "event_at t ?q = Some e"
    by (auto simp: reg_query_def split: if_splits option.splits dest: deepest_Some)
  show ?thesis
  proof (cases "skip_slash p = []")
    case True
    then show ?thesis using assms(4,5) by (auto simp: evs_query_insert_def)
  next
    case False
    then have w: "insert_walk t (skip_slash p) (event_init p h on off ch) = Some (ok, u)"
      using assms(5) by (simp add: evs_query_insert_def Let_def)
    have p: "\<forall>c \<in> set (skip_slash p). in_range c" using assms(2) skip_slash_set by blast
    have wu: "wf_trie u" by (rule evs_query_insert_wf [OF assms(1,2,5)])
    have eu: "event_at u ?q = Some e \<and> (skip_slash p = ?q \<longrightarrow> \<not> ok)"
      using insert_walk_event_at [OF w q p] e by auto
    then have "node_at u ?q \<noteq> None" using event_at_node by blast
    with eu evs_query_spec [OF wu assms(3)] show ?thesis by (simp add: reg_query_def)
  qed
qed

text \<open>
  Adding an event never disturbs another: whatever event was found by its exact path
  before is found by it afterwards, and a second event for a path that has one is refused
  and changes no lookup.
\<close>

theorem evs_query_insert_preserves:
  assumes "wf_trie t" and "\<forall>c \<in> set p. in_range c" and "\<forall>c \<in> set q. in_range c"
    and "evs_query t q = Q_found e []"
    and "evs_query_insert t p h on off ch = Some (ok, u)"
  shows "evs_query u q = Q_found e [] \<and> (skip_slash p = skip_slash q \<longrightarrow> \<not> ok)"
  by (rule insert_preserves [OF assms])

theorem evs_query_insert_preserves_witness:
  "\<exists>t u. evs_query t ''/a'' = Q_found (sample_event ''/a'' False) [] \<and>
     evs_query_insert t ''/a/b'' None None None True = Some (True, u) \<and>
     evs_query u ''/a'' = Q_found (sample_event ''/a'' False) []"
proof -
  obtain t where t: "evs_query_insert empty_trie ''/a'' None None None False = Some (True, t)"
    by (simp add: evs_query_insert_def skip_slash_def empty_trie_def new_node_def n_childs_def
        child_index_eq Let_def)
  have a: "\<forall>c \<in> set ''/a''. in_range c" "\<forall>c \<in> set ''/a/b''. in_range c" by (simp_all add: in_range_def)
  have q: "evs_query t ''/a'' = Q_found (sample_event ''/a'' False) []"
    using insert_then_query [OF trie.inv_emp a(1) t] by (simp add: sample_event_def)
  obtain u where u: "evs_query_insert t ''/a/b'' None None None True = Some (True, u)"
    using t by (auto simp: evs_query_insert_def skip_slash_def empty_trie_def new_node_def n_childs_def
        child_index_eq Let_def)
  have "wf_trie t" by (rule evs_query_insert_wf [OF trie.inv_emp a(1) t])
  from evs_query_insert_preserves [OF this a(2,1) q u] q u show ?thesis by auto
qed

text \<open>
  Every match is right: the event found is registered at a prefix of the path, the extra
  segments are the rest of it, and a match with extra segments is only given to an event
  that handles its children and starts a new segment.
\<close>

theorem evs_query_sound:
  assumes "wf_trie t" and "\<forall>c \<in> set p. in_range c" and "evs_query t p = Q_found e x"
  shows "\<exists>k. event_at t k = Some e \<and> skip_slash p = k @ x \<and>
    (x = [] \<or> handle_children e \<and> hd x = CHR ''/'')"
proof -
  let ?s = "skip_slash p"
  have f: "reg_query (event_at t) (\<lambda>s. node_at t s \<noteq> None) ?s = Q_found e x"
    using evs_query_spec [OF assms(1,2)] assms(3) by simp
  show ?thesis
  proof (cases "node_at t ?s = None")
    case False
    with f show ?thesis by (intro exI [of _ ?s]) (auto simp: reg_query_def split: option.splits)
  next
    case True
    with f obtain n where n: "deepest (event_at t) ?s = Some n" "?s ! n = CHR ''/''"
      "e = the (event_at t (take n ?s))" "x = drop n ?s"
      by (auto simp: reg_query_def split: option.splits if_splits)
    from deepest_Some [OF n(1)] have d: "n < length ?s" "handles_at (event_at t) (take n ?s)" by auto
    then have "event_at t (take n ?s) = Some e" "handle_children e"
      using n(3) by (auto simp: handles_at_def split: option.splits)
    with n d show ?thesis by (intro exI [of _ "take n ?s"]) (simp add: hd_drop_conv_nth)
  qed
qed

theorem evs_query_sound_witness:
  "\<exists>t. evs_query t ''/a'' = Q_found (sample_event ''/a'' True) [] \<and>
     (\<exists>k. event_at t k = Some (sample_event ''/a'' True) \<and> ''a'' = k @ [])"
proof -
  obtain t where t: "evs_query_insert empty_trie ''/a'' None None None True = Some (True, t)"
    by (simp add: evs_query_insert_def skip_slash_def empty_trie_def new_node_def n_childs_def
        child_index_eq Let_def)
  have a: "\<forall>c \<in> set ''/a''. in_range c" "True" by (simp_all add: in_range_def)
  have q: "evs_query t ''/a'' = Q_found (sample_event ''/a'' True) []"
    using insert_then_query [OF trie.inv_emp a(1) t] by (simp add: sample_event_def)
  have "wf_trie t" by (rule evs_query_insert_wf [OF trie.inv_emp a(1) t])
  from evs_query_sound [OF this a(1) q] q show ?thesis by (auto simp: skip_slash_def)
qed

lemma evs_query_insert_clean:
  assumes "wf_trie t" "is_clean p"
  shows "evs_query_insert t p h on off ch \<noteq> None" "evs_query_insert t p h on off ch = Some (ok, u) \<Longrightarrow> wf_trie u"
proof -
  have r: "\<forall>c \<in> set p. in_range c" using assms(2) clean_in_range by blast
  then have "\<forall>c \<in> set (skip_slash p). in_range c" using skip_slash_set by blast
  from insert_walk_in_range [OF assms(1) this] show "evs_query_insert t p h on off ch \<noteq> None"
    by (fastforce simp: evs_query_insert_def Let_def)
  show "evs_query_insert t p h on off ch = Some (ok, u) \<Longrightarrow> wf_trie u" by (rule evs_query_insert_wf [OF assms(1) r])
qed

text \<open>
  The array of children is never left: on a path that \<open>evs_make_path\<close> built, registration
  and lookup stay inside it, and so does the lookup of any path that \<open>evs_clean_path\<close> cleaned.
\<close>

theorem clean_paths_in_bounds:
  assumes "wf_trie t"
  shows "evs_query_insert t (evs_make_path a b c) h on off ch \<noteq> None \<and>
    evs_query t (evs_make_path a b c) \<noteq> Q_oob \<and>
    evs_query t (take (snd (evs_clean_path buf)) (fst (evs_clean_path buf))) \<noteq> Q_oob"
proof -
  have q: "evs_query t p \<noteq> Q_oob" if "is_clean p" for p
  proof -
    have "\<forall>c \<in> set p. in_range c" using that clean_in_range by blast
    then show ?thesis
      by (simp add: evs_query_spec [OF assms] reg_query_def split: option.splits)
  qed
  obtain bf n where "evs_clean_path buf = (bf, n)" by (cases "evs_clean_path buf")
  then have "is_clean (take (snd (evs_clean_path buf)) (fst (evs_clean_path buf)))"
    using evs_clean_path_correct [of buf bf n] clean_path_is_clean [of "cstr buf"] by auto
  with q evs_query_insert_clean(1) [OF assms] evs_make_path_is_clean show ?thesis by blast
qed

theorem clean_paths_in_bounds_witness:
  "evs_query empty_trie (evs_make_path (Some ''a'') None None) \<noteq> Q_oob"
  using clean_paths_in_bounds [OF trie.inv_emp] by blast

text \<open>
  An event that handles its children does not get all of them: when a longer registered
  path also handles children, is a prefix of the requested one and does not end at a segment
  boundary, the lookup fails, although the shorter event handles the path.
\<close>

theorem evs_query_shadowed_child:
  assumes "wf_trie t" and "\<forall>c \<in> set s. in_range c"
    and "event_at t (take m s) = Some e" "handle_children e" "m < n" "s ! m = CHR ''/''"
    and "event_at t (take n s) = Some e'" "handle_children e'" "n < length s" "s ! n \<noteq> CHR ''/''"
    and "\<forall>k. n < k \<and> k \<le> length s \<longrightarrow> event_at t (take k s) = None"
    and "hd s \<noteq> CHR ''/''"
  shows "evs_query t s = Q_null"
proof -
  have "skip_slash s = s"
    using assms(12) by (cases s) (simp_all add: skip_slash_def)
  moreover have d: "deepest (event_at t) s = Some n"
  proof -
    have "handles_at (event_at t) (take n s)" using assms(7,8) by (simp add: handles_at_def)
    then have "deepest (event_at t) s \<noteq> None" using assms(9) deepest_None by blast
    then obtain k where k: "deepest (event_at t) s = Some k" by auto
    from deepest_Some [OF k] have "k < length s" "handles_at (event_at t) (take k s)" "\<not> k < n"
      using assms(9) \<open>handles_at (event_at t) (take n s)\<close> by auto
    then have "k = n" using assms(11) by (cases "n < k") (auto simp: handles_at_def)
    with k show ?thesis by simp
  qed
  moreover have "event_at t s = None"
    using assms(11) [rule_format, of "length s"] assms(9) by simp
  ultimately show ?thesis
    using assms(10) by (simp add: evs_query_spec [OF assms(1,2)] reg_query_def)
qed

text \<open>The paths of \<open>test_evs_query_handles_children_lookups\<close> in \<open>src/test/test_evs.c\<close>, shortened.\<close>

theorem evs_query_shadowed_child_witness:
  "\<exists>t. event_at t ''q'' = Some (sample_event ''/q'' True) \<and> evs_query t ''q/anot'' = Q_null"
proof -
  let ?regs = "[(''q'', sample_event ''/q'' True), (''q/an'', sample_event ''/q/an'' True)]"
  have g: "\<forall>x \<in> set ?regs. good_key (fst x)" by (simp add: good_key_def in_range_def)
  obtain t where t: "register_all insert_walk empty_trie ?regs = Some t" "wf_trie t"
    using trie.register_all_ok [OF trie.inv_emp g] by auto
  have ev: "event_at t r = map_of ?regs r" if "good_key r" for r
    using trie.stored_register_all [OF trie.inv_emp g that t(1)] by (simp add: trie.stored_emp)
  have nn: "event_at t (take k ''q/anot'') = None" if "4 < k \<and> k \<le> length ''q/anot''" for k
  proof -
    from that have "k = 5 \<or> k = 6" by auto
    then show ?thesis by (auto simp: ev good_key_def in_range_def)
  qed
  have "evs_query t ''q/anot'' = Q_null"
    by (rule evs_query_shadowed_child [OF t(2), where m = 1 and n = 4
          and e = "sample_event ''/q'' True" and e' = "sample_event ''/q/an'' True"])
      (use nn in \<open>simp_all add: ev good_key_def in_range_def sample_event_def event_init_def\<close>)
  moreover have "event_at t ''q'' = Some (sample_event ''/q'' True)"
    by (simp add: ev good_key_def in_range_def)
  ultimately show ?thesis by blast
qed

end
