(* ===== verification/Qio_State.thy ===== *)
theory Qio_State
  imports Evs_Query
begin

text \<open>
  The state of the server, as one record that the operations of the components take and
  return: the registry of events, the subscriptions, the clients, the queue of broadcasts, the
  counters and the trace of calls into quick-event. Clients and subscriptions are pointers,
  numbers here. An access through a pointer to freed memory, a NULL function pointer or an
  index out of bounds sets \<open>w_fault\<close>; the invariants show that it stays unset.

  What quick-event decides (is a client closing, is there room for one more subscription, which
  clients does a list hold) is a function of the calls made so far: the fields of \<open>env\<close> take the
  trace. Application code is a table of functions over the state, in \<open>env\<close> too.
  Locks are not state: every operation the model makes runs under the lock the code takes.
\<close>

section \<open>Enumerations\<close>

datatype evs_status = EVS_STATUS_OK | EVS_STATUS_ERR | EVS_STATUS_HANDLED

definition CODE_OK :: guint64 where "CODE_OK = 200"
definition CODE_ACCEPTED :: guint64 where "CODE_ACCEPTED = 202"
definition CODE_BAD :: guint64 where "CODE_BAD = 400"
definition CODE_UNAUTH :: guint64 where "CODE_UNAUTH = 401"
definition CODE_NOT_FOUND :: guint64 where "CODE_NOT_FOUND = 404"
definition CODE_ENHANCE_CALM :: guint64 where "CODE_ENHANCE_CALM = 420"
definition CODE_UNKNOWN :: guint64 where "CODE_UNKNOWN = 500"

lemmas code_defs = CODE_OK_def CODE_ACCEPTED_def CODE_BAD_def CODE_UNAUTH_def
  CODE_NOT_FOUND_def CODE_ENHANCE_CALM_def CODE_UNKNOWN_def

datatype client_sub_state =
    CLIENT_SUB_PENDING | CLIENT_SUB_TOMBSTONED | CLIENT_SUB_CREATED
  | CLIENT_SUB_ACTIVE | CLIENT_SUB_NULL

text \<open>
  Reasons to close a client: those of quick-event the code names, and the extensions of
  \<open>quickio.h\<close>, \<open>protocols_raw.h\<close>, \<open>protocols_rfc6455.h\<close> and \<open>protocols_http.h\<close>.
\<close>

datatype close_reason =
    QEV_CLOSE_HUP | QEV_CLOSE_EXITING | QEV_CLOSE_TIMEOUT | QEV_CLOSE_OUT_OF_MEM
  | QIO_CLOSE_NOT_SUPPORTED | QIO_CLOSE_UNKNOWN_ERROR | QIO_CLOSE_INVALID_HANDSHAKE
  | QIO_CLOSE_MOVED | QIO_CLOSE_DONE
  | RAW_INVALID_EVENT_FORMAT | RAW_HEARTATTACK
  | RFC6455_MISSING_UPGRADE | RFC6455_NO_MASK | RFC6455_UNSUPPORTED_OPCODE | RFC6455_NOT_UTF8
  | HTTP_DONE | HTTP_NO_SURROGATE | HTTP_BAD_REQUEST | HTTP_LENGTH_REQUIRED
  | QEV_CLOSE_OTHER nat

text \<open>The entries of \<open>_protocols[]\<close> in \<open>src/protocols.c\<close>, in the order of the array.\<close>

datatype prot = P_http | P_flash | P_raw | P_rfc6455

fun prot_id :: "prot \<Rightarrow> nat" where
  "prot_id P_http = 0"
| "prot_id P_flash = 1"
| "prot_id P_raw = 2"
| "prot_id P_rfc6455 = 3"

instantiation prot :: linorder
begin

definition less_eq_prot :: "prot \<Rightarrow> prot \<Rightarrow> bool" where
  "p \<le> q \<longleftrightarrow> prot_id p \<le> prot_id q"

definition less_prot :: "prot \<Rightarrow> prot \<Rightarrow> bool" where
  "p < q \<longleftrightarrow> prot_id p < prot_id q"

instance
proof
  fix p q :: prot
  show "p \<le> q \<Longrightarrow> q \<le> p \<Longrightarrow> p = q"
    by (cases p; cases q) (simp_all add: less_eq_prot_def)
qed (auto simp: less_eq_prot_def less_prot_def)

end

section \<open>Pointers and function pointers\<close>

type_synonym cid = nat  \<comment> \<open>\<open>struct client *\<close>\<close>
type_synonym sid = nat  \<comment> \<open>\<open>struct subscription *\<close>\<close>
type_synonym data_ptr = nat  \<comment> \<open>\<open>void *\<close> of an application\<close>

datatype cb_ptr = Cb_heartbeat | Cb_app nat  \<comment> \<open>\<open>evs_cb_fn\<close>\<close>

type_synonym free_ptr = nat  \<comment> \<open>\<open>qev_free_fn\<close>\<close>

section \<open>Clients and subscriptions\<close>

text \<open>\<open>struct subscription\<close>. The list of subscribers is quick-event's; see \<open>env\<close>.\<close>

record subscription =
  sub_ev :: event
  sub_ev_extra :: string
  sub_refs :: guint32

text \<open>\<open>struct client_sub\<close>; \<open>idx\<close> is quick-event's handle into the list of subscribers.\<close>

record client_sub =
  cs_pending :: bool
  cs_tombstone :: bool

text \<open>\<open>struct client_cb\<close>\<close>

record client_cb =
  cb_id :: guint16
  cb_fn :: cb_ptr
  cb_data :: "data_ptr option"
  cb_free_fn :: "free_ptr option"
  cb_created :: int

text \<open>\<open>struct client\<close>. A NULL table is \<open>None\<close>; the tables list their entries once.\<close>

record client =
  c_rbuff :: string
  c_handshaked :: bool
  c_prot :: "prot option"
  c_last_send :: int
  c_last_recv :: int
  c_timeout :: bool
  c_subs :: "(sid \<times> client_sub) list option"
  c_data :: "(nat \<times> nat) list option"
  c_http_sid :: uint128
  c_http_tbl :: nat
  c_http_body_len :: guint64
  c_is_post :: bool
  c_iframe_requested :: bool
  c_keep_alive :: bool
  c_in_request :: bool
  c_incoming :: bool
  c_http_client :: "cid option"
  c_cbs :: "client_cb option list"
  c_cbs_id :: guint16

definition n_cbs :: nat where
  "n_cbs = 4"

text \<open>\<open>qev_client_new\<close> of \<open>src/qev.c\<close>: zeroed memory.\<close>

definition qev_client_new :: client where
  "qev_client_new =
     \<lparr>c_rbuff = [], c_handshaked = False, c_prot = None, c_last_send = 0, c_last_recv = 0,
      c_timeout = False, c_subs = None, c_data = None, c_http_sid = 0, c_http_tbl = 0,
      c_http_body_len = 0, c_is_post = False, c_iframe_requested = False, c_keep_alive = False,
      c_in_request = False, c_incoming = False, c_http_client = None,
      c_cbs = replicate n_cbs None, c_cbs_id = 0\<rparr>"

text \<open>\<open>struct evs_on_info\<close>\<close>

record on_info =
  oi_ev_extra :: "string option"
  oi_json :: "string option"
  oi_sub :: sid
  oi_client :: cid
  oi_client_cb :: guint64

section \<open>Counters and the trace\<close>

datatype stat =
    St_subs_total | St_subs_added | St_subs_removed
  | St_client_subs_added | St_client_subs_removed
  | St_callbacks_total | St_callbacks_created | St_callbacks_fired | St_callbacks_evicted
  | St_evs_sent | St_evs_callbacks_sent | St_evs_received
  | St_evs_broadcasts_unique | St_evs_broadcasts_events
  | St_raw_handshakes | St_flash_handshakes
  | St_rfc6455_upgrades | St_rfc6455_handshakes_good | St_rfc6455_handshakes_bad
  | St_http_response nat | St_http_surrogates_opened | St_http_surrogates_closed
  | St_http_requests_iframe | St_http_requests_invalid_method | St_http_requests_poll
  | St_http_requests_immediate | St_http_upgrade_invalid | St_http_upgrade_missing

text \<open>The calls that leave the code of the repository.\<close>

datatype effect =
    E_write cid string
  | E_close cid close_reason
  | E_timeout cid
  | E_timeout_clear cid
  | E_ref cid
  | E_unref "cid option"
  | E_list_add sid cid bool
  | E_list_remove sid cid
  | E_list_free sid
  | E_fair_use nat bool
  | E_fair_return
  | E_free_data free_ptr "data_ptr"
  | E_random nat
  | E_surrogate cid
  | E_flush cid
  | E_handler nat cid string guint64 string
  | E_on nat cid sid
  | E_off nat cid string
  | E_cb nat cid "data_ptr option" guint64 string

section \<open>The state\<close>

record world =
  w_events :: ptrie
  w_ev_subs :: "string \<times> string \<Rightarrow> sid option"  \<comment> \<open>\<open>ev->subs\<close> of the event with that \<open>ev_path\<close>\<close>
  w_sub_heap :: "sid \<Rightarrow> subscription option"
  w_next_sid :: sid
  w_clients :: "cid \<Rightarrow> client"
  w_broadcasts :: "(sid \<times> string) list"
  w_surrogates :: "nat \<times> uint128 \<Rightarrow> cid option"  \<comment> \<open>\<open>_clients[which].tbl\<close> of \<open>protocols_http.c\<close>\<close>
  w_now :: int  \<comment> \<open>\<open>qev_monotonic\<close>\<close>
  w_stats :: "stat \<Rightarrow> int"
  w_trace :: "effect list"
  w_fault :: bool

definition init_world :: world where
  "init_world =
     \<lparr>w_events = empty_trie, w_ev_subs = (\<lambda>_. None), w_sub_heap = (\<lambda>_. None), w_next_sid = 0,
      w_clients = (\<lambda>_. qev_client_new), w_broadcasts = [],
      w_surrogates = (\<lambda>_. None), w_now = 0, w_stats = (\<lambda>_. 0),
      w_trace = [], w_fault = False\<rparr>"

text \<open>
  \<open>struct qev_http_request\<close>, as far as the code reads it: \<open>hr_body\<close> is how far the body starts
  behind the start of the headers.
\<close>

record http_request =
  hr_ok :: bool
  hr_incomplete :: bool
  hr_method :: string
  hr_url :: string
  hr_version :: nat
  hr_header :: "string \<Rightarrow> string option"
  hr_body :: nat

record env =
  fair_use :: "effect list \<Rightarrow> nat \<Rightarrow> bool"
  list_add :: "effect list \<Rightarrow> sid \<Rightarrow> cid \<Rightarrow> bool"
  list_items :: "effect list \<Rightarrow> sid \<Rightarrow> cid list"
  random_slot :: "effect list \<Rightarrow> nat"
  is_closing :: "effect list \<Rightarrow> cid \<Rightarrow> bool"
  is_surrogate :: "cid \<Rightarrow> bool"
  uint_str :: "guint64 \<Rightarrow> string"
  json_str :: "string option \<Rightarrow> string"
  json_unpack_on :: "string \<Rightarrow> (string \<times> string) option"
  errno_erange :: "effect list \<Rightarrow> bool"
  cfg_public_address :: "string option"
  cfg_clients_cb_max_age :: guint64
  cfg_timeout :: int
  safe_uadd :: "guint64 \<Rightarrow> guint64 \<Rightarrow> guint64 option"
  safe_strtoull :: "string \<Rightarrow> guint64 option"
  utf8_validate :: "string \<Rightarrow> bool"
  sha1 :: "string \<Rightarrow> string"
  base64 :: "string \<Rightarrow> string"
  http_parse :: "string \<Rightarrow> http_request"
  surrogate_new :: "effect list \<Rightarrow> cid option"
  surrogate_flush :: "effect list \<Rightarrow> cid \<Rightarrow> string option"
  html_error :: string
  html_iframe :: string
  app_handler :: "nat \<Rightarrow> cid \<Rightarrow> string \<Rightarrow> guint64 \<Rightarrow> string \<Rightarrow> world \<Rightarrow> evs_status \<times> world"
  app_on :: "nat \<Rightarrow> on_info \<Rightarrow> world \<Rightarrow> evs_status \<times> world"
  app_off :: "nat \<Rightarrow> cid \<Rightarrow> string \<Rightarrow> world \<Rightarrow> world"
  app_cb :: "nat \<Rightarrow> cid \<Rightarrow> data_ptr option \<Rightarrow> guint64 \<Rightarrow> string \<Rightarrow> world \<Rightarrow> evs_status \<times> world"

section \<open>Elementary updates\<close>

definition emit :: "effect \<Rightarrow> world \<Rightarrow> world" where
  "emit e w = w\<lparr>w_trace := w_trace w @ [e]\<rparr>"

definition fault :: "world \<Rightarrow> world" where
  "fault w = w\<lparr>w_fault := True\<rparr>"

definition stat_inc :: "stat \<Rightarrow> world \<Rightarrow> world" where
  "stat_inc s w = w\<lparr>w_stats := (w_stats w)(s := w_stats w s + 1)\<rparr>"

definition stat_dec :: "stat \<Rightarrow> world \<Rightarrow> world" where
  "stat_dec s w = w\<lparr>w_stats := (w_stats w)(s := w_stats w s - 1)\<rparr>"

definition upd_client :: "cid \<Rightarrow> (client \<Rightarrow> client) \<Rightarrow> world \<Rightarrow> world" where
  "upd_client c f w = w\<lparr>w_clients := (w_clients w)(c := f (w_clients w c))\<rparr>"

lemma emit_frame [simp]:
  "w_events (emit e w) = w_events w" "w_ev_subs (emit e w) = w_ev_subs w"
  "w_sub_heap (emit e w) = w_sub_heap w" "w_next_sid (emit e w) = w_next_sid w"
  "w_clients (emit e w) = w_clients w" "w_broadcasts (emit e w) = w_broadcasts w" "w_surrogates (emit e w) = w_surrogates w"
  "w_now (emit e w) = w_now w" "w_stats (emit e w) = w_stats w"
  "w_trace (emit e w) = w_trace w @ [e]" "w_fault (emit e w) = w_fault w"
  by (simp_all add: emit_def)

lemma fault_frame [simp]:
  "w_events (fault w) = w_events w" "w_ev_subs (fault w) = w_ev_subs w"
  "w_sub_heap (fault w) = w_sub_heap w" "w_next_sid (fault w) = w_next_sid w"
  "w_clients (fault w) = w_clients w" "w_broadcasts (fault w) = w_broadcasts w" "w_surrogates (fault w) = w_surrogates w"
  "w_now (fault w) = w_now w" "w_stats (fault w) = w_stats w"
  "w_trace (fault w) = w_trace w" "w_fault (fault w) = True"
  by (simp_all add: fault_def)

lemma stat_inc_frame [simp]:
  "w_events (stat_inc s w) = w_events w" "w_ev_subs (stat_inc s w) = w_ev_subs w"
  "w_sub_heap (stat_inc s w) = w_sub_heap w" "w_next_sid (stat_inc s w) = w_next_sid w"
  "w_clients (stat_inc s w) = w_clients w" "w_broadcasts (stat_inc s w) = w_broadcasts w" "w_surrogates (stat_inc s w) = w_surrogates w"
  "w_now (stat_inc s w) = w_now w" "w_stats (stat_inc s w) = (w_stats w)(s := w_stats w s + 1)"
  "w_trace (stat_inc s w) = w_trace w" "w_fault (stat_inc s w) = w_fault w"
  by (simp_all add: stat_inc_def)

lemma stat_dec_frame [simp]:
  "w_events (stat_dec s w) = w_events w" "w_ev_subs (stat_dec s w) = w_ev_subs w"
  "w_sub_heap (stat_dec s w) = w_sub_heap w" "w_next_sid (stat_dec s w) = w_next_sid w"
  "w_clients (stat_dec s w) = w_clients w" "w_broadcasts (stat_dec s w) = w_broadcasts w" "w_surrogates (stat_dec s w) = w_surrogates w"
  "w_now (stat_dec s w) = w_now w" "w_stats (stat_dec s w) = (w_stats w)(s := w_stats w s - 1)"
  "w_trace (stat_dec s w) = w_trace w" "w_fault (stat_dec s w) = w_fault w"
  by (simp_all add: stat_dec_def)

lemma upd_client_frame [simp]:
  "w_events (upd_client c f w) = w_events w" "w_ev_subs (upd_client c f w) = w_ev_subs w"
  "w_sub_heap (upd_client c f w) = w_sub_heap w" "w_next_sid (upd_client c f w) = w_next_sid w"
  "w_clients (upd_client c f w) = (w_clients w)(c := f (w_clients w c))"
  "w_broadcasts (upd_client c f w) = w_broadcasts w" "w_surrogates (upd_client c f w) = w_surrogates w"
  "w_now (upd_client c f w) = w_now w" "w_stats (upd_client c f w) = w_stats w"
  "w_trace (upd_client c f w) = w_trace w" "w_fault (upd_client c f w) = w_fault w"
  by (simp_all add: upd_client_def)

section \<open>An environment to evaluate the model in\<close>

definition sample_env :: env where
  "sample_env = \<lparr>fair_use = \<lambda>_ _. True, list_add = \<lambda>_ _ _. True, list_items = \<lambda>_ _. [],
     random_slot = \<lambda>tr. length tr mod 4, is_closing = \<lambda>_ _. False, is_surrogate = \<lambda>_. False,
     uint_str = (\<lambda>n. dec_str (unat n)), json_str = (\<lambda>_. ''null''), json_unpack_on = (\<lambda>_. None),
     errno_erange = \<lambda>_. False, cfg_public_address = None, cfg_clients_cb_max_age = 60,
     cfg_timeout = 5000000, safe_uadd = checked_uadd, safe_strtoull = (\<lambda>_. None),
     utf8_validate = (\<lambda>_. True), sha1 = id, base64 = id,
     http_parse = (\<lambda>_. \<lparr>hr_ok = False, hr_incomplete = True, hr_method = [], hr_url = [],
       hr_version = 0, hr_header = (\<lambda>_. None), hr_body = 0\<rparr>),
     surrogate_new = (\<lambda>_. None), surrogate_flush = (\<lambda>_ _. None), html_error = [], html_iframe = [],
     app_handler = (\<lambda>_ _ _ _ _ w. (EVS_STATUS_OK, w)), app_on = (\<lambda>_ _ w. (EVS_STATUS_OK, w)),
     app_off = (\<lambda>_ _ _ w. w), app_cb = (\<lambda>_ _ _ _ _ w. (EVS_STATUS_OK, w))\<rparr>"

end
