(* ===== verification/Protocol_Frames.thy ===== *)
theory Protocol_Frames
  imports Qio_State
begin

text \<open>
  How events are put into bytes (\<open>protocol_raw_format\<close>, \<open>protocol_raw_frame\<close>,
  \<open>protocol_rfc6455_frame\<close>, \<open>_build_response_full\<close>, \<open>protocol_http_frame\<close>), the frames that the
  source has as literals, and the interface \<open>framing\<close> of an encoding that a receiver can cut out of
  a stream, which the receiving sides are instances of.
\<close>

section \<open>Raw events\<close>

text \<open>\<open>struct protocol_frames\<close>\<close>

record frames =
  fr_def :: "string option"
  fr_raw :: "string option"

definition PROTOCOLS_HEARTBEAT :: string where
  "PROTOCOLS_HEARTBEAT = ''/qio/heartbeat:0=null''"

definition protocol_raw_format :: "env \<Rightarrow> string \<Rightarrow> string \<Rightarrow> guint64 \<Rightarrow> string \<Rightarrow> string" where
  "protocol_raw_format E path extra server_cb json =
     path @ extra @ '':'' @ uint_str E server_cb @ ''='' @ json"

definition protocol_raw_frame :: "env \<Rightarrow> string \<Rightarrow> string \<Rightarrow> guint64 \<Rightarrow> string \<Rightarrow> frames" where
  "protocol_raw_frame E path extra server_cb json =
     (let buff = protocol_raw_format E path extra server_cb json
      in \<lparr>fr_def = Some (be_bytes 8 (length buff) @ buff), fr_raw = None\<rparr>)"

definition RAW_HEARTBEAT :: string where
  "RAW_HEARTBEAT =
     [CHR 0x00, CHR 0x00, CHR 0x00, CHR 0x00, CHR 0x00, CHR 0x00, CHR 0x00, CHR 0x15] @ PROTOCOLS_HEARTBEAT"

section \<open>WebSocket frames\<close>

definition PAYLOAD_SHORT :: nat where "PAYLOAD_SHORT = 125"
definition PAYLOAD_MEDIUM :: nat where "PAYLOAD_MEDIUM = 126"
definition PAYLOAD_LONG :: nat where "PAYLOAD_LONG = 127"

text \<open>What goes in front of a payload of a given length.\<close>

definition rfc6455_head :: "nat \<Rightarrow> string" where
  "rfc6455_head len =
     CHR 0x81 #
     (if len \<le> PAYLOAD_SHORT then [char_of len]
      else if len \<le> 0xffff then char_of PAYLOAD_MEDIUM # be_bytes 2 len
      else char_of PAYLOAD_LONG # be_bytes 8 len)"

definition protocol_rfc6455_frame :: "env \<Rightarrow> string \<Rightarrow> string \<Rightarrow> guint64 \<Rightarrow> string \<Rightarrow> frames" where
  "protocol_rfc6455_frame E path extra server_cb json =
     (let raw = protocol_raw_format E path extra server_cb json
      in \<lparr>fr_def = Some (rfc6455_head (length raw) @ raw), fr_raw = None\<rparr>)"

definition QIO_HANDSHAKE :: string where
  "QIO_HANDSHAKE = [CHR 0x81, CHR 0x09] @ ''/qio/ohai''"

definition RFC6455_HEARTBEAT :: string where
  "RFC6455_HEARTBEAT = [CHR 0x81, CHR 0x15] @ PROTOCOLS_HEARTBEAT"

text \<open>What \<open>protocol_rfc6455_close\<close> writes, by reason.\<close>

definition rfc6455_close_frame :: "close_reason \<Rightarrow> string" where
  "rfc6455_close_frame reason =
     (case reason of
        QEV_CLOSE_EXITING \<Rightarrow> [CHR 0x88, CHR 0x02, CHR 0x03, CHR 0xe9]
      | QIO_CLOSE_INVALID_HANDSHAKE \<Rightarrow>
          [CHR 0x88, CHR 0x13, CHR 0x03, CHR 0xea] @ ''invalid handshake''
      | RAW_INVALID_EVENT_FORMAT \<Rightarrow>
          [CHR 0x88, CHR 0x16, CHR 0x03, CHR 0xea] @ ''invalid event format''
      | RFC6455_NO_MASK \<Rightarrow>
          [CHR 0x88, CHR 0x17, CHR 0x03, CHR 0xea] @ ''client must mask data''
      | RFC6455_UNSUPPORTED_OPCODE \<Rightarrow> [CHR 0x88, CHR 0x02, CHR 0x03, CHR 0xeb]
      | RFC6455_NOT_UTF8 \<Rightarrow> [CHR 0x88, CHR 0x02, CHR 0x03, CHR 0xef]
      | QEV_CLOSE_TIMEOUT \<Rightarrow> [CHR 0x88, CHR 0x10, CHR 0x03, CHR 0xf0] @ ''client timeout''
      | QEV_CLOSE_OUT_OF_MEM \<Rightarrow> [CHR 0x88, CHR 0x02, CHR 0x03, CHR 0xf1]
      | _ \<Rightarrow> [CHR 0x88, CHR 0x00])"

section \<open>HTTP responses\<close>

datatype http_status =
    STATUS_200 | STATUS_400 | STATUS_403 | STATUS_405 | STATUS_411 | STATUS_413 | STATUS_426
  | STATUS_501

definition CRLF :: string where
  "CRLF = [CHR 0x0D, CHR 0x0A]"

fun status_code :: "http_status \<Rightarrow> nat" where
  "status_code STATUS_200 = 200"
| "status_code STATUS_400 = 400"
| "status_code STATUS_403 = 403"
| "status_code STATUS_405 = 405"
| "status_code STATUS_411 = 411"
| "status_code STATUS_413 = 413"
| "status_code STATUS_426 = 426"
| "status_code STATUS_501 = 501"

fun status_line :: "http_status \<Rightarrow> string" where
  "status_line STATUS_200 = ''200 OK'' @ CRLF"
| "status_line STATUS_400 = ''400 Bad Request'' @ CRLF"
| "status_line STATUS_403 = ''403 Forbidden'' @ CRLF"
| "status_line STATUS_405 = ''405 Method Not Allowed'' @ CRLF"
| "status_line STATUS_411 = ''411 Length Required'' @ CRLF"
| "status_line STATUS_413 = ''413 Request Entity Too Large'' @ CRLF"
| "status_line STATUS_426 = ''426 Upgrade Required'' @ CRLF"
| "status_line STATUS_501 = ''501 Not Implemented'' @ CRLF"

definition HTTP_NOCACHE :: string where
  "HTTP_NOCACHE = ''Cache-Control: private, max-age=0'' @ CRLF @ ''Expires: -1'' @ CRLF"

definition HTTP_COMMON :: string where
  "HTTP_COMMON =
     HTTP_NOCACHE @ ''Connection: Keep-Alive'' @ CRLF @ ''Keep-Alive: timeout=60'' @ CRLF"

definition HTTP_CONTENT_LENGTH :: string where
  "HTTP_CONTENT_LENGTH = ''Content-Length''"

definition build_response_full :: "env \<Rightarrow> http_status \<Rightarrow> string option \<Rightarrow> bool \<Rightarrow> string" where
  "build_response_full E status body is_iframe =
     (let len = (case body of None \<Rightarrow> 0 | Some b \<Rightarrow> length b)
      in ''HTTP/1.0 '' @ status_line status @ HTTP_COMMON @ HTTP_CONTENT_LENGTH @ '': '' @
         uint_str E (word_of_nat len) @
         (if is_iframe then CRLF @ ''Content-Type: text/html'' @ CRLF @ CRLF
          else CRLF @ ''Content-Type: text/plain'' @ CRLF @ CRLF) @
         (case body of None \<Rightarrow> [] | Some b \<Rightarrow> b))"

definition build_response :: "env \<Rightarrow> http_status \<Rightarrow> string option \<Rightarrow> string" where
  "build_response E status body = build_response_full E status body False"

definition protocol_http_frame :: "env \<Rightarrow> string \<Rightarrow> string \<Rightarrow> guint64 \<Rightarrow> string \<Rightarrow> frames" where
  "protocol_http_frame E path extra server_cb json =
     (let raw = protocol_raw_format E path extra server_cb json @ [CHR 0x0A]
      in \<lparr>fr_def = Some (build_response E STATUS_200 (Some raw)), fr_raw = Some raw\<rparr>)"

section \<open>The interface of a framing\<close>

text \<open>
  \<open>enc\<close> puts a message into bytes, \<open>dec\<close> looks at the front of a stream and gives the message
  and the number of bytes it took, or nothing when more bytes are needed.
\<close>

locale framing =
  fixes enc :: "string \<Rightarrow> string"
    and dec :: "string \<Rightarrow> (string \<times> nat) option"
    and fits :: "string \<Rightarrow> bool"
  assumes dec_enc: "fits m \<Longrightarrow> dec (enc m @ rest) = Some (m, length (enc m))"
    and dec_partial: "fits m \<Longrightarrow> strict_prefix p (enc m) \<Longrightarrow> dec p = None"
    and enc_nonempty: "fits m \<Longrightarrow> enc m \<noteq> []"
begin

lemma enc_inj: "fits a \<Longrightarrow> fits b \<Longrightarrow> enc a = enc b \<Longrightarrow> a = b"
  using dec_enc [of a "[]"] dec_enc [of b "[]"] by simp

lemma prefix_free: "fits a \<Longrightarrow> fits b \<Longrightarrow> prefix (enc a) (enc b) \<Longrightarrow> a = b"
proof -
  assume h: "fits a" "fits b" "prefix (enc a) (enc b)"
  then obtain r where "enc b = enc a @ r" by (auto simp: prefix_def)
  with dec_enc [OF h(1), of r] dec_enc [OF h(2), of "[]"] show "a = b" by simp
qed

lemma dec_stream:
  assumes "fits m"
  shows "dec (concat (map enc (m # ms))) = Some (m, length (enc m)) \<and>
   drop (length (enc m)) (concat (map enc (m # ms))) = concat (map enc ms)"
  using dec_enc [OF assms, of "concat (map enc ms)"] by simp

lemma stream_inj:
  "\<forall>m \<in> set ms. fits m \<Longrightarrow> \<forall>m \<in> set ns. fits m \<Longrightarrow> concat (map enc ms) = concat (map enc ns) \<Longrightarrow>
   ms = ns"
proof (induction ms arbitrary: ns)
  case Nil
  show ?case
  proof (cases ns)
    case (Cons n ns')
    with Nil enc_nonempty [of n] show ?thesis by simp
  qed simp
next
  case (Cons m ms)
  show ?case
  proof (cases ns)
    case Nil
    with Cons.prems enc_nonempty [of m] show ?thesis by simp
  next
    case ns: (Cons n ns')
    from Cons.prems have f: "fits m" "fits n" and e: "concat (map enc (m # ms)) = concat (map enc (n # ns'))"
      by (simp_all only: ns list.set_intros)
    have mn: "m = n" using dec_stream [OF f(1), of ms] dec_stream [OF f(2), of ns'] e by simp
    with e have "concat (map enc ms) = concat (map enc ns')" by simp
    with Cons.IH [of ns'] Cons.prems mn ns show ?thesis by simp
  qed
qed

text \<open>However a stream is cut into reads, no message is seen before its last byte.\<close>

lemma partial_none:
  assumes "fits m" "k < length (enc m)"
  shows "dec (take k (enc m)) = None"
proof (rule dec_partial [OF assms(1)])
  have "take k (enc m) \<noteq> enc m"
  proof
    assume "take k (enc m) = enc m"
    then have "length (take k (enc m)) = length (enc m)" by (rule arg_cong)
    with assms(2) show False by simp
  qed
  then show "strict_prefix (take k (enc m)) (enc m)"
    using take_is_prefix [of k "enc m"] unfolding strict_prefix_def by (rule conjI [rotated])
qed

end

text \<open>Reading an unmasked frame as RFC 6455, section 5.2, has it: the receiver of what the server sends.\<close>

definition rfc6455_unframe :: "string \<Rightarrow> (string \<times> nat) option" where
  "rfc6455_unframe s =
     (if length s < 2 then None else
        let l = byte (s ! 1);
            (head, len) =
              (if l \<le> PAYLOAD_SHORT then (2, l)
               else if l = PAYLOAD_MEDIUM then (4, be_value (take 2 (drop 2 s)))
               else (10, be_value (take 8 (drop 2 s))))
        in if length s < head + len then None else Some (take len (drop head s), head + len))"

definition raw_unframe :: "string \<Rightarrow> (string \<times> nat) option" where
  "raw_unframe s =
     (if length s < 8 then None else
        let len = be_value (take 8 s)
        in if length s < 8 + len then None else Some (take len (drop 8 s), 8 + len))"

lemma byte_char_of: "n < 256 \<Longrightarrow> byte (char_of n) = n"
  by simp

interpretation raw_out: framing "\<lambda>m. be_bytes 8 (length m) @ m" raw_unframe "\<lambda>m. length m < 2 ^ 64"
proof (unfold_locales, goal_cases)
  case (1 m rest)
  then show ?case by (simp add: raw_unframe_def Let_def be_value_be_bytes)
next
  case (2 m p)
  then obtain r where r: "be_bytes 8 (length m) @ m = p @ r" "r \<noteq> []"
    by (auto simp: strict_prefix_def prefix_def)
  show ?case
  proof (cases "length p < 8")
    case True
    then show ?thesis by (simp add: raw_unframe_def)
  next
    case False
    then have "take 8 p = be_bytes 8 (length m)"
      using arg_cong [OF r(1), of "take 8"] by simp
    moreover have "length p < 8 + length m"
      using arg_cong [OF r(1), of length] r(2) by simp
    ultimately show ?thesis using 2 False by (simp add: raw_unframe_def Let_def be_value_be_bytes)
  qed
next
  case (3 m)
  have "length (be_bytes 8 (length m)) \<noteq> 0" by simp
  then show ?case by (metis append_is_Nil_conv list.size(3))
qed

text \<open>Cutting a frame whose head is known.\<close>

lemma rfc6455_head_cases:
  obtains (short) "n \<le> 125" "rfc6455_head n = [CHR 0x81, char_of n]"
  | (medium) "125 < n" "n < 65536" "rfc6455_head n = CHR 0x81 # char_of (126 :: nat) # be_bytes 2 n"
  | (long) "65535 < n" "rfc6455_head n = CHR 0x81 # char_of (127 :: nat) # be_bytes 8 n"
  by (cases "n \<le> 125"; cases "n < 65536")
    (auto simp: rfc6455_head_def PAYLOAD_SHORT_def PAYLOAD_MEDIUM_def PAYLOAD_LONG_def)

lemma rfc6455_unframe_head:
  assumes "n < 2 ^ 64"
  shows "length (rfc6455_head n @ t) \<ge> length (rfc6455_head n) + n \<Longrightarrow>
      rfc6455_unframe (rfc6455_head n @ t) = Some (take n t, length (rfc6455_head n) + n)"
    and "length (rfc6455_head n @ t) < length (rfc6455_head n) + n \<Longrightarrow>
      rfc6455_unframe (rfc6455_head n @ t) = None"
proof -
  note d = rfc6455_unframe_def PAYLOAD_SHORT_def PAYLOAD_MEDIUM_def Let_def
  have "rfc6455_unframe (rfc6455_head n @ t) =
      (if length t < n then None else Some (take n t, length (rfc6455_head n) + n))"
  proof (cases rule: rfc6455_head_cases [of n])
    case short
    then show ?thesis by (simp add: d)
  next
    case medium
    then show ?thesis by (simp add: d be_value_be_bytes)
  next
    case long
    with assms show ?thesis by (simp add: d be_value_be_bytes)
  qed
  then show "length (rfc6455_head n @ t) \<ge> length (rfc6455_head n) + n \<Longrightarrow>
      rfc6455_unframe (rfc6455_head n @ t) = Some (take n t, length (rfc6455_head n) + n)"
    and "length (rfc6455_head n @ t) < length (rfc6455_head n) + n \<Longrightarrow>
      rfc6455_unframe (rfc6455_head n @ t) = None"
    by simp_all
qed

lemma rfc6455_unframe_short_head:
  assumes "n < 2 ^ 64" "strict_prefix p (rfc6455_head n)"
  shows "rfc6455_unframe p = None"
proof -
  from assms(2) obtain r where r: "rfc6455_head n = p @ r" "r \<noteq> []"
    by (auto simp: strict_prefix_def prefix_def)
  then have l: "length p < length (rfc6455_head n)" by simp
  have at: "p ! 1 = rfc6455_head n ! 1" if "2 \<le> length p" using that r(1) by (simp add: nth_append)
  note d = rfc6455_unframe_def PAYLOAD_SHORT_def PAYLOAD_MEDIUM_def Let_def
  show ?thesis
  proof (cases rule: rfc6455_head_cases [of n])
    case short
    with l show ?thesis by (simp add: d)
  next
    case medium
    with l at show ?thesis by (auto simp: d)
  next
    case long
    with l at show ?thesis by (auto simp: d)
  qed
qed

interpretation ws_out: framing "\<lambda>m. rfc6455_head (length m) @ m" rfc6455_unframe "\<lambda>m. length m < 2 ^ 64"
proof (unfold_locales, goal_cases)
  case (1 m rest)
  then show ?case using rfc6455_unframe_head(1) [of "length m" "m @ rest"] by simp
next
  case (2 m p)
  show ?case
  proof (cases "length p < length (rfc6455_head (length m))")
    case True
    with 2(2) have "strict_prefix p (rfc6455_head (length m))"
      by (auto simp: strict_prefix_def prefix_append dest: prefix_length_le)
    with 2(1) show ?thesis by (rule rfc6455_unframe_short_head)
  next
    case False
    obtain t where t: "p = rfc6455_head (length m) @ t" "strict_prefix t m"
    proof -
      from 2(2) obtain r where r: "rfc6455_head (length m) @ m = p @ r" "r \<noteq> []"
        by (auto simp: strict_prefix_def prefix_def)
      with False have "p = rfc6455_head (length m) @ drop (length (rfc6455_head (length m))) p"
          "m = drop (length (rfc6455_head (length m))) p @ r"
        using append_take_drop_id [of "length (rfc6455_head (length m))" p]
        by (auto simp: append_eq_append_conv_if)
      with r(2) that show thesis by (metis append_self_conv prefixI strict_prefix_def)
    qed
    then have "length t < length m" by (simp add: prefix_length_less)
    with t 2(1) rfc6455_unframe_head(2) [of "length m" t] show ?thesis by simp
  qed
next
  case (3 m)
  then show ?case by (simp add: rfc6455_head_def)
qed

lemma digit_chars:
  "digit_char 0 = CHR ''0''" "digit_char 1 = CHR ''1''" "digit_char 2 = CHR ''2''"
  "digit_char 3 = CHR ''3''" "digit_char 4 = CHR ''4''" "digit_char 5 = CHR ''5''"
  "digit_char 6 = CHR ''6''" "digit_char (Suc 0) = CHR ''1''"
  by code_simp+

definition body_str :: "string option \<Rightarrow> string" where
  "body_str body = (case body of None \<Rightarrow> [] | Some b \<Rightarrow> b)"

section \<open>Properties\<close>

text \<open>
  C22. What the server frames for a raw or a WebSocket client, the other side cuts out of the byte
  stream again: whatever follows in the stream, the first frame gives back the formatted event
  and its own length, and a frame that has only partly arrived gives nothing.
\<close>

theorem frames_unframe:
  assumes "length (protocol_raw_format E path extra server_cb json) < 2 ^ 64"
  shows "\<exists>raw ws. fr_def (protocol_raw_frame E path extra server_cb json) = Some raw \<and>
    fr_def (protocol_rfc6455_frame E path extra server_cb json) = Some ws \<and>
    raw_unframe (raw @ rest) = Some (protocol_raw_format E path extra server_cb json, length raw) \<and>
    rfc6455_unframe (ws @ rest) = Some (protocol_raw_format E path extra server_cb json, length ws) \<and>
    (\<forall>k. length raw \<le> k \<or> raw_unframe (take k raw) = None) \<and>
    (\<forall>k. length ws \<le> k \<or> rfc6455_unframe (take k ws) = None)"
  using raw_out.dec_enc [OF assms, of rest] ws_out.dec_enc [OF assms, of rest]
    raw_out.partial_none [OF assms] ws_out.partial_none [OF assms]
  by (simp add: protocol_raw_frame_def protocol_rfc6455_frame_def Let_def)
    (metis not_le)

lemma frames_unframe_witness:
  "\<exists>ws. fr_def (protocol_rfc6455_frame sample_env ''/a'' [] 0 ''1'') = Some ws \<and>
     rfc6455_unframe ws = Some (''/a:0=1'', length ws)"
proof -
  have f: "protocol_raw_format sample_env ''/a'' [] 0 ''1'' = ''/a:0=1''"
    by (simp add: protocol_raw_format_def sample_env_def dec_str.simps digit_chars)
  show ?thesis
    using frames_unframe [of sample_env "''/a''" "[]" 0 "''1''" "[]"] by (auto simp: f)
qed

text \<open>
  A whole sequence of events sent to a WebSocket or raw client arrives as that sequence: two
  sequences with the same bytes on the wire are the same events.
\<close>

theorem sent_streams_injective:
  assumes "\<forall>(p, x, cb, j) \<in> set es \<union> set fs. length (protocol_raw_format E p x cb j) < 2 ^ 64"
    and "concat (map (\<lambda>(p, x, cb, j). the (fr_def (F E p x cb j))) es) =
         concat (map (\<lambda>(p, x, cb, j). the (fr_def (F E p x cb j))) fs)"
    and "F = protocol_raw_frame \<or> F = protocol_rfc6455_frame"
  shows "map (\<lambda>(p, x, cb, j). protocol_raw_format E p x cb j) es =
         map (\<lambda>(p, x, cb, j). protocol_raw_format E p x cb j) fs"
proof -
  let ?m = "\<lambda>(p, x, cb, j). protocol_raw_format E p x cb j"
  have l: "\<forall>m \<in> set (map ?m es). length m < 2 ^ 64" "\<forall>m \<in> set (map ?m fs). length m < 2 ^ 64"
    using assms(1) by (auto dest!: bspec)
  from assms(3) show ?thesis
  proof
    assume F: "F = protocol_raw_frame"
    have e: "(\<lambda>(p, x, cb, j). the (fr_def (F E p x cb j))) =
        (\<lambda>m. be_bytes 8 (length m) @ m) \<circ> ?m"
      by (simp add: F fun_eq_iff protocol_raw_frame_def Let_def)
    show ?thesis
      by (rule raw_out.stream_inj [OF l]) (use assms(2) in \<open>simp only: e map_map\<close>)
  next
    assume F: "F = protocol_rfc6455_frame"
    have e: "(\<lambda>(p, x, cb, j). the (fr_def (F E p x cb j))) =
        (\<lambda>m. rfc6455_head (length m) @ m) \<circ> ?m"
      by (simp add: F fun_eq_iff protocol_rfc6455_frame_def Let_def)
    show ?thesis
      by (rule ws_out.stream_inj [OF l]) (use assms(2) in \<open>simp only: e map_map\<close>)
  qed
qed

lemma sent_streams_injective_witness:
  "map (\<lambda>(p, x, cb, j). protocol_raw_format sample_env p x cb j) [(''/a'', ''/b'', 0, ''1'')] =
   map (\<lambda>(p, x, cb, j). protocol_raw_format sample_env p x cb j) [(''/a/b'', [], 0, ''1'')]"
  by (rule sent_streams_injective [where F = protocol_rfc6455_frame])
    (simp_all add: protocol_rfc6455_frame_def protocol_raw_format_def sample_env_def
      dec_str.simps digit_chars)

text \<open>
  The frames that the source has as byte literals are the ones the framing functions produce:
  both heartbeats are the framed event \<open>/qio/heartbeat:0=null\<close>, the WebSocket handshake is the framed
  \<open>/qio/ohai\<close>, and every closing frame is a close frame whose length byte is the length of its
  payload, at most 125.
\<close>

theorem literal_frames_wellformed:
  assumes "uint_str_law (uint_str E)"
  shows "fr_def (protocol_raw_frame E ''/qio'' ''/heartbeat'' 0 ''null'') = Some RAW_HEARTBEAT \<and>
    fr_def (protocol_rfc6455_frame E ''/qio'' ''/heartbeat'' 0 ''null'') = Some RFC6455_HEARTBEAT \<and>
    rfc6455_unframe QIO_HANDSHAKE = Some (''/qio/ohai'', length QIO_HANDSHAKE) \<and>
    rfc6455_close_frame reason ! 0 = CHR 0x88 \<and>
    byte (rfc6455_close_frame reason ! 1) \<le> PAYLOAD_SHORT \<and>
    rfc6455_unframe (rfc6455_close_frame reason) =
      Some (drop 2 (rfc6455_close_frame reason), length (rfc6455_close_frame reason))"
proof -
  have f: "protocol_raw_format E ''/qio'' ''/heartbeat'' 0 ''null'' = PROTOCOLS_HEARTBEAT"
    using assms by (simp add: protocol_raw_format_def uint_str_law_def PROTOCOLS_HEARTBEAT_def
        dec_str.simps digit_chars)
  have h: "length PROTOCOLS_HEARTBEAT = 21" by (simp add: PROTOCOLS_HEARTBEAT_def)
  have "be_bytes 8 21 =
      [CHR 0x00, CHR 0x00, CHR 0x00, CHR 0x00, CHR 0x00, CHR 0x00, CHR 0x00, CHR 0x15]"
    by code_simp
  moreover have "rfc6455_head 21 = [CHR 0x81, CHR 0x15]"
    by code_simp
  moreover have "rfc6455_unframe QIO_HANDSHAKE = Some (''/qio/ohai'', length QIO_HANDSHAKE)"
    by code_simp
  moreover have "rfc6455_close_frame reason ! 0 = CHR 0x88 \<and>
      byte (rfc6455_close_frame reason ! 1) \<le> PAYLOAD_SHORT"
    by (cases reason) (simp_all add: rfc6455_close_frame_def PAYLOAD_SHORT_def)
  moreover have "rfc6455_unframe (rfc6455_close_frame reason) =
      Some (drop 2 (rfc6455_close_frame reason), length (rfc6455_close_frame reason))"
    by (cases reason)
      (simp_all add: rfc6455_unframe_def rfc6455_close_frame_def PAYLOAD_SHORT_def Let_def
        take_Cons' drop_Cons')
  ultimately show ?thesis
    by (simp add: protocol_raw_frame_def protocol_rfc6455_frame_def Let_def f h
        RAW_HEARTBEAT_def RFC6455_HEARTBEAT_def)
qed

lemma literal_frames_wellformed_witness:
  "fr_def (protocol_raw_frame sample_env ''/qio'' ''/heartbeat'' 0 ''null'') = Some RAW_HEARTBEAT"
proof -
  have "uint_str_law (uint_str sample_env)" by (simp add: uint_str_law_def sample_env_def)
  from literal_frames_wellformed [OF this] show ?thesis by blast
qed

definition header_line :: "string \<Rightarrow> bool" where
  "header_line l \<longleftrightarrow> l \<noteq> [] \<and> CHR 0x0D \<notin> set l \<and> CHR 0x0A \<notin> set l"

text \<open>
  An HTTP response is a status line, header lines that are not empty and hold no line end, one empty
  line and the body: the header block cannot end early, and its \<open>Content-Length\<close> is the number
  of bytes of the body.
\<close>

theorem http_response_wellformed:
  assumes "uint_str_law (uint_str E)" "length (body_str body) < 2 ^ 64"
  shows "\<exists>lines. build_response_full E status body is_iframe =
      concat (map (\<lambda>l. l @ CRLF) lines) @ CRLF @ body_str body \<and>
    (\<forall>l \<in> set lines. header_line l) \<and>
    prefix (''HTTP/1.0 '' @ dec_str (status_code status) @ '' '') (hd lines) \<and>
    HTTP_CONTENT_LENGTH @ '': '' @ dec_str (length (body_str body)) \<in> set lines"
proof -
  let ?n = "length (body_str body)"
  let ?len = "HTTP_CONTENT_LENGTH @ '': '' @ dec_str ?n"
  let ?st = "''HTTP/1.0 '' @ butlast (butlast (status_line status))"
  let ?type = "if is_iframe then ''Content-Type: text/html'' else ''Content-Type: text/plain''"
  let ?lines = "[?st, ''Cache-Control: private, max-age=0'', ''Expires: -1'',
     ''Connection: Keep-Alive'', ''Keep-Alive: timeout=60'', ?len, ?type]"
  have u: "uint_str E (word_of_nat ?n) = dec_str ?n"
    using assms by (simp add: uint_str_law_def unat_of_nat take_bit_eq_mod)
  have b: "(case body of None \<Rightarrow> 0 | Some b \<Rightarrow> length b) = ?n"
      "(case body of None \<Rightarrow> [] | Some b \<Rightarrow> b) = body_str body"
    by (simp_all add: body_str_def split: option.split)
  have s: "status_line status = butlast (butlast (status_line status)) @ CRLF"
    by (cases status) (simp_all add: CRLF_def)
  have eq: "build_response_full E status body is_iframe =
      concat (map (\<lambda>l. l @ CRLF) ?lines) @ CRLF @ body_str body"
    unfolding build_response_full_def Let_def b u HTTP_COMMON_def HTTP_NOCACHE_def
    by (subst s) simp
  have "header_line ?st" by (cases status) (simp_all add: header_line_def CRLF_def)
  moreover have "header_line ?len"
  proof -
    have "\<forall>c \<in> set (dec_str ?n). c \<noteq> CHR 0x0D \<and> c \<noteq> CHR 0x0A"
      using dec_str_digits [of ?n] by (auto simp: is_digit_def)
    then show ?thesis by (auto simp: header_line_def HTTP_CONTENT_LENGTH_def)
  qed
  ultimately have "\<forall>l \<in> set ?lines. header_line l" by (simp add: header_line_def)
  moreover have "prefix (''HTTP/1.0 '' @ dec_str (status_code status) @ '' '') (hd ?lines)"
    by (cases status) (simp_all add: CRLF_def dec_str.simps digit_chars)
  ultimately show ?thesis using eq by (intro exI [of _ ?lines]) simp
qed

lemma http_response_wellformed_witness:
  "\<exists>lines. build_response_full sample_env STATUS_403 None False =
      concat (map (\<lambda>l. l @ CRLF) lines) @ CRLF"
proof -
  have l: "uint_str_law (uint_str sample_env)" by (simp add: uint_str_law_def sample_env_def)
  from http_response_wellformed [OF l, of None STATUS_403 False] show ?thesis
    by (auto simp: body_str_def)
qed

end
