(* ===== verification/Sub_Refs.thy ===== *)
theory Sub_Refs
  imports Qio_State
begin

text \<open>
  Subscriptions and their reference counts (\<open>src/sub.c\<close>, \<open>src/atomic.h\<close>), one operation at a
  time. The reference count of a subscription counts the clients that hold it, the queued
  broadcasts and the references of running code; \<open>L\<close> gives the last. The interleaving of the
  atomic steps of these operations by several threads is the subject of \<open>Sub_Threads\<close>.
\<close>

section \<open>Operations\<close>

text \<open>\<open>atomic_inc_not_zero\<close> without interference: whether it incremented, and the counter.\<close>

definition atomic_inc_not_zero :: "guint32 \<Rightarrow> bool \<times> guint32" where
  "atomic_inc_not_zero val = (if val = 0 then (False, val) else (True, val + 1))"

definition set_sub :: "sid \<Rightarrow> subscription \<Rightarrow> world \<Rightarrow> world" where
  "set_sub sub s w = w\<lparr>w_sub_heap := (w_sub_heap w)(sub \<mapsto> s)\<rparr>"

definition get_if_exists :: "string \<Rightarrow> string \<Rightarrow> world \<Rightarrow> sid option \<times> world" where
  "get_if_exists path ev_extra w =
     (case w_ev_subs w (path, ev_extra) of
        None \<Rightarrow> (None, w)
      | Some sub \<Rightarrow>
          (case w_sub_heap w sub of
             None \<Rightarrow> (None, fault w)
           | Some s \<Rightarrow>
               (case atomic_inc_not_zero (sub_refs s) of
                  (False, _) \<Rightarrow> (None, w)
                | (True, r) \<Rightarrow> (Some sub, set_sub sub (s\<lparr>sub_refs := r\<rparr>) w))))"

definition new_sub :: "event \<Rightarrow> string \<Rightarrow> world \<Rightarrow> sid \<times> world" where
  "new_sub ev ev_extra w =
     (let sub = w_next_sid w;
          s = \<lparr>sub_ev = ev, sub_ev_extra = ev_extra, sub_refs = 1\<rparr>
      in (sub, stat_inc St_subs_added (stat_inc St_subs_total
           (w\<lparr>w_sub_heap := (w_sub_heap w)(sub \<mapsto> s),
              w_next_sid := Suc sub,
              w_ev_subs := (w_ev_subs w)((ev_path ev, ev_extra) \<mapsto> sub)\<rparr>))))"

definition sub_get :: "event \<Rightarrow> string option \<Rightarrow> bool \<Rightarrow> world \<Rightarrow> sid option \<times> world" where
  "sub_get ev extra or_create w =
     (let ev_extra = (case extra of None \<Rightarrow> [] | Some x \<Rightarrow> x);
          (sub, w1) = get_if_exists (ev_path ev) ev_extra w
      in if sub = None \<and> or_create then
           (let (sub', w2) = get_if_exists (ev_path ev) ev_extra w1
            in if sub' = None then (let (n, w3) = new_sub ev ev_extra w2 in (Some n, w3))
               else (sub', w2))
         else (sub, w1))"

definition sub_ref :: "sid \<Rightarrow> world \<Rightarrow> world" where
  "sub_ref sub w =
     (case w_sub_heap w sub of
        None \<Rightarrow> fault w
      | Some s \<Rightarrow> set_sub sub (s\<lparr>sub_refs := sub_refs s + 1\<rparr>) w)"

definition sub_unref :: "sid \<Rightarrow> world \<Rightarrow> world" where
  "sub_unref sub w =
     (case w_sub_heap w sub of
        None \<Rightarrow> fault w
      | Some s \<Rightarrow>
          (let w1 = set_sub sub (s\<lparr>sub_refs := sub_refs s - 1\<rparr>) w in
           if sub_refs s - 1 \<noteq> 0 then w1
           else
             (let key = (ev_path (sub_ev s), sub_ev_extra s);
                  w2 = (if w_ev_subs w1 key = Some sub
                        then w1\<lparr>w_ev_subs := (w_ev_subs w1)(key := None)\<rparr> else w1);
                  w3 = emit (E_list_free sub) w2
              in stat_inc St_subs_removed (stat_dec St_subs_total
                   (w3\<lparr>w_sub_heap := (w_sub_heap w3)(sub := None)\<rparr>)))))"

section \<open>Who holds a reference\<close>

definition client_subs :: "world \<Rightarrow> cid \<Rightarrow> (sid \<times> client_sub) list" where
  "client_subs w c = (case c_subs (w_clients w c) of None \<Rightarrow> [] | Some l \<Rightarrow> l)"

definition client_holds :: "world \<Rightarrow> sid \<Rightarrow> cid set" where
  "client_holds w sub = {c. sub \<in> fst ` set (client_subs w c)}"

definition bcast_refs :: "world \<Rightarrow> sid \<Rightarrow> nat" where
  "bcast_refs w sub = length (filter (\<lambda>b. fst b = sub) (w_broadcasts w))"

definition held :: "world \<Rightarrow> sid \<Rightarrow> nat" where
  "held w sub = card (client_holds w sub) + bcast_refs w sub"

definition sub_key :: "subscription \<Rightarrow> string \<times> string" where
  "sub_key s = (ev_path (sub_ev s), sub_ev_extra s)"

text \<open>
  The invariant: the table of an event and the live subscriptions refer to each other, every
  reference count is the number of references there are and none is zero, and nobody refers to
  freed memory.
\<close>

definition sub_ok :: "nat \<Rightarrow> world \<Rightarrow> sid \<Rightarrow> subscription \<Rightarrow> bool" where
  "sub_ok n w sub s \<longleftrightarrow>
     w_ev_subs w (sub_key s) = Some sub \<and> sub < w_next_sid w \<and> sub_refs s \<noteq> 0 \<and>
     unat (sub_refs s) = held w sub + n"

definition tables_ok :: "world \<Rightarrow> bool" where
  "tables_ok w \<longleftrightarrow> (\<forall>c. distinct (map fst (client_subs w c)))"

definition subs_wf :: "(sid \<Rightarrow> nat) \<Rightarrow> world \<Rightarrow> bool" where
  "subs_wf L w \<longleftrightarrow>
     (\<forall>k sub. w_ev_subs w k = Some sub \<longrightarrow> (\<exists>s. w_sub_heap w sub = Some s \<and> sub_key s = k)) \<and>
     (\<forall>sub s. w_sub_heap w sub = Some s \<longrightarrow> sub_ok (L sub) w sub s) \<and>
     (\<forall>sub. w_sub_heap w sub = None \<longrightarrow> held w sub = 0 \<and> L sub = 0) \<and>
     (\<forall>sub. finite (client_holds w sub)) \<and> tables_ok w \<and> \<not> w_fault w"

lemma subs_wfI:
  assumes "\<And>k sub. w_ev_subs w k = Some sub \<Longrightarrow> \<exists>s. w_sub_heap w sub = Some s \<and> sub_key s = k"
    and "\<And>sub s. w_sub_heap w sub = Some s \<Longrightarrow> sub_ok (L sub) w sub s"
    and "\<And>sub. w_sub_heap w sub = None \<Longrightarrow> held w sub = 0 \<and> L sub = 0"
    and "\<And>sub. finite (client_holds w sub)" and "tables_ok w" and "\<not> w_fault w"
  shows "subs_wf L w"
  unfolding subs_wf_def using assms by blast

lemma subs_wfD:
  assumes "subs_wf L w"
  shows "w_ev_subs w k = Some sub \<Longrightarrow> \<exists>s. w_sub_heap w sub = Some s \<and> sub_key s = k"
    and "w_sub_heap w sub = Some s \<Longrightarrow> sub_ok (L sub) w sub s"
    and "w_sub_heap w sub = None \<Longrightarrow> held w sub = 0 \<and> L sub = 0"
    and "finite (client_holds w sub)" and "tables_ok w" and "\<not> w_fault w"
  using assms unfolding subs_wf_def by blast+

text \<open>Room for \<open>n\<close> more references in every counter: they are 32 bits wide.\<close>

definition sub_room :: "nat \<Rightarrow> world \<Rightarrow> bool" where
  "sub_room n w \<longleftrightarrow> (\<forall>sub s. w_sub_heap w sub = Some s \<longrightarrow> unat (sub_refs s) + n < 2 ^ 32)"

text \<open>What the invariant reads; operations that keep it keep the invariant.\<close>

definition subs_view where
  "subs_view w = ((\<lambda>c. c_subs (w_clients w c)), w_sub_heap w, w_ev_subs w, w_broadcasts w,
     w_next_sid w, w_fault w)"

lemma subs_view_eqD:
  assumes "subs_view v = subs_view w"
  shows "c_subs (w_clients v c) = c_subs (w_clients w c)" "w_sub_heap v = w_sub_heap w"
    "w_ev_subs v = w_ev_subs w" "w_broadcasts v = w_broadcasts w" "w_next_sid v = w_next_sid w"
    "w_fault v = w_fault w"
proof -
  from assms have e: "(\<lambda>c. c_subs (w_clients v c)) = (\<lambda>c. c_subs (w_clients w c))"
    and r: "w_sub_heap v = w_sub_heap w" "w_ev_subs v = w_ev_subs w" "w_broadcasts v = w_broadcasts w"
    "w_next_sid v = w_next_sid w" "w_fault v = w_fault w"
    by (simp_all add: subs_view_def)
  from e show "c_subs (w_clients v c) = c_subs (w_clients w c)" by (rule fun_cong)
  from r show "w_sub_heap v = w_sub_heap w" "w_ev_subs v = w_ev_subs w"
    "w_broadcasts v = w_broadcasts w" "w_next_sid v = w_next_sid w" "w_fault v = w_fault w"
    by auto
qed

lemma subs_view_wf: "subs_view v = subs_view w \<Longrightarrow> subs_wf L v = subs_wf L w"
  by (simp add: subs_wf_def sub_ok_def held_def client_holds_def client_subs_def bcast_refs_def
      tables_ok_def subs_view_eqD [of v w])

lemma subs_view_room: "subs_view v = subs_view w \<Longrightarrow> sub_room n v = sub_room n w"
  by (simp add: sub_room_def subs_view_eqD [of v w])

lemma subs_view_simps [simp]:
  "subs_view (emit e w) = subs_view w"
  "subs_view (stat_inc s w) = subs_view w"
  "subs_view (stat_dec s w) = subs_view w"
  by (simp_all add: subs_view_def)

lemma subs_view_upd_client:
  "c_subs (f (w_clients w c)) = c_subs (w_clients w c) \<Longrightarrow> subs_view (upd_client c f w) = subs_view w"
  by (auto simp: subs_view_def)

lemma subs_wf_frame [simp]:
  "subs_wf L (emit e w) = subs_wf L w"
  "subs_wf L (stat_inc s w) = subs_wf L w"
  "subs_wf L (stat_dec s w) = subs_wf L w"
  by (rule subs_view_wf, simp)+

lemma sub_room_frame [simp]:
  "sub_room n (emit e w) = sub_room n w"
  "sub_room n (stat_inc s w) = sub_room n w"
  "sub_room n (stat_dec s w) = sub_room n w"
  by (rule subs_view_room, simp)+

lemma subs_wf_init: "subs_wf (\<lambda>_. 0) init_world"
  by (simp add: subs_wf_def init_world_def held_def client_holds_def client_subs_def bcast_refs_def
      tables_ok_def qev_client_new_def)

section \<open>The operations keep the invariant\<close>

lemma held_set_sub [simp]: "held (set_sub sub s w) = held w"
  by (simp add: fun_eq_iff held_def client_holds_def client_subs_def bcast_refs_def set_sub_def)

lemma held_eq:
  "w_clients v = w_clients w \<Longrightarrow> w_broadcasts v = w_broadcasts w \<Longrightarrow>
   held v = held w \<and> client_holds v = client_holds w \<and> tables_ok v = tables_ok w"
  by (simp add: fun_eq_iff held_def client_holds_def client_subs_def bcast_refs_def tables_ok_def)

lemma set_sub_frame [simp]:
  "w_ev_subs (set_sub sub s w) = w_ev_subs w" "w_clients (set_sub sub s w) = w_clients w"
  "w_broadcasts (set_sub sub s w) = w_broadcasts w" "w_next_sid (set_sub sub s w) = w_next_sid w"
  "w_fault (set_sub sub s w) = w_fault w" "w_events (set_sub sub s w) = w_events w"
  "w_sub_heap (set_sub sub s w) = (w_sub_heap w)(sub \<mapsto> s)"
  "w_stats (set_sub sub s w) = w_stats w" "w_trace (set_sub sub s w) = w_trace w"
  "w_now (set_sub sub s w) = w_now w" "w_surrogates (set_sub sub s w) = w_surrogates w"
  by (simp_all add: set_sub_def)

lemma unat_plus_one32: "unat (r :: guint32) + 1 < 2 ^ 32 \<Longrightarrow> unat (r + 1) = unat r + 1 \<and> r + 1 \<noteq> 0"
proof -
  assume h: "unat r + 1 < 2 ^ 32"
  then have u: "unat (r + 1) = unat r + 1" by (simp add: unat_word_ariths)
  then have "r + 1 \<noteq> 0" by (metis add_is_0 unat_0 zero_neq_one)
  with u show ?thesis by simp
qed

lemma unat_minus_one32: "(r :: guint32) \<noteq> 0 \<Longrightarrow> unat (r - 1) = unat r - 1"
  by (metis unat_minus_one)

lemma subs_wf_ref:
  assumes "subs_wf L w" "w_sub_heap w sub = Some s" "unat (sub_refs s) + 1 < 2 ^ 32"
  shows "subs_wf (L(sub := Suc (L sub))) (set_sub sub (s\<lparr>sub_refs := sub_refs s + 1\<rparr>) w)"
proof -
  let ?w = "set_sub sub (s\<lparr>sub_refs := sub_refs s + 1\<rparr>) w"
  have ok: "sub_ok (L sub) w sub s" using subs_wfD(2) [OF assms(1,2)] .
  have u: "unat (sub_refs s + 1) = unat (sub_refs s) + 1" "sub_refs s + 1 \<noteq> 0"
    using unat_plus_one32 [OF assms(3)] by auto
  have fr: "held ?w = held w" "client_holds ?w = client_holds w" "tables_ok ?w = tables_ok w"
    using held_eq [of ?w w] by simp_all
  have "sub_ok ((L(sub := Suc (L sub))) t) ?w t r" if "w_sub_heap ?w t = Some r" for t r
  proof (cases "t = sub")
    case True
    with that ok u show ?thesis by (auto simp: sub_ok_def sub_key_def)
  next
    case False
    with that subs_wfD(2) [OF assms(1), of t r] show ?thesis by (simp add: sub_ok_def)
  qed
  moreover have "\<exists>s. w_sub_heap ?w t = Some s \<and> sub_key s = k" if "w_ev_subs ?w k = Some t" for k t
  proof -
    from that obtain r where "w_sub_heap w t = Some r" "sub_key r = k"
      using subs_wfD(1) [OF assms(1), of k t] by auto
    with assms(2) show ?thesis by (auto simp: sub_key_def)
  qed
  ultimately show ?thesis
    using subs_wfD(3-6) [OF assms(1)] fr by (intro subs_wfI) (simp_all split: if_splits)
qed

lemma get_if_exists_wf:
  assumes "subs_wf L w" "sub_room 1 w"
  shows "case get_if_exists p x w of
      (None, v) \<Rightarrow> v = w \<and> w_ev_subs w (p, x) = None
    | (Some sub, v) \<Rightarrow> subs_wf (L(sub := Suc (L sub))) v \<and> w_ev_subs w (p, x) = Some sub \<and>
        (\<exists>s. w_sub_heap w sub = Some s \<and> v = set_sub sub (s\<lparr>sub_refs := sub_refs s + 1\<rparr>) w)"
proof (cases "w_ev_subs w (p, x)")
  case None
  then show ?thesis by (simp add: get_if_exists_def)
next
  case (Some sub)
  then obtain s where s: "w_sub_heap w sub = Some s"
    using subs_wfD(1) [OF assms(1) Some] by auto
  then have "sub_refs s \<noteq> 0" using subs_wfD(2) [OF assms(1) s] by (simp add: sub_ok_def)
  moreover have "unat (sub_refs s) + 1 < 2 ^ 32" using assms(2) s by (simp add: sub_room_def)
  ultimately show ?thesis
    using Some s subs_wf_ref [OF assms(1) s] by (simp add: get_if_exists_def atomic_inc_not_zero_def)
qed

lemma new_sub_wf:
  assumes "subs_wf L w" "w_ev_subs w (ev_path ev, x) = None" "new_sub ev x w = (sub, v)"
  shows "subs_wf (L(sub := Suc (L sub))) v \<and> w_sub_heap w sub = None"
proof -
  let ?s = "\<lparr>sub_ev = ev, sub_ev_extra = x, sub_refs = 1\<rparr>"
  let ?v = "w\<lparr>w_sub_heap := (w_sub_heap w)(sub \<mapsto> ?s), w_next_sid := Suc sub,
     w_ev_subs := (w_ev_subs w)((ev_path ev, x) \<mapsto> sub)\<rparr>"
  have sub: "sub = w_next_sid w" and v: "v = stat_inc St_subs_added (stat_inc St_subs_total ?v)"
    using assms(3) by (auto simp: new_sub_def Let_def)
  have n: "w_sub_heap w sub = None"
    using subs_wfD(2) [OF assms(1), of sub] sub
    by (cases "w_sub_heap w sub") (auto simp: sub_ok_def)
  then have z: "held w sub = 0" "L sub = 0" using subs_wfD(3) [OF assms(1)] by auto
  have fr: "held ?v = held w" "client_holds ?v = client_holds w" "tables_ok ?v = tables_ok w"
    using held_eq [of ?v w] by simp_all
  have "sub_ok ((L(sub := Suc (L sub))) t) ?v t r" if r: "w_sub_heap ?v t = Some r" for t r
  proof (cases "t = sub")
    case True
    with r z fr show ?thesis by (auto simp: sub_ok_def sub_key_def)
  next
    case False
    with r have "sub_ok (L t) w t r" using subs_wfD(2) [OF assms(1), of t r] by simp
    with False assms(2) fr sub show ?thesis by (auto simp: sub_ok_def)
  qed
  moreover have "\<exists>s. w_sub_heap ?v t = Some s \<and> sub_key s = k" if k: "w_ev_subs ?v k = Some t" for k t
  proof (cases "k = (ev_path ev, x)")
    case True
    with k show ?thesis by (simp add: sub_key_def)
  next
    case False
    with k obtain r where "w_sub_heap w t = Some r" "sub_key r = k"
      using subs_wfD(1) [OF assms(1), of k t] by auto
    with n show ?thesis by auto
  qed
  ultimately have "subs_wf (L(sub := Suc (L sub))) ?v"
    using subs_wfD(3-6) [OF assms(1)] fr by (intro subs_wfI) (simp_all split: if_splits)
  with v n show ?thesis by simp
qed

lemma sub_get_wf:
  assumes "subs_wf L w" "sub_room 1 w"
  shows "case sub_get ev x or_create w of
      (None, v) \<Rightarrow> v = w \<and> \<not> or_create \<and> w_ev_subs w (ev_path ev, case x of None \<Rightarrow> [] | Some x \<Rightarrow> x) = None
    | (Some sub, v) \<Rightarrow> subs_wf (L(sub := Suc (L sub))) v"
proof -
  let ?x = "case x of None \<Rightarrow> [] | Some x \<Rightarrow> x"
  have g: "case get_if_exists (ev_path ev) ?x w of
      (None, v) \<Rightarrow> v = w \<and> w_ev_subs w (ev_path ev, ?x) = None
    | (Some sub, v) \<Rightarrow> subs_wf (L(sub := Suc (L sub))) v \<and> w_ev_subs w (ev_path ev, ?x) = Some sub \<and>
        (\<exists>s. w_sub_heap w sub = Some s \<and> v = set_sub sub (s\<lparr>sub_refs := sub_refs s + 1\<rparr>) w)"
    by (rule get_if_exists_wf [OF assms])
  show ?thesis
  proof (cases "get_if_exists (ev_path ev) ?x w")
    case (Pair r v)
    show ?thesis
    proof (cases r)
      case None
      with Pair g have v: "v = w" "w_ev_subs w (ev_path ev, ?x) = None" by simp_all
      obtain n u where nu: "new_sub ev ?x w = (n, u)" by (cases "new_sub ev ?x w")
      with new_sub_wf [OF assms(1) v(2) nu] Pair None v show ?thesis
        by (simp add: sub_get_def Let_def)
    next
      case (Some sub)
      with Pair g show ?thesis by (simp add: sub_get_def Let_def)
    qed
  qed
qed

lemma sub_ref_wf:
  assumes "subs_wf L w" "sub_room 1 w" "w_sub_heap w sub \<noteq> None"
  shows "subs_wf (L(sub := Suc (L sub))) (sub_ref sub w)"
  using assms subs_wf_ref [OF assms(1)] by (auto simp: sub_ref_def sub_room_def)

lemma sub_unref_wf:
  assumes "subs_wf L w" "L sub \<noteq> 0"
  shows "subs_wf (L(sub := L sub - 1)) (sub_unref sub w)"
proof -
  obtain s where s: "w_sub_heap w sub = Some s"
    using assms(2) subs_wfD(3) [OF assms(1), of sub] by (cases "w_sub_heap w sub") auto
  then have ok: "sub_ok (L sub) w sub s" by (rule subs_wfD(2) [OF assms(1)])
  let ?v = "set_sub sub (s\<lparr>sub_refs := sub_refs s - 1\<rparr>) w"
  have u: "unat (sub_refs s - 1) = held w sub + (L sub - 1)"
    using ok assms(2) unat_minus_one32 [of "sub_refs s"] by (simp add: sub_ok_def)
  show ?thesis
  proof (cases "sub_refs s - 1 = 0")
    case False
    then have r: "sub_unref sub w = ?v" using s by (simp add: sub_unref_def Let_def)
    have fr: "held ?v = held w" "client_holds ?v = client_holds w" "tables_ok ?v = tables_ok w"
      using held_eq [of ?v w] by simp_all
    have "sub_ok ((L(sub := L sub - 1)) t) ?v t r" if "w_sub_heap ?v t = Some r" for t r
    proof (cases "t = sub")
      case True
      with that ok u False show ?thesis by (auto simp: sub_ok_def sub_key_def)
    next
      case False
      with that subs_wfD(2) [OF assms(1), of t r] show ?thesis by (simp add: sub_ok_def)
    qed
    moreover have "\<exists>s. w_sub_heap ?v t = Some s \<and> sub_key s = k" if "w_ev_subs ?v k = Some t" for k t
    proof -
      from that obtain r where "w_sub_heap w t = Some r" "sub_key r = k"
        using subs_wfD(1) [OF assms(1), of k t] by auto
      with s show ?thesis by (auto simp: sub_key_def)
    qed
    ultimately show ?thesis
      using subs_wfD(3-6) [OF assms(1)] fr r by (simp only:, intro subs_wfI) (simp_all split: if_splits)
  next
    case True
    with u have z: "held w sub = 0" "L sub = 1" using assms(2) by simp_all
    let ?u = "w\<lparr>w_ev_subs := (w_ev_subs w)(sub_key s := None),
       w_sub_heap := (w_sub_heap w)(sub := None)\<rparr>"
    have "w_ev_subs w (sub_key s) = Some sub" using ok by (simp add: sub_ok_def)
    then have "subs_view (sub_unref sub w) = subs_view ?u"
      using s True by (auto simp: sub_unref_def Let_def sub_key_def subs_view_def fun_eq_iff)
    then have r: "subs_wf (L(sub := 0)) (sub_unref sub w) = subs_wf (L(sub := 0)) ?u"
      by (rule subs_view_wf)
    have fr: "held ?u = held w" "client_holds ?u = client_holds w" "tables_ok ?u = tables_ok w"
      using held_eq [of ?u w] by simp_all
    have inj: "sub_key r \<noteq> sub_key s" if "w_sub_heap w t = Some r" "t \<noteq> sub" for t r
    proof -
      from that(1) have "w_ev_subs w (sub_key r) = Some t"
        using subs_wfD(2) [OF assms(1), of t r] by (simp add: sub_ok_def)
      with \<open>w_ev_subs w (sub_key s) = Some sub\<close> that(2) show ?thesis by auto
    qed
    have "sub_ok ((L(sub := 0)) t) ?u t r" if r: "w_sub_heap ?u t = Some r" for t r
    proof -
      from r have t: "t \<noteq> sub" "w_sub_heap w t = Some r" by (auto split: if_splits)
      with inj [OF t(2,1)] subs_wfD(2) [OF assms(1) t(2)] fr show ?thesis by (simp add: sub_ok_def)
    qed
    moreover have "\<exists>s. w_sub_heap ?u t = Some s \<and> sub_key s = k" if k: "w_ev_subs ?u k = Some t" for k t
    proof -
      from k have "w_ev_subs w k = Some t" "k \<noteq> sub_key s" by (auto split: if_splits)
      then obtain r where "w_sub_heap w t = Some r" "sub_key r = k"
        using subs_wfD(1) [OF assms(1), of k t] by auto
      with \<open>k \<noteq> sub_key s\<close> s show ?thesis by auto
    qed
    ultimately have "subs_wf (L(sub := 0)) ?u"
      using subs_wfD(3-6) [OF assms(1)] fr z by (intro subs_wfI) (simp_all split: if_splits)
    with r z show ?thesis by simp
  qed
qed

section \<open>What the operations leave alone\<close>

lemma get_if_exists_frame [frame_simps]:
  "w_clients (snd (get_if_exists p x w)) = w_clients w"
  "w_events (snd (get_if_exists p x w)) = w_events w"
  "w_broadcasts (snd (get_if_exists p x w)) = w_broadcasts w"
  "w_trace (snd (get_if_exists p x w)) = w_trace w"
  "w_now (snd (get_if_exists p x w)) = w_now w" "w_surrogates (snd (get_if_exists p x w)) = w_surrogates w"
  by (simp_all add: get_if_exists_def split: option.split prod.split bool.split)

lemma sub_get_frame [frame_simps]:
  "w_clients (snd (sub_get ev x cr w)) = w_clients w"
  "w_events (snd (sub_get ev x cr w)) = w_events w"
  "w_broadcasts (snd (sub_get ev x cr w)) = w_broadcasts w"
  "w_trace (snd (sub_get ev x cr w)) = w_trace w"
  "w_now (snd (sub_get ev x cr w)) = w_now w" "w_surrogates (snd (sub_get ev x cr w)) = w_surrogates w"
  using get_if_exists_frame [of "ev_path ev" "case x of None \<Rightarrow> [] | Some x \<Rightarrow> x"]
  by (simp_all add: sub_get_def new_sub_def Let_def split: prod.split) (metis snd_conv)+

lemma sub_ref_frame [frame_simps]:
  "w_clients (sub_ref sub w) = w_clients w" "w_events (sub_ref sub w) = w_events w"
  "w_broadcasts (sub_ref sub w) = w_broadcasts w" "w_trace (sub_ref sub w) = w_trace w"
  "w_ev_subs (sub_ref sub w) = w_ev_subs w" "w_now (sub_ref sub w) = w_now w"
  "w_surrogates (sub_ref sub w) = w_surrogates w"
  by (simp_all add: sub_ref_def split: option.split)

lemma sub_unref_frame [frame_simps]:
  "w_clients (sub_unref sub w) = w_clients w" "w_events (sub_unref sub w) = w_events w"
  "w_broadcasts (sub_unref sub w) = w_broadcasts w" "w_now (sub_unref sub w) = w_now w"
  "w_surrogates (sub_unref sub w) = w_surrogates w"
  by (simp_all add: sub_unref_def Let_def split: option.split)

lemma sub_unref_upd_client: "sub_unref sub (upd_client c f w) = upd_client c f (sub_unref sub w)"
  by (simp add: sub_unref_def upd_client_def Let_def set_sub_def fault_def emit_def stat_inc_def
      stat_dec_def split: option.split)

section \<open>The interface of a counted reference\<close>

text \<open>
  What the clients of \<open>sub.c\<close> rely on: a successful \<open>get\<close> gives the caller one reference, a
  failed one changes nothing, and \<open>release\<close> gives one reference back.
\<close>

locale ref_counted =
  fixes inv :: "('i \<Rightarrow> nat) \<Rightarrow> 's \<Rightarrow> bool"
    and room :: "'s \<Rightarrow> bool"
    and acquire :: "'k \<Rightarrow> 's \<Rightarrow> 'i option \<times> 's"
    and release :: "'i \<Rightarrow> 's \<Rightarrow> 's"
  assumes acquire_some: "inv L s \<Longrightarrow> room s \<Longrightarrow> acquire k s = (Some i, t) \<Longrightarrow> inv (L(i := Suc (L i))) t"
    and acquire_none: "inv L s \<Longrightarrow> room s \<Longrightarrow> acquire k s = (None, t) \<Longrightarrow> t = s"
    and release: "inv L s \<Longrightarrow> L i \<noteq> 0 \<Longrightarrow> inv (L(i := L i - 1)) (release i s)"
begin

lemma release_own: "inv (L(i := Suc (L i))) s \<Longrightarrow> inv L (release i s)"
  using release [of "L(i := Suc (L i))" s i] by simp

text \<open>A reference taken around a body that keeps the invariant, as most callers use it.\<close>

lemma bracket:
  assumes "inv L s" "room s" "acquire k s = (Some i, t)"
    and "\<And>M. inv M t \<Longrightarrow> inv M (body t)"
  shows "inv L (release i (body t))"
  using acquire_some [OF assms(1-3)] assms(4) release_own by blast

lemma acquire_release:
  assumes "inv L s" "room s" "acquire k s = (Some i, t)"
  shows "inv L (release i t)"
  using bracket [OF assms, of id] by simp

end

definition sub_acquire :: "event \<times> string option \<times> bool \<Rightarrow> world \<Rightarrow> sid option \<times> world" where
  "sub_acquire k w = (case k of (ev, x, cr) \<Rightarrow> sub_get ev x cr w)"

interpretation sub: ref_counted subs_wf "sub_room 1" sub_acquire sub_unref
proof (unfold_locales, goal_cases)
  case (1 L s k i t)
  obtain e x cr where "k = (e, x, cr)" by (cases k)
  with 1 sub_get_wf [OF 1(1,2), where ev = e and x = x and or_create = cr] show ?case by (simp add: sub_acquire_def)
next
  case (2 L s k t)
  obtain e x cr where "k = (e, x, cr)" by (cases k)
  with 2 sub_get_wf [OF 2(1,2), where ev = e and x = x and or_create = cr] show ?case by (simp add: sub_acquire_def)
next
  case (3 L s i)
  then show ?case by (rule sub_unref_wf)
qed

lemma sub_get_Some_wf:
  "subs_wf L w \<Longrightarrow> sub_room 1 w \<Longrightarrow> sub_get ev x cr w = (Some sub, v) \<Longrightarrow>
   subs_wf (L(sub := Suc (L sub))) v"
  using sub.acquire_some [of L w "(ev, x, cr)"] by (simp add: sub_acquire_def)

lemma sub_get_None_same:
  "subs_wf L w \<Longrightarrow> sub_room 1 w \<Longrightarrow> sub_get ev x cr w = (None, v) \<Longrightarrow> v = w"
  using sub.acquire_none [of L w "(ev, x, cr)"] by (simp add: sub_acquire_def)

section \<open>The lists of subscribers\<close>

text \<open>
  \<open>sub->subscribers\<close> is quick-event's. How often a client is in it follows from the calls made:
  successful additions minus removals (a removal with the index of a client that was never
  added does nothing).
\<close>

definition list_step :: "effect \<Rightarrow> (sid \<times> cid \<Rightarrow> nat) \<Rightarrow> sid \<times> cid \<Rightarrow> nat" where
  "list_step e l =
     (case e of
        E_list_add sub c ok \<Rightarrow> if ok then l((sub, c) := Suc (l (sub, c))) else l
      | E_list_remove sub c \<Rightarrow> l((sub, c) := l (sub, c) - 1)
      | _ \<Rightarrow> l)"

definition listed :: "effect list \<Rightarrow> sid \<times> cid \<Rightarrow> nat" where
  "listed tr = fold list_step tr (\<lambda>_. 0)"

lemma listed_Nil [simp]: "listed [] = (\<lambda>_. 0)"
  by (simp add: listed_def)

lemma listed_snoc [simp]: "listed (tr @ [e]) = list_step e (listed tr)"
  by (simp add: listed_def)

section \<open>Properties\<close>

definition extra_or_empty :: "string option \<Rightarrow> string" where
  "extra_or_empty x = (case x of None \<Rightarrow> [] | Some s \<Rightarrow> s)"

lemma new_sub_fields:
  assumes "new_sub ev x w = (sub, v)"
  shows "sub = w_next_sid w" "w_ev_subs v = (w_ev_subs w)((ev_path ev, x) \<mapsto> sub)"
    "w_sub_heap v sub = Some \<lparr>sub_ev = ev, sub_ev_extra = x, sub_refs = 1\<rparr>"
    "w_sub_heap v = (w_sub_heap w)(sub \<mapsto> \<lparr>sub_ev = ev, sub_ev_extra = x, sub_refs = 1\<rparr>)"
  using assms by (auto simp: new_sub_def Let_def)

lemma sub_get_creates:
  assumes "subs_wf L w" "sub_room 1 w" "sub_get ev x True w = (r, v)"
  shows "\<exists>sub s. r = Some sub \<and> w_ev_subs v (ev_path ev, extra_or_empty x) = Some sub \<and>
    w_sub_heap v sub = Some s \<and> subs_wf (L(sub := Suc (L sub))) v \<and>
    (case w_ev_subs w (ev_path ev, extra_or_empty x) of
       Some old \<Rightarrow> sub = old \<and> unat (sub_refs s) = held w sub + L sub + 1
     | None \<Rightarrow> w_sub_heap w sub = None \<and> sub_refs s = 1 \<and> sub_ev s = ev)"
proof -
  let ?x = "extra_or_empty x"
  have x: "(case x of None \<Rightarrow> [] | Some x \<Rightarrow> x) = ?x" by (simp add: extra_or_empty_def)
  note g = get_if_exists_wf [OF assms(1,2), of "ev_path ev" ?x]
  show ?thesis
  proof (cases "get_if_exists (ev_path ev) ?x w")
    case (Pair q u)
    show ?thesis
    proof (cases q)
      case None
      with Pair g have u: "u = w" "w_ev_subs w (ev_path ev, ?x) = None" by simp_all
      obtain n t where nt: "new_sub ev ?x w = (n, t)" by (cases "new_sub ev ?x w")
      with Pair None u assms(3) have rv: "r = Some n" "v = t" by (auto simp: sub_get_def x Let_def)
      note nf = new_sub_fields [OF nt]
      from new_sub_wf [OF assms(1) u(2) nt] nf rv u(2) show ?thesis by simp
    next
      case (Some sub)
      with Pair g obtain s where s: "subs_wf (L(sub := Suc (L sub))) u" "w_ev_subs w (ev_path ev, ?x) = Some sub"
          "w_sub_heap w sub = Some s" "u = set_sub sub (s\<lparr>sub_refs := sub_refs s + 1\<rparr>) w" by auto
      from Pair Some assms(3) have rv: "r = Some sub" "v = u" by (auto simp: sub_get_def x Let_def)
      have "unat (sub_refs s) = held w sub + L sub"
        using subs_wfD(2) [OF assms(1) s(3)] by (simp add: sub_ok_def)
      moreover have "unat (sub_refs s + 1) = unat (sub_refs s) + 1"
        using assms(2) s(3) unat_plus_one32 [of "sub_refs s"] by (simp add: sub_room_def)
      ultimately show ?thesis using s rv by simp
    qed
  qed
qed

text \<open>
  \<open>sub_get\<close> with \<open>or_create\<close> always gives a subscription, the one that the table of the event
  holds for these extra segments: the existing one if there is one, else a new one that
  only the caller refers to. In both cases exactly one reference is handed to the caller, and
  tables, memory and counters stay consistent.
\<close>

theorem sub_get_or_create:
  assumes "subs_wf L w" "sub_room 1 w" "sub_get ev x True w = (r, v)"
  shows "\<exists>sub s. r = Some sub \<and> w_ev_subs v (ev_path ev, extra_or_empty x) = Some sub \<and>
    w_sub_heap v sub = Some s \<and> subs_wf (L(sub := Suc (L sub))) v \<and>
    (case w_ev_subs w (ev_path ev, extra_or_empty x) of
       Some old \<Rightarrow> sub = old \<and> unat (sub_refs s) = held w sub + L sub + 1
     | None \<Rightarrow> w_sub_heap w sub = None \<and> sub_refs s = 1 \<and> sub_ev s = ev)"
  by (rule sub_get_creates [OF assms])

lemma sub_get_or_create_witness:
  "\<exists>sub. fst (sub_get (sample_event ''/e'' True) (Some ''/x'') True init_world) = Some sub"
proof -
  have r: "sub_room 1 init_world" by (simp add: sub_room_def init_world_def)
  from sub_get_or_create [OF subs_wf_init r, of "sample_event ''/e'' True" "Some ''/x''"
      "fst (sub_get (sample_event ''/e'' True) (Some ''/x'') True init_world)"
      "snd (sub_get (sample_event ''/e'' True) (Some ''/x'') True init_world)"]
  show ?thesis by auto
qed

text \<open>
  Giving a reference back frees the subscription exactly when it was the last one: then the memory and
  the entry in the table of the event go together, and until then both stay. No count ever
  wraps below zero, and nothing is touched after it was freed.
\<close>

theorem sub_unref_frees_last:
  assumes "subs_wf L w" "L sub \<noteq> 0"
  shows "subs_wf (L(sub := L sub - 1)) (sub_unref sub w) \<and>
    (\<exists>s. w_sub_heap w sub = Some s \<and> w_ev_subs w (sub_key s) = Some sub \<and>
      (if held w sub + L sub = 1
       then w_sub_heap (sub_unref sub w) = (w_sub_heap w)(sub := None) \<and>
            w_ev_subs (sub_unref sub w) = (w_ev_subs w)(sub_key s := None)
       else w_sub_heap (sub_unref sub w) = (w_sub_heap w)(sub \<mapsto> s\<lparr>sub_refs := sub_refs s - 1\<rparr>) \<and>
            w_ev_subs (sub_unref sub w) = w_ev_subs w))"
proof -
  obtain s where s: "w_sub_heap w sub = Some s"
    using assms(2) subs_wfD(3) [OF assms(1), of sub] by (cases "w_sub_heap w sub") auto
  then have ok: "sub_ok (L sub) w sub s" by (rule subs_wfD(2) [OF assms(1)])
  then have u: "unat (sub_refs s - 1) = held w sub + L sub - 1"
    using unat_minus_one32 [of "sub_refs s"] by (simp add: sub_ok_def)
  have z: "sub_refs s - 1 = 0 \<longleftrightarrow> held w sub + L sub = 1"
    using u assms(2) by (simp add: unat_eq_0 [symmetric]) linarith
  have k: "w_ev_subs w (sub_key s) = Some sub" using ok by (simp add: sub_ok_def)
  show ?thesis
    using sub_unref_wf [OF assms] s k z
    by (auto simp: sub_unref_def Let_def sub_key_def fun_eq_iff)
qed

lemma sub_unref_frees_last_witness:
  "w_sub_heap (sub_unref 0 (snd (sub_get (sample_event ''/e'' True) None True init_world))) 0 = None"
proof -
  let ?v = "snd (sub_get (sample_event ''/e'' True) None True init_world)"
  have r: "sub_room 1 init_world" by (simp add: sub_room_def init_world_def)
  have f: "sub_get (sample_event ''/e'' True) None True init_world = (Some 0, ?v)"
    by (simp add: sub_get_def get_if_exists_def new_sub_def init_world_def Let_def)
  have h: "held ?v 0 = 0"
    by (simp add: sub_get_def get_if_exists_def new_sub_def init_world_def Let_def held_def
        client_holds_def client_subs_def bcast_refs_def qev_client_new_def)
  from sub_unref_frees_last [OF sub_get_Some_wf [OF subs_wf_init r f], of 0] show ?thesis
    by (auto simp: h)
qed

end
