(* ===== verification/Client_Cb.thy ===== *)
theory Client_Cb
  imports Sub_Refs "HOL-Library.Multiset"
begin

text \<open>
  The server callbacks of a client (\<open>src/client.c\<close>: \<open>_cb_data_free\<close>, \<open>_cb_remove\<close>, \<open>_cb_free\<close>,
  \<open>client_cb_new\<close>, \<open>client_cb_prune\<close>, \<open>client_free_all\<close>): four slots, each with a 16-bit
  id. What the client gets is the slot above the id. \<open>client_cb_fire\<close> answers through
  \<open>evs.c\<close> and is in \<open>Evs_Subs\<close>.
\<close>

section \<open>Operations\<close>

definition cb_data_free :: "data_ptr option \<Rightarrow> free_ptr option \<Rightarrow> world \<Rightarrow> world" where
  "cb_data_free data free_fn w =
     (case (data, free_fn) of (Some d, Some f) \<Rightarrow> emit (E_free_data f d) w | _ \<Rightarrow> w)"

definition cb_remove :: "cid \<Rightarrow> nat \<Rightarrow> world \<Rightarrow> world" where
  "cb_remove c i w =
     stat_dec St_callbacks_total (upd_client c (\<lambda>cl. cl\<lparr>c_cbs := (c_cbs cl)[i := None]\<rparr>) w)"

definition cb_free :: "cid \<Rightarrow> nat \<Rightarrow> world \<Rightarrow> world" where
  "cb_free c i w =
     (case c_cbs (w_clients w c) ! i of
        None \<Rightarrow> fault w
      | Some cb \<Rightarrow> cb_remove c i (cb_data_free (cb_data cb) (cb_free_fn cb) w))"

text \<open>The index of the first empty slot, or the number of slots.\<close>

fun free_slot :: "client_cb option list \<Rightarrow> nat" where
  "free_slot [] = 0"
| "free_slot (None # cbs) = 0"
| "free_slot (Some cb # cbs) = Suc (free_slot cbs)"

text \<open>\<open>client->cbs_id++; client->cbs_id = MAX(1, client->cbs_id)\<close>\<close>

definition next_cb_id :: "guint16 \<Rightarrow> guint16" where
  "next_cb_id i = max 1 (i + 1)"

definition cb_handle :: "nat \<Rightarrow> guint16 \<Rightarrow> guint64" where
  "cb_handle i n = push_bit 16 (word_of_nat i) OR ucast n"

definition EVS_NO_CALLBACK :: guint64 where
  "EVS_NO_CALLBACK = 0"

definition client_cb_new ::
  "env \<Rightarrow> cid option \<Rightarrow> cb_ptr option \<Rightarrow> data_ptr option \<Rightarrow> free_ptr option \<Rightarrow> world \<Rightarrow> guint64 \<times> world" where
  "client_cb_new E client fn data free_fn w =
     (case fn of
        None \<Rightarrow> (EVS_NO_CALLBACK, cb_data_free data free_fn w)
      | Some f \<Rightarrow>
          (case client of
             None \<Rightarrow> (EVS_NO_CALLBACK, fault w)
           | Some c \<Rightarrow>
               (let i0 = free_slot (c_cbs (w_clients w c));
                    (i, w1) =
                      (if i0 = length (c_cbs (w_clients w c)) then
                         (let r = random_slot E (w_trace w)
                          in (r, stat_inc St_callbacks_evicted (cb_free c r (emit (E_random r) w))))
                       else (i0, w));
                    n = next_cb_id (c_cbs_id (w_clients w1 c));
                    cb = \<lparr>cb_id = n, cb_fn = f, cb_data = data, cb_free_fn = free_fn,
                          cb_created = w_now w1\<rparr>;
                    w2 = upd_client c (\<lambda>cl. cl\<lparr>c_cbs_id := n, c_cbs := (c_cbs cl)[i := Some cb]\<rparr>) w1
                in (cb_handle i n,
                    stat_inc St_callbacks_created (stat_inc St_callbacks_total w2)))))"

text \<open>One round of the loop of \<open>client_cb_prune\<close>, and the loop.\<close>

definition cb_prune_slot :: "cid \<Rightarrow> int \<Rightarrow> nat \<Rightarrow> world \<Rightarrow> world" where
  "cb_prune_slot c before i w =
     (case c_cbs (w_clients w c) ! i of
        None \<Rightarrow> w
      | Some cb \<Rightarrow> if cb_created cb < before then cb_free c i w else w)"

definition client_cb_prune :: "cid \<Rightarrow> int \<Rightarrow> world \<Rightarrow> world" where
  "client_cb_prune c before w = fold (cb_prune_slot c before) [0..<n_cbs] w"

text \<open>\<open>QEV_SEC_TO_USEC\<close> of the configured age, in the unsigned arithmetic of the code.\<close>

definition client_cb_prune_get_before :: "env \<Rightarrow> world \<Rightarrow> int" where
  "client_cb_prune_get_before E w = w_now w - uint (cfg_clients_cb_max_age E * 1000000)"

definition cb_free_slot :: "cid \<Rightarrow> nat \<Rightarrow> world \<Rightarrow> world" where
  "cb_free_slot c i w = (case c_cbs (w_clients w c) ! i of None \<Rightarrow> w | Some _ \<Rightarrow> cb_free c i w)"

definition client_free_all :: "cid \<Rightarrow> world \<Rightarrow> world" where
  "client_free_all c w =
     (let w1 = fold (cb_free_slot c) [0..<n_cbs] w
      in if c_data (w_clients w1 c) \<noteq> None then upd_client c (\<lambda>cl. cl\<lparr>c_data := None\<rparr>) w1 else w1)"

section \<open>The slots of a client\<close>

definition slots :: "world \<Rightarrow> cid \<Rightarrow> client_cb option list" where
  "slots w c = c_cbs (w_clients w c)"

definition cbs_wf :: "client \<Rightarrow> bool" where
  "cbs_wf cl \<longleftrightarrow> length (c_cbs cl) = n_cbs \<and> (\<forall>cb. Some cb \<in> set (c_cbs cl) \<longrightarrow> cb_id cb \<noteq> 0)"

definition occupied :: "client_cb option list \<Rightarrow> int" where
  "occupied cbs = int (length (filter (\<lambda>s. s \<noteq> None) cbs))"

definition random_law :: "env \<Rightarrow> bool" where
  "random_law E \<longleftrightarrow> (\<forall>tr. random_slot E tr < n_cbs)"

lemma cbs_wf_new [simp]: "cbs_wf qev_client_new"
  by (simp add: cbs_wf_def qev_client_new_def)

lemma free_slot_le: "free_slot cbs \<le> length cbs"
  by (induction cbs rule: free_slot.induct) auto

lemma free_slot_empty: "free_slot cbs < length cbs \<Longrightarrow> cbs ! free_slot cbs = None"
  by (induction cbs rule: free_slot.induct) auto

lemma free_slot_full: "free_slot cbs = length cbs \<Longrightarrow> i < length cbs \<Longrightarrow> cbs ! i \<noteq> None"
proof (induction cbs arbitrary: i rule: free_slot.induct)
  case (3 cb cbs)
  then show ?case by (cases i) auto
qed auto

lemma occupied_Cons: "occupied (x # cbs) = (if x = None then 0 else 1) + occupied cbs"
  by (simp add: occupied_def)

lemma occupied_update:
  "i < length cbs \<Longrightarrow>
   occupied (cbs[i := x]) = occupied cbs - (if cbs ! i = None then 0 else 1) + (if x = None then 0 else 1)"
proof (induction cbs arbitrary: i)
  case Nil
  then show ?case by simp
next
  case (Cons a cbs)
  then show ?case by (cases i) (simp_all add: occupied_Cons)
qed

text \<open>The ids cycle through \<open>1 .. 65535\<close>.\<close>

lemma unat_u16_less: "unat (i :: guint16) < 65536"
  using unsigned_less [of i, where 'a = nat] by simp

lemma unat_next_cb_id: "unat (next_cb_id i) = unat i mod 65535 + 1"
proof (cases "unat i = 65535")
  case True
  then have "unat (i + 1) = 0" by (simp add: unat_word_ariths)
  then have "i + 1 = 0" by (simp only: unat_eq_0)
  with True show ?thesis by (simp add: next_cb_id_def)
next
  case False
  with unat_u16_less [of i] have l: "unat i < 65535" by simp
  then have "unat (i + 1) = unat i + 1" by (simp add: unat_word_ariths)
  then have "max 1 (i + 1) = i + 1" by (simp add: max_def word_le_nat_alt)
  with l \<open>unat (i + 1) = unat i + 1\<close> show ?thesis by (simp add: next_cb_id_def)
qed

lemma next_cb_id_nonzero: "next_cb_id i \<noteq> 0"
  using unat_next_cb_id [of i] by (metis Suc_eq_plus1 nat.simps(3) unat_0)

lemma unat_next_cb_id_iter:
  "i \<noteq> 0 \<Longrightarrow> unat ((next_cb_id ^^ k) i) = (unat i - 1 + k) mod 65535 + 1"
proof (induction k)
  case 0
  from 0 have "unat i \<noteq> 0" by (simp add: unat_eq_0)
  with unat_u16_less [of i] show ?case by simp
next
  case (Suc k)
  then show ?case by (simp add: unat_next_cb_id mod_Suc_eq)
qed

section \<open>The handle of a callback\<close>

definition handle_slot :: "guint64 \<Rightarrow> guint16" where
  "handle_slot server_cb = ucast (drop_bit 16 server_cb)"

definition handle_id :: "guint64 \<Rightarrow> guint16" where
  "handle_id server_cb = ucast (server_cb AND 0xffff)"

lemma and_ffff: "(x :: guint64) AND 0xffff = take_bit 16 x"
proof -
  have "(0xffff :: guint64) = mask 16" by (simp add: mask_eq_exp_minus_1)
  then show ?thesis by (simp add: take_bit_eq_mask)
qed

lemma handle_id_cb_handle: "handle_id (cb_handle i n) = n"
  by (rule bit_word_eqI) (simp add: handle_id_def and_ffff cb_handle_def bit_simps)

lemma handle_slot_cb_handle:
  assumes "i < 65536"
  shows "handle_slot (cb_handle i n) = word_of_nat i"
proof (rule bit_word_eqI)
  fix k
  assume "k < LENGTH(16)"
  moreover have "\<not> bit n (16 + k)" by (auto dest: bit_imp_le_length)
  ultimately show "bit (handle_slot (cb_handle i n)) k = bit (word_of_nat i :: guint16) k"
    by (simp add: handle_slot_def cb_handle_def bit_simps)
qed

lemma cb_handle_nonzero: "n \<noteq> 0 \<Longrightarrow> cb_handle i n \<noteq> EVS_NO_CALLBACK"
  using handle_id_cb_handle [of i n] by (auto simp: EVS_NO_CALLBACK_def handle_id_def)

section \<open>Who owns the data of a callback\<close>

text \<open>
  The data of a callback is handed over (\<open>transfer-full\<close>): from then on it is either in a slot
  or was given to its free function, once. \<open>custody\<close> counts both.
\<close>

definition data_of :: "data_ptr option \<Rightarrow> free_ptr option \<Rightarrow> (free_ptr \<times> data_ptr) multiset" where
  "data_of data free_fn = (case (data, free_fn) of (Some d, Some f) \<Rightarrow> {#(f, d)#} | _ \<Rightarrow> {#})"

definition slot_data :: "client_cb option \<Rightarrow> (free_ptr \<times> data_ptr) multiset" where
  "slot_data s = (case s of None \<Rightarrow> {#} | Some cb \<Rightarrow> data_of (cb_data cb) (cb_free_fn cb))"

definition stored_data :: "client_cb option list \<Rightarrow> (free_ptr \<times> data_ptr) multiset" where
  "stored_data cbs = sum_list (map slot_data cbs)"

definition effect_data :: "effect \<Rightarrow> (free_ptr \<times> data_ptr) multiset" where
  "effect_data e = (case e of E_free_data f d \<Rightarrow> {#(f, d)#} | _ \<Rightarrow> {#})"

definition freed_data :: "effect list \<Rightarrow> (free_ptr \<times> data_ptr) multiset" where
  "freed_data tr = sum_list (map effect_data tr)"

definition custody :: "cid \<Rightarrow> world \<Rightarrow> (free_ptr \<times> data_ptr) multiset" where
  "custody c w = stored_data (slots w c) + freed_data (w_trace w)"

lemma freed_data_append [simp]: "freed_data (a @ b) = freed_data a + freed_data b"
  by (simp add: freed_data_def)

lemma freed_data_simps [simp]:
  "freed_data [] = {#}" "freed_data [E_free_data f d] = {#(f, d)#}" "freed_data [E_random n] = {#}"
  by (simp_all add: freed_data_def effect_data_def)

lemma stored_data_update:
  "i < length cbs \<Longrightarrow> stored_data (cbs[i := x]) + slot_data (cbs ! i) = stored_data cbs + slot_data x"
proof (induction cbs arbitrary: i)
  case Nil
  then show ?case by simp
next
  case (Cons a cbs)
  show ?case
  proof (cases i)
    case 0
    then show ?thesis by (simp add: stored_data_def ac_simps)
  next
    case (Suc j)
    with Cons have "stored_data (cbs[j := x]) + slot_data (cbs ! j) = stored_data cbs + slot_data x"
      by simp
    with Suc show ?thesis by (simp add: stored_data_def ac_simps)
  qed
qed

lemma cb_data_free_frame [simp]:
  "w_clients (cb_data_free d f w) = w_clients w" "w_stats (cb_data_free d f w) = w_stats w"
  "w_now (cb_data_free d f w) = w_now w" "w_fault (cb_data_free d f w) = w_fault w"
  "subs_view (cb_data_free d f w) = subs_view w" "w_events (cb_data_free d f w) = w_events w"
  by (simp_all add: cb_data_free_def split: option.split)

lemma freed_cb_data_free [simp]:
  "freed_data (w_trace (cb_data_free d f w)) = freed_data (w_trace w) + data_of d f"
  by (simp add: cb_data_free_def data_of_def split: option.split)

section \<open>What the operations do to the slots\<close>

lemma cb_free_props:
  assumes "i < length (slots w c)" "slots w c ! i = Some cb"
  shows "w_clients (cb_free c i w) =
      (w_clients w)(c := (w_clients w c)\<lparr>c_cbs := (slots w c)[i := None]\<rparr>)"
    and "w_fault (cb_free c i w) = w_fault w" "w_now (cb_free c i w) = w_now w"
    and "w_stats (cb_free c i w) =
      (w_stats w)(St_callbacks_total := w_stats w St_callbacks_total - 1)"
    and "subs_view (cb_free c i w) = subs_view w"
    and "custody c (cb_free c i w) = custody c w"
proof -
  show w: "w_clients (cb_free c i w) =
      (w_clients w)(c := (w_clients w c)\<lparr>c_cbs := (slots w c)[i := None]\<rparr>)"
    and "w_fault (cb_free c i w) = w_fault w" "w_now (cb_free c i w) = w_now w"
    and "w_stats (cb_free c i w) =
      (w_stats w)(St_callbacks_total := w_stats w St_callbacks_total - 1)"
    using assms(2) by (simp_all add: cb_free_def cb_remove_def slots_def)
  show "subs_view (cb_free c i w) = subs_view w"
    using assms(2) by (simp add: cb_free_def cb_remove_def slots_def subs_view_upd_client)
  have "freed_data (w_trace (cb_free c i w)) =
      freed_data (w_trace w) + slot_data (slots w c ! i)"
    using assms(2) by (simp add: cb_free_def cb_remove_def slots_def slot_data_def)
  moreover have "stored_data ((slots w c)[i := None]) + slot_data (slots w c ! i) = stored_data (slots w c)"
    using stored_data_update [OF assms(1), of None] by (simp add: slot_data_def)
  ultimately show "custody c (cb_free c i w) = custody c w"
    by (simp add: custody_def slots_def w ac_simps)
qed

lemma client_cb_new_spec:
  assumes "random_law E" "cbs_wf (w_clients w c)"
    and "client_cb_new E (Some c) (Some f) data free_fn w = (h, v)"
  obtains i cb where "i < n_cbs" "h = cb_handle i (cb_id cb)"
    "cb = \<lparr>cb_id = next_cb_id (c_cbs_id (w_clients w c)), cb_fn = f, cb_data = data,
       cb_free_fn = free_fn, cb_created = w_now w\<rparr>"
    "w_clients v = (w_clients w)(c := (w_clients w c)
       \<lparr>c_cbs_id := cb_id cb, c_cbs := (slots w c)[i := Some cb]\<rparr>)"
    "slots w c ! i = None \<or> None \<notin> set (slots w c)"
    "custody c v = custody c w + data_of data free_fn"
    "subs_view v = subs_view w"
    "w_stats v St_callbacks_total =
       w_stats w St_callbacks_total + occupied (slots v c) - occupied (slots w c)"
proof -
  let ?cbs = "slots w c"
  have len: "length ?cbs = n_cbs" using assms(2) by (simp add: cbs_wf_def slots_def)
  let ?n = "next_cb_id (c_cbs_id (w_clients w c))"
  let ?cb = "\<lparr>cb_id = ?n, cb_fn = f, cb_data = data, cb_free_fn = free_fn, cb_created = w_now w\<rparr>"
  show ?thesis
  proof (cases "free_slot ?cbs = length ?cbs")
    case False
    let ?i = "free_slot ?cbs"
    let ?v = "upd_client c (\<lambda>cl. cl\<lparr>c_cbs_id := ?n, c_cbs := (c_cbs cl)[?i := Some ?cb]\<rparr>) w"
    from False have i: "?i < length ?cbs" using free_slot_le [of ?cbs] by simp
    have e: "?cbs ! ?i = None" by (rule free_slot_empty [OF i])
    have v: "h = cb_handle ?i ?n" "v = stat_inc St_callbacks_created (stat_inc St_callbacks_total ?v)"
      using assms(3) False by (auto simp: client_cb_new_def Let_def slots_def)
    have cl: "w_clients v = (w_clients w)(c := (w_clients w c)
        \<lparr>c_cbs_id := ?n, c_cbs := ?cbs[?i := Some ?cb]\<rparr>)"
      by (simp add: v slots_def)
    have tr: "w_trace v = w_trace w" by (simp add: v)
    have cu: "custody c v = custody c w + data_of data free_fn"
      using stored_data_update [OF i, of "Some ?cb"] e
      by (simp add: custody_def slots_def cl tr slot_data_def ac_simps)
    have sv: "subs_view v = subs_view w" by (simp add: v subs_view_upd_client)
    have st: "w_stats v St_callbacks_total =
        w_stats w St_callbacks_total + occupied (slots v c) - occupied ?cbs"
      using occupied_update [OF i, of "Some ?cb"] e by (simp add: v slots_def)
    show ?thesis
      by (rule that [of ?i ?cb]) (use i len e v cl cu sv st in simp_all)
  next
    case True
    let ?r = "random_slot E (w_trace w)"
    let ?u = "emit (E_random ?r) w"
    let ?w1 = "stat_inc St_callbacks_evicted (cb_free c ?r ?u)"
    let ?v = "upd_client c (\<lambda>cl. cl\<lparr>c_cbs_id := ?n, c_cbs := (c_cbs cl)[?r := Some ?cb]\<rparr>) ?w1"
    have r: "?r < length ?cbs" using assms(1) len by (simp add: random_law_def)
    obtain old where old: "?cbs ! ?r = Some old" using free_slot_full [OF True r] by auto
    then have old': "slots ?u c ! ?r = Some old" and r': "?r < length (slots ?u c)"
      using r by (simp_all add: slots_def)
    note fp = cb_free_props [OF r' old']
    have cid: "c_cbs_id (w_clients (cb_free c ?r ?u) c) = c_cbs_id (w_clients w c)"
      by (simp add: fp(1))
    have v: "h = cb_handle ?r ?n" "v = stat_inc St_callbacks_created (stat_inc St_callbacks_total ?v)"
      using assms(3) True by (auto simp: client_cb_new_def Let_def slots_def cid fp(3))
    have cl: "w_clients v = (w_clients w)(c := (w_clients w c)
        \<lparr>c_cbs_id := ?n, c_cbs := ?cbs[?r := Some ?cb]\<rparr>)"
      by (simp add: v fp(1) slots_def fun_upd_def fun_eq_iff)
    have cw: "custody c ?u = custody c w" by (simp add: custody_def slots_def)
    have sl: "slots (cb_free c ?r ?u) c = ?cbs[?r := None]" by (simp add: slots_def fp(1))
    have cu: "custody c v = custody c w + data_of data free_fn"
    proof -
      have "stored_data (?cbs[?r := Some ?cb]) = stored_data (?cbs[?r := None]) + data_of data free_fn"
        using stored_data_update [of ?r "?cbs[?r := None]" "Some ?cb"] r by (simp add: slot_data_def)
      moreover have "w_trace v = w_trace (cb_free c ?r ?u)" by (simp add: v)
      ultimately have "custody c v = custody c (cb_free c ?r ?u) + data_of data free_fn"
        by (simp add: custody_def cl slots_def [of v] sl ac_simps)
      then show ?thesis by (simp add: fp(6) cw)
    qed
    have sv: "subs_view v = subs_view w" by (simp add: v subs_view_upd_client fp(5))
    have st: "w_stats v St_callbacks_total =
        w_stats w St_callbacks_total + occupied (slots v c) - occupied ?cbs"
    proof -
      have "slots v c = ?cbs[?r := Some ?cb]" by (simp only: slots_def cl) simp
      moreover have "w_stats v St_callbacks_total = w_stats w St_callbacks_total"
        by (simp add: v fp(4))
      ultimately show ?thesis using occupied_update [OF r, of "Some ?cb"] old by simp
    qed
    have full: "None \<notin> set ?cbs"
      using free_slot_full [OF True] by (auto simp: in_set_conv_nth)
    show ?thesis
      by (rule that [of ?r ?cb]) (use r len full v cl cu sv st in simp_all)
  qed
qed

section \<open>The loops over the slots\<close>

definition clear_if :: "(client_cb \<Rightarrow> bool) \<Rightarrow> client_cb option \<Rightarrow> client_cb option" where
  "clear_if P s = (case s of None \<Rightarrow> None | Some cb \<Rightarrow> if P cb then None else Some cb)"

definition free_slot_if :: "(client_cb \<Rightarrow> bool) \<Rightarrow> cid \<Rightarrow> nat \<Rightarrow> world \<Rightarrow> world" where
  "free_slot_if P c i w =
     (case slots w c ! i of None \<Rightarrow> w | Some cb \<Rightarrow> if P cb then cb_free c i w else w)"

lemma cb_prune_slot_eq: "cb_prune_slot c before = free_slot_if (\<lambda>cb. cb_created cb < before) c"
  by (simp add: fun_eq_iff cb_prune_slot_def free_slot_if_def slots_def)

lemma cb_free_slot_eq: "cb_free_slot c = free_slot_if (\<lambda>_. True) c"
  by (simp add: fun_eq_iff cb_free_slot_def free_slot_if_def slots_def)

text \<open>What such a loop leaves alone, and what it keeps the sum of.\<close>

definition loop_ok :: "cid \<Rightarrow> world \<Rightarrow> world \<Rightarrow> bool" where
  "loop_ok c w v \<longleftrightarrow>
     w_clients v = (w_clients w)(c := (w_clients w c)\<lparr>c_cbs := slots v c\<rparr>) \<and>
     w_now v = w_now w \<and> w_fault v = w_fault w \<and> subs_view v = subs_view w \<and>
     custody c v = custody c w \<and>
     w_stats v = (w_stats w)(St_callbacks_total :=
       w_stats w St_callbacks_total + occupied (slots v c) - occupied (slots w c))"

lemma loop_ok_refl: "loop_ok c w w"
  by (simp add: loop_ok_def slots_def)

lemma loop_ok_trans: "loop_ok c u v \<Longrightarrow> loop_ok c v w \<Longrightarrow> loop_ok c u w"
  by (simp add: loop_ok_def algebra_simps)

lemma free_slot_if_step:
  assumes "i < length (slots w c)"
  shows "slots (free_slot_if P c i w) c = (slots w c)[i := clear_if P (slots w c ! i)]"
    and "loop_ok c w (free_slot_if P c i w)"
proof -
  have "slots (free_slot_if P c i w) c = (slots w c)[i := clear_if P (slots w c ! i)] \<and>
      loop_ok c w (free_slot_if P c i w)"
  proof (cases "\<exists>cb. slots w c ! i = Some cb \<and> P cb")
    case True
    then obtain cb where cb: "slots w c ! i = Some cb" "P cb" by auto
    note fp = cb_free_props [OF assms cb(1)]
    have e: "free_slot_if P c i w = cb_free c i w" using cb by (simp add: free_slot_if_def)
    have sl: "slots (cb_free c i w) c = (slots w c)[i := None]" by (simp add: slots_def fp(1))
    show ?thesis
      using occupied_update [OF assms, of None] cb fp
      by (simp add: e sl loop_ok_def clear_if_def)
  next
    case False
    then have "free_slot_if P c i w = w" "clear_if P (slots w c ! i) = slots w c ! i"
      by (auto simp: free_slot_if_def clear_if_def split: option.split)
    then show ?thesis by (simp add: loop_ok_refl)
  qed
  then show "slots (free_slot_if P c i w) c = (slots w c)[i := clear_if P (slots w c ! i)]"
    and "loop_ok c w (free_slot_if P c i w)" by auto
qed

lemma fold_free_slot_if:
  "n \<le> length (slots w c) \<Longrightarrow>
   slots (fold (free_slot_if P c) [0..<n] w) c =
     map (clear_if P) (take n (slots w c)) @ drop n (slots w c) \<and>
   loop_ok c w (fold (free_slot_if P c) [0..<n] w)"
proof (induction n)
  case 0
  then show ?case by (simp add: loop_ok_refl)
next
  case (Suc n)
  let ?u = "fold (free_slot_if P c) [0..<n] w"
  let ?s = "slots w c"
  have n: "n < length ?s" using Suc.prems by simp
  have u: "slots ?u c = map (clear_if P) (take n ?s) @ drop n ?s" "loop_ok c w ?u"
    using Suc by auto
  then have lu: "n < length (slots ?u c)" and nth: "slots ?u c ! n = ?s ! n"
    using n by (simp_all add: nth_append)
  have d: "drop n ?s = ?s ! n # drop (Suc n) ?s" by (rule Cons_nth_drop_Suc [symmetric, OF n])
  have "(slots ?u c)[n := clear_if P (?s ! n)] =
      map (clear_if P) (take (Suc n) ?s) @ drop (Suc n) ?s"
    using n by (simp add: u(1) d list_update_append take_Suc_conv_app_nth)
  with free_slot_if_step [OF lu, of P] nth show ?case
    by (auto intro: loop_ok_trans [OF u(2)])
qed

lemma loop_free_slots:
  "cbs_wf (w_clients w c) \<Longrightarrow>
   slots (fold (free_slot_if P c) [0..<n_cbs] w) c = map (clear_if P) (slots w c) \<and>
   loop_ok c w (fold (free_slot_if P c) [0..<n_cbs] w)"
  using fold_free_slot_if [of n_cbs w c P] by (simp add: cbs_wf_def slots_def)

section \<open>Properties\<close>

lemma random_law_sample: "random_law sample_env"
  by (simp add: random_law_def sample_env_def n_cbs_def)

text \<open>
  C19. A new callback gets a handle that is never \<open>EVS_NO_CALLBACK\<close> and that decodes to the slot
  and the id the callback is stored under; the other slots keep their callbacks unless every slot was in use,
  and then exactly one is evicted. The data handed over, and the data of an evicted callback,
  is afterwards in a slot or was freed, each once, and the gauge of the live callbacks moves
  with the slots in use.
\<close>

theorem client_cb_new_correct:
  assumes "random_law E" "cbs_wf (w_clients w c)"
    and "client_cb_new E (Some c) (Some f) data free_fn w = (h, v)"
  shows "h \<noteq> EVS_NO_CALLBACK \<and> cbs_wf (w_clients v c) \<and>
    (\<exists>cb. slots v c ! unat (handle_slot h) = Some cb \<and> unat (handle_slot h) < n_cbs \<and>
       cb_id cb = handle_id h \<and> cb_fn cb = f \<and> cb_data cb = data \<and> cb_free_fn cb = free_fn \<and>
       cb_created cb = w_now w) \<and>
    (\<forall>i. i = unat (handle_slot h) \<or> slots v c ! i = slots w c ! i) \<and>
    (slots w c ! unat (handle_slot h) = None \<or> None \<notin> set (slots w c)) \<and>
    (\<forall>d. d = c \<or> w_clients v d = w_clients w d) \<and>
    custody c v = custody c w + data_of data free_fn \<and>
    w_stats v St_callbacks_total - w_stats w St_callbacks_total =
      occupied (slots v c) - occupied (slots w c)"
proof -
  from assms obtain i cb where h: "i < n_cbs" "h = cb_handle i (cb_id cb)"
    and cb: "cb = \<lparr>cb_id = next_cb_id (c_cbs_id (w_clients w c)), cb_fn = f, cb_data = data,
       cb_free_fn = free_fn, cb_created = w_now w\<rparr>"
    and cl: "w_clients v = (w_clients w)(c := (w_clients w c)
       \<lparr>c_cbs_id := cb_id cb, c_cbs := (slots w c)[i := Some cb]\<rparr>)"
    and r: "slots w c ! i = None \<or> None \<notin> set (slots w c)"
      "custody c v = custody c w + data_of data free_fn"
      "w_stats v St_callbacks_total =
       w_stats w St_callbacks_total + occupied (slots v c) - occupied (slots w c)"
    by (rule client_cb_new_spec)
  have len: "length (slots w c) = n_cbs" using assms(2) by (simp add: cbs_wf_def slots_def)
  have nz: "cb_id cb \<noteq> 0" by (simp add: cb next_cb_id_nonzero)
  have i: "unat (handle_slot h) = i"
    using h by (simp add: handle_slot_cb_handle n_cbs_def unat_of_nat take_bit_eq_mod)
  have sl: "slots v c = (slots w c)[i := Some cb]" by (simp only: slots_def cl) simp
  have wf: "cbs_wf (w_clients v c)"
    using assms(2) nz len set_update_subset_insert [of "slots w c" i "Some cb"]
    by (auto simp: cbs_wf_def cl slots_def)
  have o: "\<forall>j. j = i \<or> slots v c ! j = slots w c ! j" using sl nth_list_update_neq [of i _ "slots w c" "Some cb"] by metis
  have at: "slots v c ! i = Some cb" using h len by (simp add: sl)
  have id: "handle_id h = cb_id cb" "h \<noteq> EVS_NO_CALLBACK"
    using h nz by (simp_all add: handle_id_cb_handle cb_handle_nonzero)
  have oc: "\<forall>d. d = c \<or> w_clients v d = w_clients w d" by (simp add: cl)
  have ex: "\<exists>x. slots v c ! i = Some x \<and> i < n_cbs \<and> cb_id x = handle_id h \<and> cb_fn x = f \<and>
      cb_data x = data \<and> cb_free_fn x = free_fn \<and> cb_created x = w_now w"
    by (rule exI [of _ cb]) (use at h id cb in simp)
  show ?thesis
    unfolding i using id wf ex o r oc by simp
qed

lemma client_cb_new_correct_witness:
  "fst (client_cb_new sample_env (Some 7) (Some (Cb_app 1)) (Some 9) (Some 2) init_world)
     \<noteq> EVS_NO_CALLBACK"
  using client_cb_new_correct [OF random_law_sample, of init_world 7 "Cb_app 1" "Some 9" "Some 2"
      "fst (client_cb_new sample_env (Some 7) (Some (Cb_app 1)) (Some 9) (Some 2) init_world)"
      "snd (client_cb_new sample_env (Some 7) (Some (Cb_app 1)) (Some 9) (Some 2) init_world)"]
  by (simp add: init_world_def)

text \<open>
  The loop that ages out callbacks empties exactly the slots whose callback was created
  before the limit; the data of these goes to its free function once, and nothing else of the
  client changes.
\<close>

theorem client_cb_prune_exact:
  assumes "cbs_wf (w_clients w c)"
  shows "slots (client_cb_prune c before w) c =
      map (\<lambda>s. case s of Some cb \<Rightarrow> (if cb_created cb < before then None else s) | None \<Rightarrow> None)
        (slots w c) \<and>
    w_clients (client_cb_prune c before w) =
      (w_clients w)(c := (w_clients w c)\<lparr>c_cbs := slots (client_cb_prune c before w) c\<rparr>) \<and>
    custody c (client_cb_prune c before w) = custody c w \<and>
    w_fault (client_cb_prune c before w) = w_fault w"
proof -
  have "clear_if (\<lambda>cb. cb_created cb < before) =
      (\<lambda>s. case s of Some cb \<Rightarrow> (if cb_created cb < before then None else s) | None \<Rightarrow> None)"
    by (auto simp: clear_if_def fun_eq_iff split: option.split)
  with loop_free_slots [OF assms, of "\<lambda>cb. cb_created cb < before"] show ?thesis
    by (simp add: client_cb_prune_def cb_prune_slot_eq loop_ok_def)
qed

lemma client_cb_prune_exact_witness:
  "slots (client_cb_prune 7 5 init_world) 7 = [None, None, None, None]"
proof -
  have "cbs_wf (w_clients init_world 7)" by (simp add: init_world_def)
  from client_cb_prune_exact [OF this, of 5] show ?thesis
    by (simp add: slots_def init_world_def qev_client_new_def n_cbs_def numeral_eq_Suc)
qed

text \<open>
  Freeing a client empties its slots and its data table, and every piece of callback data
  it held reaches its free function exactly once: afterwards all of it is in the trace.
\<close>

theorem client_free_all_no_leak:
  assumes "cbs_wf (w_clients w c)"
  shows "set (slots (client_free_all c w) c) = {None} \<and> c_data (w_clients (client_free_all c w) c) = None \<and>
    freed_data (w_trace (client_free_all c w)) = freed_data (w_trace w) + stored_data (slots w c) \<and>
    w_fault (client_free_all c w) = w_fault w"
proof -
  let ?u = "fold (cb_free_slot c) [0..<n_cbs] w"
  have f: "clear_if (\<lambda>_. True) = (\<lambda>_. None)"
    by (auto simp: clear_if_def fun_eq_iff split: option.split)
  have "length (slots w c) = n_cbs" using assms by (simp add: cbs_wf_def slots_def)
  with loop_free_slots [OF assms, of "\<lambda>_. True"]
  have u: "slots ?u c = replicate n_cbs None" "loop_ok c w ?u"
    by (simp_all add: cb_free_slot_eq f map_replicate_const)
  have z: "stored_data (replicate n_cbs None) = {#}"
    by (simp add: stored_data_def slot_data_def n_cbs_def numeral_eq_Suc)
  let ?v = "client_free_all c w"
  have v: "slots ?v c = slots ?u c" "w_trace ?v = w_trace ?u" "w_fault ?v = w_fault ?u"
      "c_data (w_clients ?v c) = None"
    by (simp_all add: client_free_all_def Let_def slots_def)
  have "freed_data (w_trace ?v) = custody c ?u"
    by (simp add: custody_def v u(1) z)
  also have "\<dots> = custody c w" using u(2) by (simp add: loop_ok_def)
  finally have "freed_data (w_trace ?v) = freed_data (w_trace w) + stored_data (slots w c)"
    by (simp add: custody_def ac_simps)
  moreover have "set (replicate n_cbs None) = {None :: client_cb option}" by (simp add: n_cbs_def)
  ultimately show ?thesis using u v by (simp add: loop_ok_def)
qed

lemma client_free_all_no_leak_witness:
  "set (slots (client_free_all 7 init_world) 7) = {None}"
proof -
  have "cbs_wf (w_clients init_world 7)" by (simp add: init_world_def)
  from client_free_all_no_leak [OF this] show ?thesis by simp
qed

text \<open>
  The ids a client gives out do not repeat within 65534 further creations: a handle kept by
  the other side stays stale for that long after its slot was reused. The id 0 is never given.
\<close>

theorem client_cb_id_fresh:
  assumes "i \<noteq> 0" "0 < k" "k < 65535"
  shows "(next_cb_id ^^ k) i \<noteq> i \<and> (next_cb_id ^^ 65535) i = i \<and> next_cb_id i \<noteq> 0"
proof -
  have u: "0 < unat i" "unat i \<le> 65535"
    using assms(1) unat_u16_less [of i] by (auto simp: unat_eq_0 neq0_conv [symmetric])
  have "(unat i - 1 + k) mod 65535 + 1 \<noteq> unat i"
  proof (cases "unat i - 1 + k < 65535")
    case True
    with assms u show ?thesis by simp
  next
    case False
    then have "(unat i - 1 + k) mod 65535 = unat i - 1 + k - 65535"
      using assms u by (simp add: mod_if)
    with False assms u show ?thesis by simp
  qed
  moreover have "(unat i - 1 + 65535) mod 65535 + 1 = unat i"
  proof -
    have "(unat i - 1 + 65535) mod 65535 = (unat i - 1) mod 65535" by (rule mod_add_self2)
    also have "\<dots> = unat i - 1" using u by (intro mod_less) simp
    finally have "(unat i - 1 + 65535) mod 65535 = unat i - 1" .
    with u show ?thesis by simp
  qed
  ultimately show ?thesis
    using unat_next_cb_id_iter [OF assms(1)] next_cb_id_nonzero
    by (metis word_unat_eq_iff)
qed

lemma client_cb_id_fresh_witness: "(next_cb_id ^^ 2) 65535 \<noteq> 65535"
  using client_cb_id_fresh [of 65535 2] by simp

end
