(* ===== verification/Protocols_Send.thy ===== *)
theory Protocols_Send
  imports Protocol_Frames Client_Cb
begin

text \<open>
  Sending to a client: the way from a framed event to bytes on a socket. HTTP clients come in
  pairs of a surrogate (the QuickIO client, which lives across requests) and a poller (the
  connection that waits for a response); \<open>c_http_client\<close> links them in both directions and owns one
  reference of quick-event. Models \<open>_steal_client\<close>, \<open>_surr_release_client\<close>, \<open>_send_response\<close>,
  \<open>_send_error\<close>, \<open>protocol_http_send\<close> of \<open>src/protocols_http.c\<close> and \<open>_send\<close>, \<open>protocols_send\<close>,
  \<open>protocols_bcast\<close>, \<open>protocols_bcast_write\<close> of \<open>src/protocols.c\<close>.
\<close>

section \<open>HTTP responses\<close>

definition steal_client :: "cid \<Rightarrow> world \<Rightarrow> cid option \<times> world" where
  "steal_client c w =
     (c_http_client (w_clients w c), upd_client c (\<lambda>cl. cl\<lparr>c_http_client := None\<rparr>) w)"

definition surr_release_client :: "cid option \<Rightarrow> cid \<Rightarrow> world \<Rightarrow> world" where
  "surr_release_client surrogate c w =
     (case surrogate of
        None \<Rightarrow> w
      | Some s \<Rightarrow>
          if c_http_client (w_clients w s) = Some c
          then emit (E_unref (Some c)) (upd_client s (\<lambda>cl. cl\<lparr>c_http_client := None\<rparr>) w)
          else w)"

definition touch_send :: "cid \<Rightarrow> world \<Rightarrow> world" where
  "touch_send c w = upd_client c (\<lambda>cl. cl\<lparr>c_last_send := w_now w\<rparr>) w"

definition send_response ::
  "env \<Rightarrow> cid option \<Rightarrow> http_status \<Rightarrow> string \<Rightarrow> world \<Rightarrow> bool \<times> world" where
  "send_response E client status resp w =
     (case client of
        None \<Rightarrow> (False, w)
      | Some c \<Rightarrow>
          (let (surrogate, w1) = steal_client c w;
               sent = c_in_request (w_clients w1 c);
               w2 = (if sent then
                       (let a = touch_send c (emit (E_write c resp)
                                  (upd_client c (\<lambda>cl. cl\<lparr>c_in_request := False\<rparr>) w1));
                            b = (case surrogate of None \<Rightarrow> a | Some s \<Rightarrow> touch_send s a)
                        in if c_keep_alive (w_clients b c) then b else emit (E_close c HTTP_DONE) b)
                     else w1);
               w3 = emit (E_unref surrogate) (surr_release_client surrogate c w2);
               w4 = (if sent then stat_inc (St_http_response (status_code status)) w3 else w3)
           in (sent, w4)))"

text \<open>\<open>_status_responses\<close>, as \<open>protocol_http_init\<close> fills it.\<close>

definition status_responses :: "env \<Rightarrow> http_status \<Rightarrow> string" where
  "status_responses E status =
     build_response E status (if status = STATUS_501 then Some (html_error E) else None)"

definition send_error :: "env \<Rightarrow> cid option \<Rightarrow> http_status \<Rightarrow> world \<Rightarrow> bool \<times> world" where
  "send_error E client status w = send_response E client status (status_responses E status) w"

definition protocol_http_send :: "env \<Rightarrow> cid \<Rightarrow> frames \<Rightarrow> world \<Rightarrow> world" where
  "protocol_http_send E surrogate fr w =
     (let (sent, w1) =
        (if \<not> c_incoming (w_clients w surrogate) then
           (let (client, a) = steal_client surrogate w;
                (s, b) = send_response E client STATUS_200 (the (fr_def fr)) a
            in (s, emit (E_unref client) b))
         else (False, w))
      in if sent then w1 else emit (E_write surrogate (the (fr_raw fr))) w1)"

section \<open>The table of protocols\<close>

text \<open>The columns \<open>frame\<close>, \<open>send\<close>, \<open>handshake\<close> of \<open>_protocols[]\<close>; \<open>None\<close> is a NULL entry.\<close>

definition prot_frame ::
  "env \<Rightarrow> prot \<Rightarrow> (string \<Rightarrow> string \<Rightarrow> guint64 \<Rightarrow> string \<Rightarrow> frames) option" where
  "prot_frame E p =
     (case p of
        P_http \<Rightarrow> Some (protocol_http_frame E)
      | P_flash \<Rightarrow> None
      | P_raw \<Rightarrow> Some (protocol_raw_frame E)
      | P_rfc6455 \<Rightarrow> Some (protocol_rfc6455_frame E))"

definition send_frames :: "env \<Rightarrow> cid \<Rightarrow> frames \<Rightarrow> world \<Rightarrow> world" where
  "send_frames E c fr w =
     (let w1 = touch_send c w in
      case c_prot (w_clients w1 c) of
        None \<Rightarrow> fault w1
      | Some P_http \<Rightarrow> protocol_http_send E c fr w1
      | Some _ \<Rightarrow> (case fr_def fr of None \<Rightarrow> w1 | Some s \<Rightarrow> emit (E_write c s) w1))"

definition protocols_send ::
  "env \<Rightarrow> cid \<Rightarrow> string \<Rightarrow> string option \<Rightarrow> guint64 \<Rightarrow> string \<Rightarrow> world \<Rightarrow> world" where
  "protocols_send E c path extra server_cb json w =
     (if c_handshaked (w_clients w c) then
        (let ev_extra = (case extra of None \<Rightarrow> [] | Some x \<Rightarrow> x) in
         case c_prot (w_clients w c) of
           None \<Rightarrow> fault w
         | Some p \<Rightarrow>
             (case prot_frame E p of
                None \<Rightarrow> fault w
              | Some frame \<Rightarrow> send_frames E c (frame path ev_extra server_cb json) w))
      else w)"

definition protocols_bcast :: "env \<Rightarrow> string \<Rightarrow> string \<Rightarrow> prot \<Rightarrow> frames" where
  "protocols_bcast E path json p =
     (case prot_frame E p of
        None \<Rightarrow> \<lparr>fr_def = None, fr_raw = None\<rparr>
      | Some frame \<Rightarrow> frame path [] EVS_NO_CALLBACK json)"

text \<open>The pointer \<open>frames + client->protocol.prot->id\<close> is computed before the guard.\<close>

definition protocols_bcast_write :: "env \<Rightarrow> cid \<Rightarrow> (prot \<Rightarrow> frames) \<Rightarrow> world \<Rightarrow> world" where
  "protocols_bcast_write E c frs w =
     (case c_prot (w_clients w c) of
        None \<Rightarrow> fault w
      | Some p \<Rightarrow> if c_handshaked (w_clients w c) then send_frames E c (frs p) w else w)"

section \<open>What sending leaves alone\<close>

text \<open>A client without the fields that sending changes.\<close>

definition quiet :: "client \<Rightarrow> client" where
  "quiet cl = cl\<lparr>c_http_client := None, c_last_send := 0, c_in_request := False\<rparr>"

definition same_core :: "world \<Rightarrow> world \<Rightarrow> bool" where
  "same_core w v \<longleftrightarrow>
     (\<forall>c. quiet (w_clients v c) = quiet (w_clients w c)) \<and> subs_view v = subs_view w \<and>
     w_events v = w_events w \<and> w_surrogates v = w_surrogates w \<and> w_now v = w_now w \<and>
     freed_data (w_trace v) = freed_data (w_trace w) \<and> listed (w_trace v) = listed (w_trace w) \<and>
     w_stats v St_callbacks_total = w_stats w St_callbacks_total"

lemma same_core_refl [simp, intro]: "same_core w w"
  by (simp add: same_core_def)

lemma same_core_trans: "same_core u v \<Longrightarrow> same_core v w \<Longrightarrow> same_core u w"
  by (simp add: same_core_def)

lemma quiet_fields:
  assumes "quiet a = quiet b"
  shows "c_subs a = c_subs b" "c_cbs a = c_cbs b" "c_prot a = c_prot b" "c_handshaked a = c_handshaked b"
    "c_cbs_id a = c_cbs_id b" "c_data a = c_data b" "c_rbuff a = c_rbuff b" "c_incoming a = c_incoming b"
    "c_http_body_len a = c_http_body_len b" "c_keep_alive a = c_keep_alive b"
    "c_last_recv a = c_last_recv b" "c_timeout a = c_timeout b"
  using arg_cong [OF assms, of c_subs] arg_cong [OF assms, of c_cbs] arg_cong [OF assms, of c_prot]
    arg_cong [OF assms, of c_handshaked] arg_cong [OF assms, of c_cbs_id] arg_cong [OF assms, of c_data]
    arg_cong [OF assms, of c_rbuff] arg_cong [OF assms, of c_incoming]
    arg_cong [OF assms, of c_http_body_len] arg_cong [OF assms, of c_keep_alive]
    arg_cong [OF assms, of c_last_recv] arg_cong [OF assms, of c_timeout]
  by (simp_all add: quiet_def)

text \<open>Effects that are not about callback data or lists of subscribers.\<close>

definition quiet_effect :: "effect \<Rightarrow> bool" where
  "quiet_effect e \<longleftrightarrow>
     (case e of E_free_data f d \<Rightarrow> False | E_list_add s c ok \<Rightarrow> False | E_list_remove s c \<Rightarrow> False
      | _ \<Rightarrow> True)"

lemma quiet_effectD: "quiet_effect e \<Longrightarrow> freed_data [e] = {#} \<and> list_step e = id"
  by (cases e) (simp_all add: quiet_effect_def freed_data_def effect_data_def list_step_def fun_eq_iff)

lemma quiet_effects [simp]:
  "quiet_effect (E_write c s)" "quiet_effect (E_close c r)" "quiet_effect (E_unref d)"
  "quiet_effect (E_ref c)" "quiet_effect (E_flush c)" "quiet_effect (E_random n)"
  "quiet_effect (E_timeout c)" "quiet_effect (E_timeout_clear c)" "quiet_effect (E_surrogate c)"
  "quiet_effect (E_fair_use n b)" "quiet_effect E_fair_return" "quiet_effect (E_list_free sub)"
  "quiet_effect (E_off n c x)" "quiet_effect (E_on n c sub)" "quiet_effect (E_handler n c x cb j)"
  "quiet_effect (E_cb n c d cb j)"
  by (simp_all add: quiet_effect_def)

lemma same_core_emit:
  "quiet_effect e \<Longrightarrow> same_core w (emit e w)"
  using quiet_effectD [of e] by (simp add: same_core_def)

lemma same_core_upd:
  "quiet (f (w_clients w c)) = quiet (w_clients w c) \<Longrightarrow> same_core w (upd_client c f w)"
  using quiet_fields(1) [of "f (w_clients w c)" "w_clients w c"]
  by (simp add: same_core_def subs_view_upd_client)

lemma same_core_stat: "s \<noteq> St_callbacks_total \<Longrightarrow> same_core w (stat_inc s w)"
  by (simp add: same_core_def)

lemma same_core_touch: "same_core w (touch_send c w)"
  unfolding touch_send_def by (rule same_core_upd) (simp add: quiet_def)

lemma same_core_steal: "same_core w (snd (steal_client c w))"
  unfolding steal_client_def snd_conv by (rule same_core_upd) (simp add: quiet_def)

lemma same_core_release: "same_core w (surr_release_client s c w)"
  unfolding surr_release_client_def
  by (auto split: option.split intro!: same_core_trans [OF same_core_upd same_core_emit]
      simp: quiet_def)

text \<open>The same one step at a time, for a chain of updates.\<close>

lemma same_core_steps:
  "same_core u w \<Longrightarrow> quiet_effect e \<Longrightarrow> same_core u (emit e w)"
  "same_core u w \<Longrightarrow> quiet (f (w_clients w c)) = quiet (w_clients w c) \<Longrightarrow> same_core u (upd_client c f w)"
  "same_core u w \<Longrightarrow> s \<noteq> St_callbacks_total \<Longrightarrow> same_core u (stat_inc s w)"
  "same_core u w \<Longrightarrow> same_core u (touch_send c w)"
  "same_core u w \<Longrightarrow> same_core u (surr_release_client sg c w)"
  by (blast intro: same_core_trans same_core_emit same_core_upd same_core_stat same_core_touch
      same_core_release)+

lemma same_core_send_response: "same_core w (snd (send_response E c st resp w))"
proof (cases c)
  case None
  then show ?thesis by (simp add: send_response_def)
next
  case (Some d)
  show ?thesis
    unfolding Some send_response_def steal_client_def
    by (auto simp: Let_def quiet_def split: option.split intro!: same_core_steps)
qed

lemma same_core_send_error: "same_core w (snd (send_error E c st w))"
  unfolding send_error_def by (rule same_core_send_response)

lemma same_core_steal_send:
  "same_core w (snd (send_response E c st resp (snd (steal_client d w))))"
  by (rule same_core_trans [OF same_core_steal same_core_send_response])

lemma same_core_http_send: "same_core w (protocol_http_send E s fr w)"
  unfolding protocol_http_send_def
  by (auto simp: Let_def case_prod_beta intro!: same_core_steps same_core_steal_send)

text \<open>
  What the tables of \<open>protocols.c\<close> demand of a client: once it is handshaked its protocol can
  frame events.
\<close>

definition prot_ok :: "client \<Rightarrow> bool" where
  "prot_ok cl \<longleftrightarrow> (c_handshaked cl \<longrightarrow> c_prot cl \<in> {Some P_http, Some P_raw, Some P_rfc6455})"

lemma prot_ok_quiet: "quiet a = quiet b \<Longrightarrow> prot_ok a = prot_ok b"
  using quiet_fields(3,4) [of a b] by (simp add: prot_ok_def)

lemma send_frames_eq:
  "c_prot (w_clients w c) = Some p \<Longrightarrow>
   send_frames E c fr w =
     (if p = P_http then protocol_http_send E c fr (touch_send c w)
      else case fr_def fr of None \<Rightarrow> touch_send c w | Some s \<Rightarrow> emit (E_write c s) (touch_send c w))"
  by (cases p) (simp_all add: send_frames_def Let_def touch_send_def split: option.split)

lemma same_core_send_frames:
  "c_prot (w_clients w c) \<noteq> None \<Longrightarrow> same_core w (send_frames E c fr w)"
  by (auto simp: send_frames_eq split: option.split
      intro!: same_core_steps same_core_trans [OF same_core_touch same_core_http_send])

lemma same_core_protocols_send:
  assumes "prot_ok (w_clients w c)"
  shows "same_core w (protocols_send E c path x cb json w)"
proof (cases "c_handshaked (w_clients w c)")
  case True
  with assms obtain p fr where "c_prot (w_clients w c) = Some p" "prot_frame E p = Some fr"
    by (auto simp: prot_ok_def prot_frame_def)
  with True same_core_send_frames [of w c] show ?thesis
    by (simp add: protocols_send_def Let_def)
next
  case False
  then show ?thesis by (simp add: protocols_send_def)
qed

lemma same_core_bcast_write:
  "c_prot (w_clients w c) \<noteq> None \<Longrightarrow> same_core w (protocols_bcast_write E c frs w)"
  using same_core_send_frames [of w c]
  by (auto simp: protocols_bcast_write_def split: option.split)

section \<open>Who holds references to clients\<close>

text \<open>
  \<open>c_http_client\<close> owns a reference. \<open>bal w c\<close> is how many references to \<open>c\<close> the code took and did
  not give back, beyond those that are stored in some \<open>c_http_client\<close>.
\<close>

definition ref_delta :: "effect \<Rightarrow> cid \<Rightarrow> int" where
  "ref_delta e c = (case e of E_ref d \<Rightarrow> if d = c then 1 else 0
     | E_unref (Some d) \<Rightarrow> if d = c then - 1 else 0 | _ \<Rightarrow> 0)"

definition linkers :: "world \<Rightarrow> cid \<Rightarrow> cid set" where
  "linkers w c = {d. c_http_client (w_clients w d) = Some c}"

definition fin_links :: "world \<Rightarrow> bool" where
  "fin_links w \<longleftrightarrow> (\<forall>c. finite (linkers w c))"

definition bal :: "world \<Rightarrow> cid \<Rightarrow> int" where
  "bal w c = sum_list (map (\<lambda>e. ref_delta e c) (w_trace w)) - int (card (linkers w c))"

definition owed :: "cid option \<Rightarrow> cid \<Rightarrow> int" where
  "owed d c = (if d = Some c then 1 else 0)"

lemma owed_None [simp]: "owed None c = 0"
  by (simp add: owed_def)

lemma linkers_upd:
  "linkers (upd_client d f w) c =
   (if c_http_client (f (w_clients w d)) = Some c then insert d (linkers w c) else linkers w c - {d})"
  by (auto simp: linkers_def)

lemma linkers_frame [simp]:
  "linkers (emit e w) c = linkers w c" "linkers (stat_inc s w) c = linkers w c"
  by (simp_all add: linkers_def)

lemma fin_links_frame [simp]:
  "fin_links (emit e w) = fin_links w" "fin_links (stat_inc s w) = fin_links w"
  by (simp_all add: fin_links_def)

lemma fin_links_upd [simp]: "fin_links w \<Longrightarrow> fin_links (upd_client d f w)"
  by (simp add: fin_links_def linkers_upd)

lemma bal_emit: "bal (emit e w) c = bal w c + ref_delta e c"
  by (simp add: bal_def)

lemma bal_stat [simp]: "bal (stat_inc s w) = bal w"
  by (simp add: bal_def fun_eq_iff)

lemma bal_upd:
  assumes "fin_links w"
  shows "bal (upd_client d f w) c =
    bal w c + owed (c_http_client (w_clients w d)) c - owed (c_http_client (f (w_clients w d))) c"
proof -
  let ?l = "linkers w c"
  have f: "finite ?l" using assms by (simp add: fin_links_def)
  have m: "d \<in> ?l \<longleftrightarrow> c_http_client (w_clients w d) = Some c" by (simp add: linkers_def)
  have "int (card (insert d ?l)) = int (card ?l) + (if d \<in> ?l then 0 else 1)"
    using f by (simp add: insert_absorb)
  moreover have "int (card (?l - {d})) = int (card ?l) - (if d \<in> ?l then 1 else 0)"
    using f card_Suc_Diff1 [of ?l d] by (cases "d \<in> ?l") simp_all
  ultimately show ?thesis by (simp add: bal_def linkers_upd owed_def m)
qed

lemma bal_upd_same [simp]:
  "fin_links w \<Longrightarrow> c_http_client (f (w_clients w d)) = c_http_client (w_clients w d) \<Longrightarrow>
   bal (upd_client d f w) = bal w"
  by (simp add: bal_upd fun_eq_iff)

lemma bal_unref: "bal (emit (E_unref d) w) c = bal w c - owed d c"
  by (cases d) (simp_all add: bal_emit ref_delta_def owed_def)

lemma bal_other [simp]:
  "bal (emit (E_write d s) w) = bal w" "bal (emit (E_close d r) w) = bal w"
  "bal (emit (E_flush d) w) = bal w"
  by (simp_all add: fun_eq_iff bal_emit ref_delta_def)

lemma bal_ref: "bal (emit (E_ref d) w) c = bal w c + owed (Some d) c"
  by (simp add: bal_emit ref_delta_def owed_def)

lemma touch_bal [simp]:
  "fin_links w \<Longrightarrow> fin_links (touch_send c w)" "fin_links w \<Longrightarrow> bal (touch_send c w) = bal w"
  by (simp_all add: touch_send_def)

lemma steal_bal:
  assumes "steal_client d w = (s, v)" "fin_links w"
  shows "fin_links v" "bal v c = bal w c + owed s c" "s = c_http_client (w_clients w d)"
    "v = upd_client d (\<lambda>cl. cl\<lparr>c_http_client := None\<rparr>) w"
  using assms by (auto simp: steal_client_def bal_upd)

lemma release_bal:
  "fin_links w \<Longrightarrow> fin_links (surr_release_client s c w)"
  "fin_links w \<Longrightarrow> bal (surr_release_client s c w) = bal w"
  by (auto simp: surr_release_client_def fun_eq_iff bal_unref bal_upd split: option.split)

text \<open>The middle of \<open>_send_response\<close>: everything between the steal and the release.\<close>

definition respond :: "cid \<Rightarrow> string \<Rightarrow> cid option \<Rightarrow> world \<Rightarrow> world" where
  "respond c resp surrogate w1 =
     (let a = touch_send c (emit (E_write c resp) (upd_client c (\<lambda>cl. cl\<lparr>c_in_request := False\<rparr>) w1));
          b = (case surrogate of None \<Rightarrow> a | Some s \<Rightarrow> touch_send s a)
      in if c_keep_alive (w_clients b c) then b else emit (E_close c HTTP_DONE) b)"

lemma send_response_eq:
  "send_response E (Some c) st resp w =
     (let (sg, w1) = steal_client c w;
          sent = c_in_request (w_clients w c);
          w3 = emit (E_unref sg) (surr_release_client sg c (if sent then respond c resp sg w1 else w1))
      in (sent, if sent then stat_inc (St_http_response (status_code st)) w3 else w3))"
  by (simp add: send_response_def steal_client_def respond_def Let_def)

lemma respond_bal:
  "fin_links w \<Longrightarrow> fin_links (respond c resp s w)" "fin_links w \<Longrightarrow> bal (respond c resp s w) = bal w"
  by (auto simp: respond_def Let_def split: option.split)

lemma send_response_bal:
  assumes "fin_links w"
  shows "fin_links (snd (send_response E d st resp w))" "bal (snd (send_response E d st resp w)) = bal w"
proof -
  have "fin_links (snd (send_response E d st resp w)) \<and> bal (snd (send_response E d st resp w)) = bal w"
  proof (cases d)
    case None
    with assms show ?thesis by (simp add: send_response_def)
  next
    case (Some c)
    obtain sg w1 where st: "steal_client c w = (sg, w1)" by (cases "steal_client c w") auto
    note s = steal_bal [OF st assms]
    let ?w2 = "if c_in_request (w_clients w c) then respond c resp sg w1 else w1"
    have f: "fin_links ?w2" "bal ?w2 = bal w1" using s(1) by (simp_all add: respond_bal)
    have "bal (emit (E_unref sg) (surr_release_client sg c ?w2)) = bal w"
      using f s(2) by (simp add: fun_eq_iff bal_unref release_bal)
    moreover have "fin_links (surr_release_client sg c ?w2)" using f by (simp add: release_bal)
    ultimately show ?thesis
      by (cases "c_in_request (w_clients w c)") (simp_all add: Some send_response_eq st Let_def)
  qed
  then show "fin_links (snd (send_response E d st resp w))"
    and "bal (snd (send_response E d st resp w)) = bal w" by auto
qed

lemma send_error_bal:
  assumes "fin_links w"
  shows "fin_links (snd (send_error E d st w))" "bal (snd (send_error E d st w)) = bal w"
  using send_response_bal [OF assms] by (simp_all add: send_error_def)

lemma http_send_bal:
  assumes "fin_links w"
  shows "fin_links (protocol_http_send E s fr w)" "bal (protocol_http_send E s fr w) = bal w"
proof -
  obtain d a where st: "steal_client s w = (d, a)" by (cases "steal_client s w") auto
  note sb = steal_bal [OF st assms]
  obtain sent b where sr: "send_response E d STATUS_200 (the (fr_def fr)) a = (sent, b)"
    by (cases "send_response E d STATUS_200 (the (fr_def fr)) a") auto
  from send_response_bal [OF sb(1), of E d STATUS_200 "the (fr_def fr)"] sr
  have b: "fin_links b" "bal b = bal a" by simp_all
  have "bal (emit (E_unref d) b) = bal w" using b(2) sb(2) by (simp add: fun_eq_iff bal_unref)
  with b assms show "fin_links (protocol_http_send E s fr w)" "bal (protocol_http_send E s fr w) = bal w"
    by (simp_all add: protocol_http_send_def st sr Let_def)
qed

lemma send_frames_bal:
  assumes "fin_links w" "c_prot (w_clients w c) \<noteq> None"
  shows "fin_links (send_frames E c fr w)" "bal (send_frames E c fr w) = bal w"
  using assms http_send_bal [of "touch_send c w"]
  by (auto simp: send_frames_eq split: option.split)

section \<open>What is written\<close>

definition writes :: "effect list \<Rightarrow> (cid \<times> string) list" where
  "writes tr = concat (map (\<lambda>e. case e of E_write c s \<Rightarrow> [(c, s)] | _ \<Rightarrow> []) tr)"

lemma writes_append [simp]: "writes (a @ b) = writes a @ writes b"
  by (simp add: writes_def)

lemma writes_simps [simp]:
  "writes [] = []"
  "writes (e # tr) = (case e of E_write c s \<Rightarrow> [(c, s)] | _ \<Rightarrow> []) @ writes tr"
  by (simp_all add: writes_def)

lemma touch_send_frame [simp]:
  "w_trace (touch_send c w) = w_trace w" "w_stats (touch_send c w) = w_stats w"
  "w_now (touch_send c w) = w_now w" "w_fault (touch_send c w) = w_fault w"
  by (simp_all add: touch_send_def)

lemma release_writes [simp]: "writes (w_trace (surr_release_client s c w)) = writes (w_trace w)"
  by (simp add: surr_release_client_def split: option.split)

lemma release_in_request [simp]:
  "c_in_request (w_clients (surr_release_client s c w) d) = c_in_request (w_clients w d)"
  by (simp add: surr_release_client_def split: option.split)

lemma respond_writes [simp]: "writes (w_trace (respond c resp s w)) = writes (w_trace w) @ [(c, resp)]"
  by (simp add: respond_def Let_def split: option.split)

lemma respond_in_request [simp]:
  "c_in_request (w_clients (respond c resp s w) d) = (d \<noteq> c \<and> c_in_request (w_clients w d))"
  by (auto simp: respond_def Let_def touch_send_def split: option.split)

lemma send_response_spec:
  assumes "send_response E (Some c) st resp w = (sent, v)"
  shows "sent = c_in_request (w_clients w c)"
    and "writes (w_trace v) = writes (w_trace w) @ (if sent then [(c, resp)] else [])"
    and "c_in_request (w_clients v d) = (d \<noteq> c \<and> c_in_request (w_clients w d))"
  using assms by (auto simp: send_response_eq steal_client_def Let_def split: if_splits)

lemma send_response_None [simp]: "send_response E None st resp w = (False, w)"
  by (simp add: send_response_def)

definition http_target :: "cid \<Rightarrow> frames \<Rightarrow> world \<Rightarrow> cid \<times> string" where
  "http_target s fr w =
     (case c_http_client (w_clients w s) of
        Some p \<Rightarrow> if \<not> c_incoming (w_clients w s) \<and> c_in_request (w_clients w p)
                  then (p, the (fr_def fr)) else (s, the (fr_raw fr))
      | None \<Rightarrow> (s, the (fr_raw fr)))"

lemma http_send_writes:
  "writes (w_trace (protocol_http_send E s fr w)) = writes (w_trace w) @ [http_target s fr w]"
proof (cases "c_incoming (w_clients w s) \<or> c_http_client (w_clients w s) = None")
  case True
  then show ?thesis
    by (auto simp: protocol_http_send_def steal_client_def Let_def http_target_def split: option.split)
next
  case False
  then obtain p where p: "c_http_client (w_clients w s) = Some p" "\<not> c_incoming (w_clients w s)" by auto
  let ?a = "upd_client s (\<lambda>cl. cl\<lparr>c_http_client := None\<rparr>) w"
  obtain sent v where sr: "send_response E (Some p) STATUS_200 (the (fr_def fr)) ?a = (sent, v)"
    by (cases "send_response E (Some p) STATUS_200 (the (fr_def fr)) ?a") auto
  note sp = send_response_spec(1,2) [OF sr]
  have "c_in_request (w_clients ?a p) = c_in_request (w_clients w p)" by simp
  with sp p sr show ?thesis
    by (simp add: protocol_http_send_def steal_client_def Let_def http_target_def)
qed

lemma protocols_send_writes:
  assumes "prot_ok (w_clients w c)" "c_handshaked (w_clients w c)"
    and raw: "raw = protocol_raw_format E path (case extra of None \<Rightarrow> [] | Some x \<Rightarrow> x) cb json"
  shows "\<exists>dst bytes. writes (w_trace (protocols_send E c path extra cb json w)) =
      writes (w_trace w) @ [(dst, bytes)] \<and>
    (case c_prot (w_clients w c) of
       Some P_raw \<Rightarrow> dst = c \<and> bytes = be_bytes 8 (length raw) @ raw
     | Some P_rfc6455 \<Rightarrow> dst = c \<and> bytes = rfc6455_head (length raw) @ raw
     | _ \<Rightarrow> dst = c \<and> bytes = raw @ [CHR 0x0A] \<or>
            c_http_client (w_clients w c) = Some dst \<and> c_in_request (w_clients w dst) \<and>
            bytes = build_response E STATUS_200 (Some (raw @ [CHR 0x0A])))"
proof -
  from assms obtain p where p: "c_prot (w_clients w c) = Some p" "p = P_http \<or> p = P_raw \<or> p = P_rfc6455"
    by (auto simp: prot_ok_def)
  show ?thesis
  proof (cases "p = P_http")
    case True
    let ?fr = "protocol_http_frame E path (case extra of None \<Rightarrow> [] | Some x \<Rightarrow> x) cb json"
    have w: "writes (w_trace (protocols_send E c path extra cb json w)) =
        writes (w_trace w) @ [http_target c ?fr (touch_send c w)]"
      using True p assms(2)
      by (simp add: protocols_send_def prot_frame_def send_frames_eq http_send_writes)
    have "http_target c ?fr (touch_send c w) = (c, raw @ [CHR 0x0A]) \<or>
      (\<exists>q. c_http_client (w_clients w c) = Some q \<and> c_in_request (w_clients w q) \<and>
        http_target c ?fr (touch_send c w) = (q, build_response E STATUS_200 (Some (raw @ [CHR 0x0A]))))"
      by (auto simp: raw http_target_def protocol_http_frame_def Let_def touch_send_def split: option.split)
    with w True p show ?thesis by auto
  next
    case False
    with p assms(2) show ?thesis
      by (auto simp: protocols_send_def prot_frame_def send_frames_eq protocol_raw_frame_def
          protocol_rfc6455_frame_def Let_def raw)
  qed
qed

text \<open>Whatever the frame, it holds the formatted event.\<close>

lemma protocols_send_carries:
  assumes "prot_ok (w_clients w c)" "c_handshaked (w_clients w c)"
  obtains dst bytes where
    "writes (w_trace (protocols_send E c path (Some extra) cb json w)) = writes (w_trace w) @ [(dst, bytes)]"
    "sublist (protocol_raw_format E path extra cb json) bytes"
    "dst = c \<or> c_http_client (w_clients w c) = Some dst"
    "c_prot (w_clients w c) \<noteq> Some P_http \<longrightarrow> dst = c"
proof -
  let ?raw = "protocol_raw_format E path extra cb json"
  have b: "sublist ?raw (build_response E STATUS_200 (Some (?raw @ [CHR 0x0A])))"
    unfolding build_response_def build_response_full_def Let_def
    by (simp only: option.case append_assoc) (metis append_assoc sublist_appendI)
  have s: "sublist ?raw (a @ ?raw)" "sublist ?raw (?raw @ a)" for a
    by (metis sublist_appendI append_Nil2, metis sublist_appendI append_Nil)
  obtain dst bytes where w:
    "writes (w_trace (protocols_send E c path (Some extra) cb json w)) = writes (w_trace w) @ [(dst, bytes)]"
    "(case c_prot (w_clients w c) of
       Some P_raw \<Rightarrow> dst = c \<and> bytes = be_bytes 8 (length ?raw) @ ?raw
     | Some P_rfc6455 \<Rightarrow> dst = c \<and> bytes = rfc6455_head (length ?raw) @ ?raw
     | _ \<Rightarrow> dst = c \<and> bytes = ?raw @ [CHR 0x0A] \<or>
            c_http_client (w_clients w c) = Some dst \<and> c_in_request (w_clients w dst) \<and>
            bytes = build_response E STATUS_200 (Some (?raw @ [CHR 0x0A])))"
    using protocols_send_writes [OF assms refl, where E = E and path = path and extra = "Some extra"
        and cb = cb and json = json] by (simp only: option.case) blast
  have "sublist ?raw bytes \<and> (dst = c \<or> c_http_client (w_clients w c) = Some dst) \<and>
      (c_prot (w_clients w c) \<noteq> Some P_http \<longrightarrow> dst = c)"
    using w(2) assms b s by (auto simp: prot_ok_def split: option.splits prot.splits)
  with w(1) that show thesis by blast
qed

section \<open>Properties\<close>


definition sample_http_world :: world where
  "sample_http_world = init_world\<lparr>w_clients := (\<lambda>c.
     if c = 1 then qev_client_new\<lparr>c_handshaked := True, c_prot := Some P_http, c_http_client := Some 2\<rparr>
     else if c = 2 then qev_client_new\<lparr>c_handshaked := True, c_prot := Some P_http,
       c_in_request := True, c_http_client := Some 1\<rparr>
     else qev_client_new), w_trace := [E_ref 1, E_ref 2]\<rparr>"


text \<open>
  A request is answered at most once: the connection that got its response is no longer in a
  request, and whatever answers it next writes nothing. Every reference to a client that the
  response path takes over or gives back is accounted for: references held and stored links
  stay in balance for every client.
\<close>

theorem send_response_once_and_balanced:
  assumes "fin_links w" "send_response E (Some c) st resp w = (sent, v)"
  shows "sent = c_in_request (w_clients w c) \<and> \<not> c_in_request (w_clients v c) \<and>
    writes (w_trace v) = writes (w_trace w) @ (if sent then [(c, resp)] else []) \<and>
    (\<forall>st' resp'. fst (send_response E (Some c) st' resp' v) = False) \<and>
    c_http_client (w_clients v c) = None \<and> bal v = bal w"
proof -
  note sp = send_response_spec [OF assms(2)]
  have n: "\<not> c_in_request (w_clients v c)" using sp(3) by simp
  have "fst (send_response E (Some c) st' resp' v) = False" for st' resp'
  proof -
    obtain s u where "send_response E (Some c) st' resp' v = (s, u)"
      by (cases "send_response E (Some c) st' resp' v") auto
    with send_response_spec(1) [OF this] n show ?thesis by simp
  qed
  moreover have "bal v = bal w" using send_response_bal(2) [OF assms(1), of E "Some c" st resp] assms(2)
    by simp
  moreover have "c_http_client (w_clients v c) = None"
  proof -
    have "c_http_client (w_clients (snd (send_response E (Some c) st resp w)) c) = None"
      by (auto simp: send_response_eq steal_client_def Let_def surr_release_client_def respond_def
          touch_send_def split: option.split)
    with assms(2) show ?thesis by simp
  qed
  ultimately show ?thesis using sp(1,2) n by blast
qed

lemma send_response_once_and_balanced_witness:
  "\<not> c_in_request (w_clients (snd (send_response sample_env (Some 2) STATUS_200 ''x'' sample_http_world)) 2)"
proof -
  have "linkers sample_http_world c \<subseteq> {1, 2}" for c
    by (auto simp: linkers_def sample_http_world_def qev_client_new_def init_world_def split: if_splits)
  then have f: "fin_links sample_http_world"
    unfolding fin_links_def by (meson finite.emptyI finite.insertI finite_subset)
  show ?thesis
    using send_response_once_and_balanced [OF f, of sample_env 2 STATUS_200 "''x''"
        "fst (send_response sample_env (Some 2) STATUS_200 ''x'' sample_http_world)"
        "snd (send_response sample_env (Some 2) STATUS_200 ''x'' sample_http_world)"]
    by simp
qed

end
