(* ===== verification/Evs_Cb.thy ===== *)
theory Evs_Cb
  imports Protocols_Send
begin

text \<open>
  Answering a callback of a client (\<open>evs_cb_full\<close> and its variants in \<open>src/evs.c\<close>) and sending an event
  without looking at subscriptions (\<open>evs_send_bruteforce\<close>), and the notion of a step that leaves
  subscriptions alone (\<open>calm\<close>), which these are and which the off functions of applications
  are required to be.
\<close>

section \<open>Operations\<close>

definition CB_PATH :: string where
  "CB_PATH = ''/qio/callback/''"

text \<open>\<open>JSON_OR_NULL\<close>\<close>

definition json_or_null :: "string option \<Rightarrow> string" where
  "json_or_null json = (case json of None \<Rightarrow> ''null'' | Some s \<Rightarrow> if s = [] then ''null'' else s)"

definition cb_json :: "env \<Rightarrow> guint64 \<Rightarrow> string option \<Rightarrow> string option \<Rightarrow> string" where
  "cb_json E code err_msg json =
     ''{\"code\":'' @ uint_str E code @ '',\"data\":'' @ json_or_null json @
     (if code \<noteq> CODE_OK then '',\"err_msg\":'' @ json_str E err_msg else []) @ ''}''"

definition evs_cb_full ::
  "env \<Rightarrow> cid \<Rightarrow> guint64 \<Rightarrow> guint64 \<Rightarrow> string option \<Rightarrow> string option \<Rightarrow>
   cb_ptr option \<Rightarrow> data_ptr option \<Rightarrow> free_ptr option \<Rightarrow> world \<Rightarrow> world" where
  "evs_cb_full E c client_cb code err_msg json fn data free_fn w =
     (if client_cb = 0 then snd (client_cb_new E None None data free_fn w)
      else
        (let (server_cb, w1) =
               (if code = CODE_OK then client_cb_new E (Some c) fn data free_fn w
                else (EVS_NO_CALLBACK, snd (client_cb_new E None None data free_fn w)));
             path = CB_PATH @ uint_str E client_cb;
             jbuff = cb_json E code err_msg json
         in stat_inc St_evs_callbacks_sent (protocols_send E c path (Some []) server_cb jbuff w1)))"

definition evs_cb :: "env \<Rightarrow> cid \<Rightarrow> guint64 \<Rightarrow> string option \<Rightarrow> world \<Rightarrow> world" where
  "evs_cb E c client_cb json w = evs_cb_full E c client_cb CODE_OK None json None None None w"

definition evs_cb_with_cb ::
  "env \<Rightarrow> cid \<Rightarrow> guint64 \<Rightarrow> string option \<Rightarrow> cb_ptr option \<Rightarrow> data_ptr option \<Rightarrow> free_ptr option \<Rightarrow>
   world \<Rightarrow> world" where
  "evs_cb_with_cb E c client_cb json fn data free_fn w =
     evs_cb_full E c client_cb CODE_OK None json fn data free_fn w"

definition evs_err_cb ::
  "env \<Rightarrow> cid \<Rightarrow> guint64 \<Rightarrow> guint64 \<Rightarrow> string option \<Rightarrow> string option \<Rightarrow> world \<Rightarrow> world" where
  "evs_err_cb E c client_cb code err_msg json w =
     evs_cb_full E c client_cb code err_msg json None None None w"

definition evs_send_bruteforce ::
  "env \<Rightarrow> cid \<Rightarrow> string option \<Rightarrow> string option \<Rightarrow> string option \<Rightarrow> string option \<Rightarrow>
   cb_ptr option \<Rightarrow> data_ptr option \<Rightarrow> free_ptr option \<Rightarrow> world \<Rightarrow> world" where
  "evs_send_bruteforce E c pre path extra json fn data free_fn w =
     (let (server_cb, w1) = client_cb_new E (Some c) fn data free_fn w
      in stat_inc St_evs_sent
           (protocols_send E c (evs_make_path pre path extra) (Some []) server_cb
             (json_or_null json) w1))"

section \<open>Steps that leave subscriptions alone\<close>

definition calm :: "world \<Rightarrow> world \<Rightarrow> bool" where
  "calm w v \<longleftrightarrow>
     subs_view v = subs_view w \<and> w_events v = w_events w \<and> listed (w_trace v) = listed (w_trace w) \<and>
     (\<forall>c. c_prot (w_clients v c) = c_prot (w_clients w c) \<and>
          c_handshaked (w_clients v c) = c_handshaked (w_clients w c)) \<and>
     (\<forall>c. cbs_wf (w_clients w c) \<longrightarrow> cbs_wf (w_clients v c))"

text \<open>Every client is in a state that the operations expect.\<close>

definition clients_ok :: "world \<Rightarrow> bool" where
  "clients_ok w \<longleftrightarrow>
     (\<forall>c. prot_ok (w_clients w c) \<and> cbs_wf (w_clients w c) \<and> c_subs (w_clients w c) \<noteq> Some [] \<and>
          (c_subs (w_clients w c) \<noteq> None \<longrightarrow> c_prot (w_clients w c) \<noteq> None))"

lemma calm_refl [simp]: "calm w w"
  by (simp add: calm_def)

lemma calm_trans: "calm u v \<Longrightarrow> calm v w \<Longrightarrow> calm u w"
  by (simp add: calm_def)

lemma calm_same_core: "same_core w v \<Longrightarrow> calm w v"
proof -
  assume h: "same_core w v"
  have "c_cbs (w_clients v c) = c_cbs (w_clients w c)" "c_prot (w_clients v c) = c_prot (w_clients w c)"
    "c_handshaked (w_clients v c) = c_handshaked (w_clients w c)" for c
    using h quiet_fields(2-4) [of "w_clients v c" "w_clients w c"] by (simp_all add: same_core_def)
  with h show ?thesis by (simp add: calm_def same_core_def cbs_wf_def)
qed

lemma calm_emit: "quiet_effect e \<Longrightarrow> calm w (emit e w)"
  by (intro calm_same_core same_core_emit)

lemma calm_stat [simp]: "calm w (stat_inc s w)" "calm w (stat_dec s w)"
  by (simp_all add: calm_def)

lemma calm_steps:
  "calm u w \<Longrightarrow> quiet_effect e \<Longrightarrow> calm u (emit e w)"
  "calm u w \<Longrightarrow> calm u (stat_inc s w)"
  "calm u w \<Longrightarrow> calm u (stat_dec s w)"
  by (blast intro: calm_trans calm_emit calm_stat)+

lemma calm_prot: "calm w v \<Longrightarrow> prot_ok (w_clients v c) = prot_ok (w_clients w c)"
  by (simp add: calm_def prot_ok_def)

lemma calm_subs: "calm w v \<Longrightarrow> c_subs (w_clients v c) = c_subs (w_clients w c)"
  unfolding calm_def by (elim conjE) (rule subs_view_eqD(1))

lemma calm_clients_ok: "calm w v \<Longrightarrow> clients_ok w \<Longrightarrow> clients_ok v"
  using calm_prot [of w v] calm_subs [of w v] by (simp add: clients_ok_def calm_def)

lemma calm_wf: "calm w v \<Longrightarrow> subs_wf L v = subs_wf L w"
  unfolding calm_def by (elim conjE) (rule subs_view_wf)

lemma calm_room: "calm w v \<Longrightarrow> sub_room n v = sub_room n w"
  unfolding calm_def by (elim conjE) (rule subs_view_room)

lemma clients_okD:
  assumes "clients_ok w"
  shows "prot_ok (w_clients w c)" "cbs_wf (w_clients w c)" "c_subs (w_clients w c) \<noteq> Some []"
    "c_subs (w_clients w c) \<noteq> None \<Longrightarrow> c_prot (w_clients w c) \<noteq> None"
  using assms by (auto simp: clients_ok_def)

lemma clients_ok_init [simp]: "clients_ok init_world"
  by (simp add: clients_ok_def init_world_def prot_ok_def qev_client_new_def cbs_wf_def)

section \<open>The operations are calm\<close>

lemma listed_cb_data_free [simp]: "listed (w_trace (cb_data_free d f w)) = listed (w_trace w)"
  by (simp add: cb_data_free_def list_step_def split: option.split)

lemma calm_cb_data_free: "calm w (cb_data_free d f w)"
  by (simp add: calm_def)

lemma calm_upd_client:
  "c_subs (f (w_clients w c)) = c_subs (w_clients w c) \<Longrightarrow> c_prot (f (w_clients w c)) = c_prot (w_clients w c) \<Longrightarrow>
   c_handshaked (f (w_clients w c)) = c_handshaked (w_clients w c) \<Longrightarrow>
   (cbs_wf (w_clients w c) \<Longrightarrow> cbs_wf (f (w_clients w c))) \<Longrightarrow> calm w (upd_client c f w)"
  by (simp add: calm_def subs_view_upd_client)

lemma cbs_wf_update:
  "cbs_wf cl \<Longrightarrow> (\<And>cb. s = Some cb \<Longrightarrow> cb_id cb \<noteq> 0) \<Longrightarrow> cbs_wf (cl\<lparr>c_cbs := (c_cbs cl)[i := s]\<rparr>)"
  using set_update_subset_insert [of "c_cbs cl" i s] by (auto simp: cbs_wf_def)

lemma calm_cb_free:
  assumes "c_cbs (w_clients w c) ! i \<noteq> None"
  shows "calm w (cb_free c i w)"
proof -
  from assms obtain cb where cb: "c_cbs (w_clients w c) ! i = Some cb" by auto
  have "calm (cb_data_free (cb_data cb) (cb_free_fn cb) w) (cb_remove c i (cb_data_free (cb_data cb) (cb_free_fn cb) w))"
    unfolding cb_remove_def
    by (rule calm_steps(3), rule calm_upd_client) (auto intro: cbs_wf_update)
  with calm_cb_data_free [of w] show ?thesis by (simp add: cb_free_def cb) (metis calm_trans)
qed

lemma calm_cb_new_none: "calm w (snd (client_cb_new E c None data free_fn w))"
  by (simp add: client_cb_new_def calm_cb_data_free)

lemma calm_cb_new:
  assumes "random_law E" "cbs_wf (w_clients w c)"
  shows "calm w (snd (client_cb_new E (Some c) fn data free_fn w))"
proof (cases fn)
  case None
  then show ?thesis by (simp add: calm_cb_new_none)
next
  case (Some f)
  let ?cbs = "c_cbs (w_clients w c)"
  let ?r = "random_slot E (w_trace w)"
  let ?w1 = "if free_slot ?cbs = length ?cbs
    then stat_inc St_callbacks_evicted (cb_free c ?r (emit (E_random ?r) w)) else w"
  let ?i = "if free_slot ?cbs = length ?cbs then ?r else free_slot ?cbs"
  let ?n = "next_cb_id (c_cbs_id (w_clients ?w1 c))"
  let ?cb = "\<lparr>cb_id = ?n, cb_fn = f, cb_data = data, cb_free_fn = free_fn, cb_created = w_now ?w1\<rparr>"
  let ?w2 = "upd_client c (\<lambda>cl. cl\<lparr>c_cbs_id := ?n, c_cbs := (c_cbs cl)[?i := Some ?cb]\<rparr>) ?w1"
  have e: "snd (client_cb_new E (Some c) fn data free_fn w) =
      stat_inc St_callbacks_created (stat_inc St_callbacks_total ?w2)"
    by (simp add: client_cb_new_def Some Let_def)
  have "calm w ?w1"
  proof (cases "free_slot ?cbs = length ?cbs")
    case True
    have "?r < length ?cbs" using assms by (simp add: random_law_def cbs_wf_def)
    with True have "?cbs ! ?r \<noteq> None" by (rule free_slot_full)
    then have "calm (emit (E_random ?r) w) (cb_free c ?r (emit (E_random ?r) w))"
      by (intro calm_cb_free) simp
    then have "calm w (cb_free c ?r (emit (E_random ?r) w))"
      by (rule calm_trans [OF calm_emit [OF quiet_effects(6)]])
    with True show ?thesis by (simp add: calm_steps)
  next
    case False
    then show ?thesis by simp
  qed
  moreover have "calm ?w1 ?w2"
  proof (rule calm_upd_client)
    assume "cbs_wf (w_clients ?w1 c)"
    then have "cbs_wf ((w_clients ?w1 c)\<lparr>c_cbs := (c_cbs (w_clients ?w1 c))[?i := Some ?cb]\<rparr>)"
      by (rule cbs_wf_update) (auto simp: next_cb_id_nonzero)
    then show "cbs_wf ((\<lambda>cl. cl\<lparr>c_cbs_id := ?n, c_cbs := (c_cbs cl)[?i := Some ?cb]\<rparr>) (w_clients ?w1 c))"
      by (simp add: cbs_wf_def)
  qed simp_all
  ultimately show ?thesis unfolding e by (intro calm_steps) (rule calm_trans)
qed

lemma calm_protocols_send:
  "prot_ok (w_clients w c) \<Longrightarrow> calm w (protocols_send E c path x cb json w)"
  by (intro calm_same_core same_core_protocols_send)

lemma calm_evs_cb_full:
  assumes "random_law E" "clients_ok w"
  shows "calm w (evs_cb_full E c client_cb code err_msg json fn data free_fn w)"
proof -
  have n: "calm w (snd (client_cb_new E None None data free_fn w))" by (rule calm_cb_new_none)
  have m: "calm w (snd (client_cb_new E (Some c) fn data free_fn w))"
    using assms by (intro calm_cb_new) (simp_all add: clients_okD)
  have s: "calm u (protocols_send E c path x cb j u)" if "calm w u" for u path x cb j
    using calm_clients_ok [OF that assms(2)] by (intro calm_protocols_send) (simp add: clients_okD)
  show ?thesis
    unfolding evs_cb_full_def
    using n m by (auto simp: Let_def case_prod_beta intro!: calm_steps intro: calm_trans s)
qed

lemma calm_evs_cb: "random_law E \<Longrightarrow> clients_ok w \<Longrightarrow> calm w (evs_cb E c client_cb json w)"
  unfolding evs_cb_def by (rule calm_evs_cb_full)

lemma calm_evs_err_cb:
  "random_law E \<Longrightarrow> clients_ok w \<Longrightarrow> calm w (evs_err_cb E c client_cb code err_msg json w)"
  unfolding evs_err_cb_def by (rule calm_evs_cb_full)

lemma calm_bruteforce:
  assumes "random_law E" "clients_ok w"
  shows "calm w (evs_send_bruteforce E c pre path extra json fn data free_fn w)"
proof -
  have m: "calm w (snd (client_cb_new E (Some c) fn data free_fn w))"
    using assms by (intro calm_cb_new) (simp_all add: clients_okD)
  have s: "calm w (protocols_send E c path x cb j (snd (client_cb_new E (Some c) fn data free_fn w)))" for path x cb j
    using calm_clients_ok [OF m assms(2)] by (intro calm_trans [OF m] calm_protocols_send) (rule clients_okD)
  show ?thesis
    by (simp add: evs_send_bruteforce_def Let_def case_prod_beta calm_steps s)
qed

section \<open>Callback data and what is written\<close>

lemma custody_same_core: "same_core w v \<Longrightarrow> custody c v = custody c w"
  using quiet_fields(2) [of "w_clients v c" "w_clients w c"]
  by (simp add: same_core_def custody_def slots_def)

lemma custody_cb_data_free [simp]: "custody c (cb_data_free d f w) = custody c w + data_of d f"
  by (simp add: custody_def slots_def ac_simps)

lemma custody_stat [simp]: "custody c (stat_inc s w) = custody c w"
  by (simp add: custody_def slots_def)

lemma custody_cb_new_none: "custody c (snd (client_cb_new E d None data free_fn w)) = custody c w + data_of data free_fn"
  by (simp add: client_cb_new_def)

lemma custody_cb_new:
  assumes "random_law E" "cbs_wf (w_clients w c)"
  shows "custody c (snd (client_cb_new E (Some c) fn data free_fn w)) = custody c w + data_of data free_fn"
proof (cases fn)
  case None
  then show ?thesis by (simp add: custody_cb_new_none)
next
  case (Some f)
  obtain h v where hv: "client_cb_new E (Some c) (Some f) data free_fn w = (h, v)"
    by (cases "client_cb_new E (Some c) (Some f) data free_fn w")
  show ?thesis
    by (rule client_cb_new_spec [OF assms hv]) (simp add: Some hv)
qed

lemma writes_cb_new [simp]: "writes (w_trace (snd (client_cb_new E c fn data free_fn w))) = writes (w_trace w)"
proof -
  have d: "writes (w_trace (cb_data_free d f u)) = writes (w_trace u)" for d f u
    by (simp add: cb_data_free_def split: option.split)
  have "writes (w_trace (cb_free c i u)) = writes (w_trace u)" for c i u
    by (simp add: cb_free_def cb_remove_def d split: option.split)
  then show ?thesis by (auto simp: client_cb_new_def Let_def d split: option.split)
qed

lemma custody_evs_cb_full:
  assumes "random_law E" "clients_ok w"
  shows "custody c (evs_cb_full E c client_cb code err_msg json fn data free_fn w) = custody c w + data_of data free_fn"
proof -
  have n: "custody c (snd (client_cb_new E None None data free_fn w)) = custody c w + data_of data free_fn"
    by (rule custody_cb_new_none)
  have m: "custody c (snd (client_cb_new E (Some c) fn data free_fn w)) = custody c w + data_of data free_fn"
    using assms by (intro custody_cb_new) (simp_all add: clients_okD)
  have s: "custody c (protocols_send E c path x cb j u) = custody c u" if "calm w u" for u path x cb j
    using calm_clients_ok [OF that assms(2)]
    by (intro custody_same_core same_core_protocols_send) (simp add: clients_okD)
  have "calm w (snd (client_cb_new E (Some c) fn data free_fn w))"
    using assms by (intro calm_cb_new) (simp_all add: clients_okD)
  with n m s [OF calm_cb_new_none] s show ?thesis
    by (auto simp: evs_cb_full_def Let_def case_prod_beta)
qed

lemma evs_cb_full_writes:
  assumes "random_law E" "clients_ok w"
    and "v = evs_cb_full E c client_cb code err_msg json fn data free_fn w"
  shows "custody c v = custody c w + data_of data free_fn \<and> calm w v \<and>
    (if client_cb = 0 \<or> \<not> c_handshaked (w_clients w c) then writes (w_trace v) = writes (w_trace w)
     else \<exists>dst bytes server_cb. writes (w_trace v) = writes (w_trace w) @ [(dst, bytes)] \<and>
       (server_cb = EVS_NO_CALLBACK \<or> code = CODE_OK \<and> fn \<noteq> None) \<and>
       sublist (protocol_raw_format E (CB_PATH @ uint_str E client_cb) [] server_cb (cb_json E code err_msg json)) bytes)"
proof -
  have ca: "calm w v" unfolding assms(3) by (rule calm_evs_cb_full [OF assms(1,2)])
  show ?thesis
  proof (cases "client_cb = 0")
    case True
    then have "v = snd (client_cb_new E None None data free_fn w)" by (simp add: assms(3) evs_cb_full_def)
    with ca True show ?thesis by (simp add: custody_cb_new_none)
  next
    case False
    define u where "u = (if code = CODE_OK then snd (client_cb_new E (Some c) fn data free_fn w)
      else snd (client_cb_new E None None data free_fn w))"
    define s where "s = (if code = CODE_OK then fst (client_cb_new E (Some c) fn data free_fn w)
      else EVS_NO_CALLBACK)"
    let ?path = "CB_PATH @ uint_str E client_cb"
    let ?json = "cb_json E code err_msg json"
    have v: "v = stat_inc St_evs_callbacks_sent (protocols_send E c ?path (Some []) s ?json u)"
      using False by (simp add: assms(3) evs_cb_full_def u_def s_def Let_def case_prod_beta)
    have uw: "custody c u = custody c w + data_of data free_fn" "writes (w_trace u) = writes (w_trace w)"
      using assms by (simp_all add: u_def custody_cb_new custody_cb_new_none clients_okD)
    have cu: "calm w u"
      using calm_cb_new [OF assms(1)] calm_cb_new_none assms(2) by (simp add: u_def clients_okD)
    then have ok: "prot_ok (w_clients u c)" "c_handshaked (w_clients u c) = c_handshaked (w_clients w c)"
      using calm_clients_ok [OF cu assms(2)] by (simp_all add: clients_okD calm_def)
    have cv: "custody c v = custody c w + data_of data free_fn"
      using custody_same_core [OF same_core_protocols_send [OF ok(1)]] uw by (simp add: v)
    have s: "s = EVS_NO_CALLBACK \<or> code = CODE_OK \<and> fn \<noteq> None"
      by (cases fn) (simp_all add: s_def client_cb_new_def)
    show ?thesis
    proof (cases "c_handshaked (w_clients w c)")
      case True
      then obtain dst bytes where
        "writes (w_trace (protocols_send E c ?path (Some []) s ?json u)) = writes (w_trace u) @ [(dst, bytes)]"
        "sublist (protocol_raw_format E ?path [] s ?json) bytes"
        using protocols_send_carries [OF ok(1), where E = E and path = ?path and extra = "[]" and cb = s and json = ?json] ok(2)
        by blast
      with True False cv ca s uw show ?thesis by (auto simp: v)
    next
      case False
      with cv ca uw ok show ?thesis by (simp add: v protocols_send_def)
    qed
  qed
qed

section \<open>Property\<close>

text \<open>
  Answering a callback of a client: with id 0 nothing is sent; else a handshaked client gets
  exactly one message, addressed to its callback id and carrying the code, and it names a callback of the server only
  if the code is \<open>CODE_OK\<close> and a function was given. The data of that callback is in every case either
  kept in a slot or freed, and the subscriptions stay as they are.
\<close>

theorem evs_cb_full_answers_once:
  assumes "random_law E" "clients_ok w"
    and "v = evs_cb_full E c client_cb code err_msg json fn data free_fn w"
  shows "custody c v = custody c w + data_of data free_fn \<and> calm w v \<and>
    (if client_cb = 0 \<or> \<not> c_handshaked (w_clients w c) then writes (w_trace v) = writes (w_trace w)
     else \<exists>dst bytes server_cb. writes (w_trace v) = writes (w_trace w) @ [(dst, bytes)] \<and>
       (server_cb = EVS_NO_CALLBACK \<or> code = CODE_OK \<and> fn \<noteq> None) \<and>
       sublist (protocol_raw_format E (CB_PATH @ uint_str E client_cb) [] server_cb (cb_json E code err_msg json)) bytes)"
  using assms by (rule evs_cb_full_writes)

lemma evs_cb_full_answers_once_witness:
  "freed_data (w_trace (evs_cb_full sample_env 1 5 CODE_BAD None None None (Some 3) (Some 4) sample_http_world)) +
   stored_data (slots (evs_cb_full sample_env 1 5 CODE_BAD None None None (Some 3) (Some 4) sample_http_world) 1)
   = {#(4, 3)#}"
proof -
  have c: "clients_ok sample_http_world"
    by (simp add: clients_ok_def sample_http_world_def prot_ok_def init_world_def qev_client_new_def cbs_wf_def)
  have "custody 1 sample_http_world = {#}"
    by (simp add: custody_def slots_def sample_http_world_def qev_client_new_def stored_data_def n_cbs_def
        numeral_eq_Suc slot_data_def freed_data_def effect_data_def)
  with evs_cb_full_answers_once [OF random_law_sample c refl, of 1 5 CODE_BAD None None None "Some 3" "Some 4"]
  show ?thesis by (simp add: custody_def data_of_def ac_simps)
qed

end
