(* ===== verification/Client_Subs.thy ===== *)
theory Client_Subs
  imports Evs_Cb
begin

text \<open>
  The subscriptions of a client (\<open>src/client.c\<close>: \<open>_sub_alloc\<close> to \<open>_sub_remove\<close>, \<open>client_sub_*\<close>,
  \<open>client_closed\<close>, and \<open>evs_client_off\<close> of \<open>src/evs.c\<close>), the key-value data of a client
  (\<open>client_set\<close> to \<open>client_del\<close>), and the abstract state machine of one subscription, which the
  operations refine.
\<close>

section \<open>Operations\<close>

text \<open>\<open>_sub_alloc\<close>: whether quick-event has room for one more subscription of this client.\<close>

definition sub_alloc :: "env \<Rightarrow> cid \<Rightarrow> world \<Rightarrow> bool \<times> world" where
  "sub_alloc E c w =
     (let client_used = (case c_subs (w_clients w c) of None \<Rightarrow> 0 | Some l \<Rightarrow> length l);
          ok = fair_use E (w_trace w) client_used;
          w1 = emit (E_fair_use client_used ok) w
      in (ok, if ok then stat_inc St_client_subs_added w1 else w1))"

definition sub_free :: "world \<Rightarrow> world" where
  "sub_free w = stat_inc St_client_subs_removed (emit E_fair_return w)"

definition csub_get :: "cid \<Rightarrow> sid \<Rightarrow> world \<Rightarrow> client_sub option" where
  "csub_get c sub w =
     (case c_subs (w_clients w c) of None \<Rightarrow> None | Some l \<Rightarrow> map_of l sub)"

text \<open>Writing through the pointer to an entry, \<open>g_hash_table_insert\<close> and \<open>g_hash_table_remove\<close>.\<close>

definition csub_write :: "cid \<Rightarrow> sid \<Rightarrow> (client_sub \<Rightarrow> client_sub) \<Rightarrow> world \<Rightarrow> world" where
  "csub_write c sub f w =
     upd_client c (\<lambda>cl. cl\<lparr>c_subs :=
       map_option (map (\<lambda>(s, cs). (s, if s = sub then f cs else cs))) (c_subs cl)\<rparr>) w"

definition csub_insert :: "cid \<Rightarrow> sid \<Rightarrow> client_sub \<Rightarrow> world \<Rightarrow> world" where
  "csub_insert c sub cs w =
     upd_client c (\<lambda>cl. cl\<lparr>c_subs :=
       Some ((case c_subs cl of None \<Rightarrow> [] | Some l \<Rightarrow> l) @ [(sub, cs)])\<rparr>) w"

definition table_remove :: "sid \<Rightarrow> (sid \<times> client_sub) list option \<Rightarrow> (sid \<times> client_sub) list option" where
  "table_remove sub t = map_option (filter (\<lambda>e. fst e \<noteq> sub)) t"

definition table_null :: "(sid \<times> client_sub) list option \<Rightarrow> (sid \<times> client_sub) list option" where
  "table_null t = (if t = Some [] then None else t)"

definition list_remove :: "sid \<Rightarrow> cid \<Rightarrow> world \<Rightarrow> world" where
  "list_remove sub c w =
     (case w_sub_heap w sub of None \<Rightarrow> fault w | Some _ \<Rightarrow> emit (E_list_remove sub c) w)"

definition evs_client_off :: "env \<Rightarrow> cid \<Rightarrow> sid \<Rightarrow> world \<Rightarrow> world" where
  "evs_client_off E c sub w =
     (case w_sub_heap w sub of
        None \<Rightarrow> fault w
      | Some s \<Rightarrow>
          (case off_fn (sub_ev s) of
             None \<Rightarrow> w
           | Some (Off_app n) \<Rightarrow> app_off E n c (sub_ev_extra s) (emit (E_off n c (sub_ev_extra s)) w)))"

definition sub_cleanup :: "env \<Rightarrow> cid \<Rightarrow> sid \<Rightarrow> bool \<Rightarrow> world \<Rightarrow> world" where
  "sub_cleanup E c sub cleanup_hashtable w =
     (let w1 = list_remove sub c w;
          w2 = evs_client_off E c sub w1;
          w3 = sub_free w2;
          w4 = sub_unref sub w3
      in if cleanup_hashtable
         then upd_client c (\<lambda>cl. cl\<lparr>c_subs := table_null (table_remove sub (c_subs cl))\<rparr>) w4
         else w4)"

definition sub_remove :: "env \<Rightarrow> cid \<Rightarrow> sid \<Rightarrow> bool \<Rightarrow> world \<Rightarrow> bool \<times> world" where
  "sub_remove E c sub rejected w =
     (case csub_get c sub w of
        None \<Rightarrow> (False, w)
      | Some cs \<Rightarrow>
          if \<not> rejected \<and> cs_pending cs
          then (False, csub_write c sub (\<lambda>cs. cs\<lparr>cs_tombstone := True\<rparr>) w)
          else (True, sub_cleanup E c sub True w))"

definition client_sub_active :: "cid \<Rightarrow> sid \<Rightarrow> world \<Rightarrow> bool" where
  "client_sub_active c sub w =
     (case csub_get c sub w of
        None \<Rightarrow> False
      | Some cs \<Rightarrow> \<not> cs_pending cs \<and> \<not> cs_tombstone cs)"

definition client_sub_add :: "env \<Rightarrow> cid \<Rightarrow> sid \<Rightarrow> world \<Rightarrow> client_sub_state \<times> world" where
  "client_sub_add E c sub w =
     (if is_closing E (w_trace w) c then (CLIENT_SUB_NULL, w)
      else case csub_get c sub w of
        Some cs \<Rightarrow>
          (if cs_pending cs then CLIENT_SUB_PENDING else CLIENT_SUB_ACTIVE,
           csub_write c sub (\<lambda>cs. cs\<lparr>cs_tombstone := False\<rparr>) w)
      | None \<Rightarrow>
          (let (ok, w1) = sub_alloc E c w in
           if \<not> ok then (CLIENT_SUB_NULL, w1)
           else (CLIENT_SUB_CREATED,
                 csub_insert c sub \<lparr>cs_pending = True, cs_tombstone = False\<rparr> (sub_ref sub w1))))"

definition client_sub_accept :: "env \<Rightarrow> cid \<Rightarrow> sid \<Rightarrow> world \<Rightarrow> client_sub_state \<times> world" where
  "client_sub_accept E c sub w =
     (case csub_get c sub w of
        None \<Rightarrow> (CLIENT_SUB_NULL, w)
      | Some cs \<Rightarrow>
          if w_sub_heap w sub = None then (CLIENT_SUB_NULL, fault w) else
          (let ok = list_add E (w_trace w) sub c;
               w1 = emit (E_list_add sub c ok) w
           in if \<not> ok then (CLIENT_SUB_NULL, sub_cleanup E c sub True w1)
              else
                (let w2 = csub_write c sub (\<lambda>cs. cs\<lparr>cs_pending := False\<rparr>) w1
                 in if \<not> cs_tombstone cs then (CLIENT_SUB_ACTIVE, w2)
                    else (CLIENT_SUB_TOMBSTONED, sub_cleanup E c sub True w2))))"

definition client_sub_reject :: "env \<Rightarrow> cid \<Rightarrow> sid \<Rightarrow> world \<Rightarrow> world" where
  "client_sub_reject E c sub w = snd (sub_remove E c sub True w)"

definition client_sub_remove :: "env \<Rightarrow> cid \<Rightarrow> sid \<Rightarrow> world \<Rightarrow> bool \<times> world" where
  "client_sub_remove E c sub w = sub_remove E c sub False w"

text \<open>One round of the loop of \<open>client_closed\<close>, and the whole.\<close>

definition closed_round :: "env \<Rightarrow> cid \<Rightarrow> sid \<times> client_sub \<Rightarrow> world \<Rightarrow> world" where
  "closed_round E c e w =
     sub_cleanup E c (fst e) False
       (upd_client c (\<lambda>cl. cl\<lparr>c_subs := table_remove (fst e) (c_subs cl)\<rparr>) w)"

definition client_closed :: "env \<Rightarrow> cid \<Rightarrow> world \<Rightarrow> world" where
  "client_closed E c w =
     (case c_subs (w_clients w c) of
        None \<Rightarrow> w
      | Some l \<Rightarrow> upd_client c (\<lambda>cl. cl\<lparr>c_subs := None\<rparr>) (fold (closed_round E c) l w))"

section \<open>The data of a client\<close>

definition client_set :: "cid \<Rightarrow> nat \<Rightarrow> nat option \<Rightarrow> world \<Rightarrow> world" where
  "client_set c key val w =
     (case val of
        None \<Rightarrow> w
      | Some v \<Rightarrow> upd_client c (\<lambda>cl. cl\<lparr>c_data :=
          Some ((key, v) # filter (\<lambda>e. fst e \<noteq> key) (case c_data cl of None \<Rightarrow> [] | Some l \<Rightarrow> l))\<rparr>) w)"

definition client_get :: "cid \<Rightarrow> nat \<Rightarrow> world \<Rightarrow> nat option" where
  "client_get c key w = (case c_data (w_clients w c) of None \<Rightarrow> None | Some l \<Rightarrow> map_of l key)"

definition client_has :: "cid \<Rightarrow> nat \<Rightarrow> world \<Rightarrow> bool" where
  "client_has c key w = (case c_data (w_clients w c) of None \<Rightarrow> False | Some l \<Rightarrow> key \<in> fst ` set l)"

definition client_del :: "cid \<Rightarrow> nat \<Rightarrow> world \<Rightarrow> world" where
  "client_del c key w =
     (case c_data (w_clients w c) of
        None \<Rightarrow> w
      | Some l \<Rightarrow>
          (let l' = filter (\<lambda>e. fst e \<noteq> key) l
           in upd_client c (\<lambda>cl. cl\<lparr>c_data := if l' = [] then None else Some l'\<rparr>) w))"

section \<open>The invariant\<close>

text \<open>Membership in the list of subscribers is being subscribed and no longer pending.\<close>

definition listed_as :: "client_sub option \<Rightarrow> nat" where
  "listed_as s = (case s of None \<Rightarrow> 0 | Some cs \<Rightarrow> if cs_pending cs then 0 else 1)"

definition lists_ok :: "world \<Rightarrow> bool" where
  "lists_ok w \<longleftrightarrow>
     (\<forall>c sub. listed (w_trace w) (sub, c) = listed_as (csub_get c sub w) \<and>
        (\<forall>cs. csub_get c sub w = Some cs \<longrightarrow> cs_tombstone cs \<longrightarrow> cs_pending cs))"

definition subs_inv :: "(sid \<Rightarrow> nat) \<Rightarrow> world \<Rightarrow> bool" where
  "subs_inv L w \<longleftrightarrow> subs_wf L w \<and> lists_ok w \<and> clients_ok w"

text \<open>What is asked of the off functions of applications.\<close>

definition off_law :: "env \<Rightarrow> bool" where
  "off_law E \<longleftrightarrow> (\<forall>n c x w. calm w (app_off E n c x w))"

lemma off_law_sample: "off_law sample_env"
  by (simp add: off_law_def sample_env_def)

lemma subs_inv_init: "subs_inv (\<lambda>_. 0) init_world"
proof -
  have "lists_ok init_world"
    by (simp add: lists_ok_def csub_get_def init_world_def listed_as_def qev_client_new_def)
  then show ?thesis by (simp add: subs_inv_def subs_wf_init)
qed

lemma csub_get_client_subs: "csub_get c sub w = map_of (client_subs w c) sub"
  by (simp add: csub_get_def client_subs_def split: option.split)

lemma csub_get_Some_holds: "csub_get c sub w \<noteq> None \<longleftrightarrow> c \<in> client_holds w sub"
  by (simp add: csub_get_client_subs client_holds_def map_of_eq_None_iff)

lemma calm_csub_get: "calm w v \<Longrightarrow> csub_get c sub v = csub_get c sub w"
  using calm_subs [of w v c] by (simp add: csub_get_def)

lemma calm_lists_ok: "calm w v \<Longrightarrow> lists_ok v = lists_ok w"
  using calm_csub_get [of w v] by (simp add: lists_ok_def calm_def)

lemma calm_inv: "calm w v \<Longrightarrow> subs_inv L w \<Longrightarrow> subs_inv L v"
  using calm_wf [of w v L] calm_lists_ok [of w v] calm_clients_ok [of w v] by (simp add: subs_inv_def)

section \<open>Moving references between the table of a client and running code\<close>

lemma subs_wf_rebalance:
  assumes "subs_wf L w"
    and same: "w_sub_heap v = w_sub_heap w" "w_ev_subs v = w_ev_subs w" "w_next_sid v = w_next_sid w"
      "w_fault v = w_fault w"
    and fin: "\<And>t. finite (client_holds v t)" and tab: "tables_ok v"
    and sum: "\<And>t. held v t + M t = held w t + L t"
  shows "subs_wf M v"
proof (rule subs_wfI)
  show "\<exists>s. w_sub_heap v sub = Some s \<and> sub_key s = k" if "w_ev_subs v k = Some sub" for k sub
    using that subs_wfD(1) [OF assms(1), of k sub] by (simp add: same)
  show "sub_ok (M sub) v sub s" if "w_sub_heap v sub = Some s" for sub s
    using that subs_wfD(2) [OF assms(1), of sub s] sum [of sub] by (simp add: sub_ok_def same)
  show "held v sub = 0 \<and> M sub = 0" if "w_sub_heap v sub = None" for sub
    using that subs_wfD(3) [OF assms(1), of sub] sum [of sub] by (simp add: same)
  show "\<not> w_fault v" using subs_wfD(6) [OF assms(1)] by (simp add: same)
qed (rule fin tab)+

text \<open>A change of one client's table.\<close>

lemma subs_wf_table:
  assumes "subs_wf L w" "v = upd_client c (\<lambda>cl. cl\<lparr>c_subs := g (c_subs cl)\<rparr>) w"
    and "distinct (map fst (client_subs v c))"
    and "\<And>t. M t + (if t \<in> fst ` set (client_subs v c) then 1 else 0) =
              L t + (if t \<in> fst ` set (client_subs w c) then 1 else 0)"
  shows "subs_wf M v"
proof (rule subs_wf_rebalance [OF assms(1)])
  have o: "client_subs v d = client_subs w d" if "d \<noteq> c" for d
    using that by (simp add: assms(2) client_subs_def)
  have h: "client_holds v t =
      (if t \<in> fst ` set (client_subs v c) then insert c (client_holds w t) else client_holds w t - {c})" for t
  proof (rule set_eqI)
    fix d
    show "d \<in> client_holds v t \<longleftrightarrow> d \<in>
        (if t \<in> fst ` set (client_subs v c) then insert c (client_holds w t) else client_holds w t - {c})"
      using o [of d] by (cases "d = c") (simp_all add: client_holds_def)
  qed
  have f: "finite (client_holds w t)" for t by (rule subs_wfD(4) [OF assms(1)])
  then show "finite (client_holds v t)" for t by (simp add: h)
  have c: "c \<in> client_holds w t \<longleftrightarrow> t \<in> fst ` set (client_subs w c)" for t by (simp add: client_holds_def)
  have e: "card (client_holds v t) + (if t \<in> fst ` set (client_subs w c) then 1 else 0) =
      card (client_holds w t) + (if t \<in> fst ` set (client_subs v c) then 1 else 0)" for t
    using f [of t] card_Suc_Diff1 [OF f, of c t]
    by (cases "c \<in> client_holds w t") (simp_all add: h insert_absorb c [symmetric])
  have b: "bcast_refs v t = bcast_refs w t" for t by (simp add: bcast_refs_def assms(2))
  show "held v t + M t = held w t + L t" for t
    using assms(4) [of t] e [of t] unfolding held_def b by (simp split: if_splits)
  show "tables_ok v"
    using subs_wfD(5) [OF assms(1)] assms(3) o by (metis tables_ok_def)
qed (simp_all add: assms(2))

lemma map_of_table:
  "map_of (map (\<lambda>(s, cs). (s, if s = sub then f cs else cs)) l) t =
   (if t = sub then map_option f (map_of l t) else map_of l t)"
  by (induction l) auto

lemma map_of_filter_key: "map_of (filter (\<lambda>e. fst e \<noteq> sub) l) t = (if t = sub then None else map_of l t)"
  by (induction l) auto

lemma csub_write_get:
  "csub_get d t (csub_write c sub f w) =
   (if d = c \<and> t = sub then map_option f (csub_get c sub w) else csub_get d t w)"
  by (auto simp: csub_get_def csub_write_def map_of_table split: option.split)

lemma csub_insert_get:
  "csub_get c sub w = None \<Longrightarrow>
   csub_get d t (csub_insert c sub cs w) = (if d = c \<and> t = sub then Some cs else csub_get d t w)"
  by (auto simp: csub_get_def csub_insert_def map_add_def split: option.splits)

lemma table_null_remove_get:
  "csub_get d t (upd_client c (\<lambda>cl. cl\<lparr>c_subs := table_null (table_remove sub (c_subs cl))\<rparr>) w) =
   (if d = c \<and> t = sub then None else csub_get d t w)"
  "csub_get d t (upd_client c (\<lambda>cl. cl\<lparr>c_subs := table_remove sub (c_subs cl)\<rparr>) w) =
   (if d = c \<and> t = sub then None else csub_get d t w)"
proof -
  have n: "(case table_null x of None \<Rightarrow> None | Some l \<Rightarrow> map_of l t) =
      (case x of None \<Rightarrow> None | Some l \<Rightarrow> map_of l t)" for x
    by (auto simp: table_null_def split: option.splits)
  have r: "(case table_remove sub x of None \<Rightarrow> None | Some l \<Rightarrow> map_of l t) =
      (if t = sub then None else case x of None \<Rightarrow> None | Some l \<Rightarrow> map_of l t)" for x
    by (simp add: table_remove_def map_of_filter_key split: option.split)
  show "csub_get d t (upd_client c (\<lambda>cl. cl\<lparr>c_subs := table_remove sub (c_subs cl)\<rparr>) w) =
     (if d = c \<and> t = sub then None else csub_get d t w)"
    by (simp add: csub_get_def r)
  show "csub_get d t (upd_client c (\<lambda>cl. cl\<lparr>c_subs := table_null (table_remove sub (c_subs cl))\<rparr>) w) =
     (if d = c \<and> t = sub then None else csub_get d t w)"
    by (simp add: csub_get_def n r)
qed

lemma client_subs_upd:
  "client_subs (upd_client c (\<lambda>cl. cl\<lparr>c_subs := g (c_subs cl)\<rparr>) w) c =
   (case g (c_subs (w_clients w c)) of None \<Rightarrow> [] | Some l \<Rightarrow> l)"
  by (simp add: client_subs_def)

lemma client_subs_null: "(case table_null x of None \<Rightarrow> [] | Some l \<Rightarrow> l) = (case x of None \<Rightarrow> [] | Some l \<Rightarrow> l)"
  by (auto simp: table_null_def split: option.split)

lemma client_subs_remove:
  "(case table_remove sub (c_subs (w_clients w c)) of None \<Rightarrow> [] | Some l \<Rightarrow> l) =
   filter (\<lambda>e. fst e \<noteq> sub) (client_subs w c)"
  by (simp add: table_remove_def client_subs_def split: option.split)

lemma distinct_keys: "subs_wf L w \<Longrightarrow> distinct (map fst (client_subs w c))"
  using subs_wfD(5) [of L w] by (simp add: tables_ok_def)

lemma distinct_map_filter: "distinct (map f xs) \<Longrightarrow> distinct (map f (filter P xs))"
  by (induction xs) auto

lemma subs_wf_remove:
  assumes "subs_wf L w" "csub_get c sub w \<noteq> None"
    and g: "g = table_remove sub \<or> g = table_null \<circ> table_remove sub"
  shows "subs_wf (L(sub := Suc (L sub))) (upd_client c (\<lambda>cl. cl\<lparr>c_subs := g (c_subs cl)\<rparr>) w)"
proof (rule subs_wf_table [OF assms(1) refl])
  let ?v = "upd_client c (\<lambda>cl. cl\<lparr>c_subs := g (c_subs cl)\<rparr>) w"
  have v: "client_subs ?v c = filter (\<lambda>e. fst e \<noteq> sub) (client_subs w c)"
    using g by (auto simp: client_subs_upd client_subs_null client_subs_remove)
  then show "distinct (map fst (client_subs ?v c))"
    using distinct_keys [OF assms(1)] by (simp add: distinct_map_filter)
  have "sub \<in> fst ` set (client_subs w c)"
    using assms(2) by (simp add: csub_get_client_subs map_of_eq_None_iff)
  then show "(L(sub := Suc (L sub))) t + (if t \<in> fst ` set (client_subs ?v c) then 1 else 0) =
      L t + (if t \<in> fst ` set (client_subs w c) then 1 else 0)" for t
    unfolding v by auto
qed

lemma subs_wf_insert:
  assumes "subs_wf (L(sub := Suc (L sub))) w" "csub_get c sub w = None"
  shows "subs_wf L (csub_insert c sub cs w)"
  unfolding csub_insert_def
proof (rule subs_wf_table [OF assms(1), where g = "\<lambda>t. Some ((case t of None \<Rightarrow> [] | Some l \<Rightarrow> l) @ [(sub, cs)])"])
  let ?v = "upd_client c (\<lambda>cl. cl\<lparr>c_subs := Some ((case c_subs cl of None \<Rightarrow> [] | Some l \<Rightarrow> l) @ [(sub, cs)])\<rparr>) w"
  have v: "client_subs ?v c = client_subs w c @ [(sub, cs)]"
    by (simp add: client_subs_def)
  have n: "sub \<notin> fst ` set (client_subs w c)"
    using assms(2) by (simp add: csub_get_client_subs map_of_eq_None_iff)
  show "distinct (map fst (client_subs ?v c))"
    using distinct_keys [OF assms(1)] n by (simp add: v)
  show "L t + (if t \<in> fst ` set (client_subs ?v c) then 1 else 0) =
      (L(sub := Suc (L sub))) t + (if t \<in> fst ` set (client_subs w c) then 1 else 0)" for t
    unfolding v using n by auto
qed simp

lemma subs_wf_write:
  assumes "subs_wf L w"
  shows "subs_wf L (csub_write c sub f w)"
  unfolding csub_write_def
proof (rule subs_wf_table [OF assms,
      where g = "\<lambda>t. map_option (map (\<lambda>(s, cs). (s, if s = sub then f cs else cs))) t"])
  let ?v = "upd_client c (\<lambda>cl. cl\<lparr>c_subs :=
      map_option (map (\<lambda>(s, cs). (s, if s = sub then f cs else cs))) (c_subs cl)\<rparr>) w"
  have v: "map fst (client_subs ?v c) = map fst (client_subs w c)"
    by (simp add: client_subs_def case_prod_beta comp_def split: option.split)
  show "distinct (map fst (client_subs ?v c))"
    using distinct_keys [OF assms] by (simp add: v)
  have "fst ` set (client_subs ?v c) = fst ` set (client_subs w c)"
    using arg_cong [OF v, of set] by simp
  then show "L t + (if t \<in> fst ` set (client_subs ?v c) then 1 else 0) =
      L t + (if t \<in> fst ` set (client_subs w c) then 1 else 0)" for t
    by simp
qed simp

section \<open>Ending a subscription\<close>

text \<open>What all these operations keep of the other clients, and of this one beside the table.\<close>

definition keeps :: "cid \<Rightarrow> world \<Rightarrow> world \<Rightarrow> bool" where
  "keeps c w v \<longleftrightarrow>
     (\<forall>d. c_prot (w_clients v d) = c_prot (w_clients w d) \<and>
          c_handshaked (w_clients v d) = c_handshaked (w_clients w d) \<and>
          (cbs_wf (w_clients w d) \<longrightarrow> cbs_wf (w_clients v d)) \<and>
          (d \<noteq> c \<longrightarrow> c_subs (w_clients v d) = c_subs (w_clients w d))) \<and>
     w_events v = w_events w"

lemma keeps_refl [simp]: "keeps c w w"
  by (simp add: keeps_def)

lemma keeps_trans: "keeps c u v \<Longrightarrow> keeps c v w \<Longrightarrow> keeps c u w"
  by (simp add: keeps_def)

lemma keeps_calm: "calm w v \<Longrightarrow> keeps c w v"
  using calm_subs [of w v] by (simp add: keeps_def calm_def)

lemma keeps_table: "keeps c w (upd_client c (\<lambda>cl. cl\<lparr>c_subs := g (c_subs cl)\<rparr>) w)"
  by (simp add: keeps_def cbs_wf_def)

lemma keeps_frame:
  "w_clients v = w_clients w \<Longrightarrow> w_events v = w_events w \<Longrightarrow> keeps c w v"
  by (simp add: keeps_def)

lemma keeps_clients_ok:
  assumes "keeps c w v" "clients_ok w" "c_subs (w_clients v c) \<noteq> Some []"
    and "c_subs (w_clients v c) \<noteq> None \<Longrightarrow> c_prot (w_clients w c) \<noteq> None"
  shows "clients_ok v"
  unfolding clients_ok_def
proof (intro allI)
  fix d
  from assms(1) have k: "c_prot (w_clients v d) = c_prot (w_clients w d)"
    "c_handshaked (w_clients v d) = c_handshaked (w_clients w d)"
    "cbs_wf (w_clients w d) \<longrightarrow> cbs_wf (w_clients v d)"
    "d \<noteq> c \<Longrightarrow> c_subs (w_clients v d) = c_subs (w_clients w d)"
    by (simp_all add: keeps_def)
  show "prot_ok (w_clients v d) \<and> cbs_wf (w_clients v d) \<and> c_subs (w_clients v d) \<noteq> Some [] \<and>
      (c_subs (w_clients v d) \<noteq> None \<longrightarrow> c_prot (w_clients v d) \<noteq> None)"
    using k clients_okD [OF assms(2), of d] assms(3,4) by (cases "d = c") (auto simp: prot_ok_def)
qed

lemma calm_client_off:
  assumes "off_law E" "w_sub_heap w sub \<noteq> None"
  shows "calm w (evs_client_off E c sub w)"
proof -
  from assms(2) obtain s where s: "w_sub_heap w sub = Some s" by auto
  have "calm w (app_off E n c (sub_ev_extra s) (emit (E_off n c (sub_ev_extra s)) w))" for n
  proof (rule calm_trans)
    show "calm w (emit (E_off n c (sub_ev_extra s)) w)" by (simp add: calm_emit)
  qed (use assms(1) in \<open>simp add: off_law_def\<close>)
  then show ?thesis by (simp add: evs_client_off_def s split: option.split off_ptr.split)
qed

text \<open>\<open>_sub_cleanup\<close> up to giving the reference of the table back.\<close>

definition before_unref :: "env \<Rightarrow> cid \<Rightarrow> sid \<Rightarrow> world \<Rightarrow> world" where
  "before_unref E c sub w = sub_free (evs_client_off E c sub (emit (E_list_remove sub c) w))"

lemma sub_cleanup_eq:
  "w_sub_heap w sub \<noteq> None \<Longrightarrow>
   sub_cleanup E c sub ht w =
     (if ht then upd_client c (\<lambda>cl. cl\<lparr>c_subs := table_null (table_remove sub (c_subs cl))\<rparr>)
              (sub_unref sub (before_unref E c sub w))
      else sub_unref sub (before_unref E c sub w))"
  by (auto simp: sub_cleanup_def before_unref_def list_remove_def Let_def)

lemma before_unref_props:
  assumes "off_law E" "w_sub_heap w sub \<noteq> None"
  shows "subs_view (before_unref E c sub w) = subs_view w"
    and "keeps c w (before_unref E c sub w)"
    and "listed (w_trace (before_unref E c sub w)) = (listed (w_trace w))((sub, c) := listed (w_trace w) (sub, c) - 1)"
    and "c_subs (w_clients (before_unref E c sub w) c) = c_subs (w_clients w c)"
proof -
  let ?w = "emit (E_list_remove sub c) w"
  have c: "calm ?w (before_unref E c sub w)"
    unfolding before_unref_def sub_free_def
    by (intro calm_steps calm_client_off [OF assms(1)]) (use assms(2) in simp_all)
  then show "subs_view (before_unref E c sub w) = subs_view w" by (simp add: calm_def)
  show "keeps c w (before_unref E c sub w)"
    using keeps_calm [OF c, of c] by (rule keeps_trans [rotated]) (simp add: keeps_def)
  show "listed (w_trace (before_unref E c sub w)) = (listed (w_trace w))((sub, c) := listed (w_trace w) (sub, c) - 1)"
    using c by (simp add: calm_def list_step_def)
  show "c_subs (w_clients (before_unref E c sub w) c) = c_subs (w_clients w c)"
    using calm_subs [OF c, of c] by simp
qed

lemma listed_sub_unref [simp]: "listed (w_trace (sub_unref sub w)) = listed (w_trace w)"
  by (simp add: sub_unref_def Let_def list_step_def split: option.split)

lemma keeps_sub_unref: "keeps c w (sub_unref sub w)"
  by (rule keeps_frame) (simp_all add: frame_simps)

lemma csub_get_cong: "w_clients v = w_clients w \<Longrightarrow> csub_get c sub v = csub_get c sub w"
  by (simp add: csub_get_def)

lemma subs_view_csub_get: "subs_view v = subs_view w \<Longrightarrow> csub_get c sub v = csub_get c sub w"
  by (simp add: csub_get_def subs_view_eqD(1) [of v w])

lemma held_heap: "subs_wf L w \<Longrightarrow> csub_get c sub w \<noteq> None \<Longrightarrow> w_sub_heap w sub \<noteq> None"
proof
  assume h: "subs_wf L w" "csub_get c sub w \<noteq> None" "w_sub_heap w sub = None"
  then have "held w sub = 0" "finite (client_holds w sub)" "c \<in> client_holds w sub"
    using subs_wfD(3) [OF h(1,3)] subs_wfD(4) [OF h(1)] csub_get_Some_holds [THEN iffD1, OF h(2)] by auto
  then show False by (simp add: held_def)
qed

text \<open>The whole clean-up, with the table.\<close>

lemma sub_cleanup_table:
  assumes "off_law E" "subs_wf L w" "csub_get c sub w \<noteq> None"
    and "v = sub_cleanup E c sub True w"
  shows "subs_wf L v" "keeps c w v"
    "csub_get d t v = (if d = c \<and> t = sub then None else csub_get d t w)"
    "listed (w_trace v) = (listed (w_trace w))((sub, c) := listed (w_trace w) (sub, c) - 1)"
    "c_subs (w_clients v c) \<noteq> Some []"
    "c_subs (w_clients v c) \<noteq> None \<Longrightarrow> c_subs (w_clients w c) \<noteq> None"
proof -
  note heap = held_heap [OF assms(2,3)]
  note b = before_unref_props [OF assms(1) heap, of c]
  let ?b = "before_unref E c sub w"
  let ?g = "\<lambda>w. upd_client c (\<lambda>cl. cl\<lparr>c_subs := table_null (table_remove sub (c_subs cl))\<rparr>) w"
  have v: "v = ?g (sub_unref sub ?b)" by (simp add: assms(4) sub_cleanup_eq [OF heap])
  have v': "v = sub_unref sub (?g ?b)" by (simp only: v sub_unref_upd_client)
  have "subs_wf (L(sub := Suc (L sub))) (?g ?b)"
    using subs_wf_remove [of L ?b c sub "table_null \<circ> table_remove sub"] assms(2,3)
    by (simp add: subs_view_wf [OF b(1)] subs_view_csub_get [OF b(1)])
  then show "subs_wf L v" unfolding v' by (rule sub.release_own)
  have "keeps c (sub_unref sub ?b) v"
    unfolding v by (rule keeps_table [where g = "\<lambda>t. table_null (table_remove sub t)"])
  with b(2) show "keeps c w v" by (blast intro: keeps_trans keeps_sub_unref)
  show "csub_get d t v = (if d = c \<and> t = sub then None else csub_get d t w)"
    by (simp add: v table_null_remove_get csub_get_cong [of "sub_unref sub ?b" ?b] frame_simps
        subs_view_csub_get [OF b(1)])
  show "listed (w_trace v) = (listed (w_trace w))((sub, c) := listed (w_trace w) (sub, c) - 1)"
    by (simp add: v b(3))
  show "c_subs (w_clients v c) \<noteq> Some []" by (simp add: v table_null_def)
  show "c_subs (w_clients v c) \<noteq> None \<Longrightarrow> c_subs (w_clients w c) \<noteq> None"
    using b(4) by (auto simp: v table_null_def table_remove_def frame_simps split: if_splits)
qed

lemma cleanup_inv:
  assumes "off_law E" "subs_wf L w" "clients_ok w" "csub_get c sub w = Some cs"
    and "listed (w_trace w) (sub, c) \<le> 1"
    and "\<And>d t. (d, t) \<noteq> (c, sub) \<Longrightarrow> listed (w_trace w) (t, d) = listed_as (csub_get d t w) \<and>
        (\<forall>cs. csub_get d t w = Some cs \<longrightarrow> cs_tombstone cs \<longrightarrow> cs_pending cs)"
  shows "subs_inv L (sub_cleanup E c sub True w)"
proof -
  let ?v = "sub_cleanup E c sub True w"
  have n: "csub_get c sub w \<noteq> None" using assms(4) by simp
  note cl = sub_cleanup_table [OF assms(1,2) n refl]
  have "lists_ok ?v"
    unfolding lists_ok_def
  proof (intro allI)
    fix d t
    show "listed (w_trace ?v) (t, d) = listed_as (csub_get d t ?v) \<and>
        (\<forall>cs. csub_get d t ?v = Some cs \<longrightarrow> cs_tombstone cs \<longrightarrow> cs_pending cs)"
      using assms(5) assms(6) [of d t] by (auto simp: cl(3,4) listed_as_def)
  qed
  moreover have "clients_ok ?v"
    using keeps_clients_ok [OF cl(2) assms(3) cl(5)] cl(6) clients_okD(4) [OF assms(3)] by blast
  ultimately show ?thesis using cl(1) by (simp add: subs_inv_def)
qed

section \<open>The abstract machine of one subscription\<close>

definition sub_state :: "world \<Rightarrow> cid \<Rightarrow> sid \<Rightarrow> client_sub_state" where
  "sub_state w c sub =
     (case csub_get c sub w of
        None \<Rightarrow> CLIENT_SUB_NULL
      | Some cs \<Rightarrow> if cs_pending cs then (if cs_tombstone cs then CLIENT_SUB_TOMBSTONED else CLIENT_SUB_PENDING)
                  else CLIENT_SUB_ACTIVE)"

text \<open>
  Absent, pending, tombstoned (to be removed once the pending acceptance comes) and active, with
  what the caller is told. \<open>ok\<close> is the decision of quick-event.
\<close>

fun spec_add :: "bool \<Rightarrow> client_sub_state \<Rightarrow> client_sub_state \<times> client_sub_state" where
  "spec_add ok CLIENT_SUB_PENDING = (CLIENT_SUB_PENDING, CLIENT_SUB_PENDING)"
| "spec_add ok CLIENT_SUB_TOMBSTONED = (CLIENT_SUB_PENDING, CLIENT_SUB_PENDING)"
| "spec_add ok CLIENT_SUB_ACTIVE = (CLIENT_SUB_ACTIVE, CLIENT_SUB_ACTIVE)"
| "spec_add ok _ = (if ok then (CLIENT_SUB_CREATED, CLIENT_SUB_PENDING) else (CLIENT_SUB_NULL, CLIENT_SUB_NULL))"

fun spec_accept :: "bool \<Rightarrow> client_sub_state \<Rightarrow> client_sub_state \<times> client_sub_state" where
  "spec_accept ok CLIENT_SUB_PENDING =
     (if ok then (CLIENT_SUB_ACTIVE, CLIENT_SUB_ACTIVE) else (CLIENT_SUB_NULL, CLIENT_SUB_NULL))"
| "spec_accept ok CLIENT_SUB_TOMBSTONED =
     (if ok then (CLIENT_SUB_TOMBSTONED, CLIENT_SUB_NULL) else (CLIENT_SUB_NULL, CLIENT_SUB_NULL))"
| "spec_accept ok _ = (CLIENT_SUB_NULL, CLIENT_SUB_NULL)"

fun spec_remove :: "client_sub_state \<Rightarrow> bool \<times> client_sub_state" where
  "spec_remove CLIENT_SUB_PENDING = (False, CLIENT_SUB_TOMBSTONED)"
| "spec_remove CLIENT_SUB_TOMBSTONED = (False, CLIENT_SUB_TOMBSTONED)"
| "spec_remove CLIENT_SUB_ACTIVE = (True, CLIENT_SUB_NULL)"
| "spec_remove _ = (False, CLIENT_SUB_NULL)"

definition others_same :: "cid \<Rightarrow> sid \<Rightarrow> world \<Rightarrow> world \<Rightarrow> bool" where
  "others_same c sub w v \<longleftrightarrow> (\<forall>d t. d = c \<and> t = sub \<or> csub_get d t v = csub_get d t w)"

lemma subs_invD:
  assumes "subs_inv L w"
  shows "subs_wf L w" "clients_ok w" "listed (w_trace w) (sub, c) = listed_as (csub_get c sub w)"
    "csub_get c sub w = Some cs \<Longrightarrow> cs_tombstone cs \<Longrightarrow> cs_pending cs"
  using assms by (auto simp: subs_inv_def lists_ok_def)

lemma calm_sub_alloc: "calm w (snd (sub_alloc E c w))"
  by (auto simp: sub_alloc_def Let_def intro!: calm_steps)

lemma csub_write_frame [simp]:
  "w_trace (csub_write c sub f w) = w_trace w" "w_sub_heap (csub_write c sub f w) = w_sub_heap w"
  by (simp_all add: csub_write_def)

lemma keeps_write: "keeps c w (csub_write c sub f w)"
  unfolding csub_write_def
  by (rule keeps_table [where g = "\<lambda>t. map_option (map (\<lambda>(s, cs). (s, if s = sub then f cs else cs))) t"])

lemma write_table:
  "c_subs (w_clients (csub_write c sub f w) c) =
   map_option (map (\<lambda>(s, cs). (s, if s = sub then f cs else cs))) (c_subs (w_clients w c))"
  by (simp add: csub_write_def)

lemma clients_ok_write: "clients_ok w \<Longrightarrow> clients_ok (csub_write c sub f w)"
  using clients_okD(3,4) [of w c]
  by (intro keeps_clients_ok [OF keeps_write]) (auto simp: write_table)

lemma write_inv:
  assumes "subs_inv L w" "csub_get c sub w = Some cs" "cs_pending (f cs) = cs_pending cs"
    "cs_tombstone (f cs) \<Longrightarrow> cs_pending cs"
  shows "subs_inv L (csub_write c sub f w)"
proof -
  have "lists_ok (csub_write c sub f w)"
    unfolding lists_ok_def
  proof (intro allI)
    fix d t
    show "listed (w_trace (csub_write c sub f w)) (t, d) = listed_as (csub_get d t (csub_write c sub f w)) \<and>
      (\<forall>cs. csub_get d t (csub_write c sub f w) = Some cs \<longrightarrow> cs_tombstone cs \<longrightarrow> cs_pending cs)"
      using assms(2-4) subs_invD(3) [OF assms(1), of t d] subs_invD(4) [OF assms(1), of d t]
      by (auto simp: csub_write_get listed_as_def)
  qed
  with subs_wf_write clients_ok_write subs_invD(1,2) [OF assms(1)] show ?thesis
    by (simp add: subs_inv_def)
qed

lemma others_write: "others_same c sub w (csub_write c sub f w)"
  by (auto simp: others_same_def csub_write_get)

lemma insert_inv:
  assumes "subs_inv (L(sub := Suc (L sub))) w" "csub_get c sub w = None"
    and "cs_pending cs" "c_prot (w_clients w c) \<noteq> None"
  shows "subs_inv L (csub_insert c sub cs w)"
proof -
  let ?v = "csub_insert c sub cs w"
  have "lists_ok ?v"
    unfolding lists_ok_def
  proof (intro allI)
    fix d t
    have t: "w_trace ?v = w_trace w" by (simp add: csub_insert_def)
    show "listed (w_trace ?v) (t, d) = listed_as (csub_get d t ?v) \<and>
      (\<forall>cs. csub_get d t ?v = Some cs \<longrightarrow> cs_tombstone cs \<longrightarrow> cs_pending cs)"
      using assms(2,3) subs_invD(3) [OF assms(1), of t d] subs_invD(4) [OF assms(1), of d t]
      by (auto simp: csub_insert_get t listed_as_def)
  qed
  moreover have "keeps c w ?v"
    unfolding csub_insert_def
    by (rule keeps_table [where g = "\<lambda>t. Some ((case t of None \<Rightarrow> [] | Some l \<Rightarrow> l) @ [(sub, cs)])"])
  then have "clients_ok ?v"
    by (rule keeps_clients_ok [OF _ subs_invD(2) [OF assms(1)]])
      (use assms(4) in \<open>simp_all add: csub_insert_def\<close>)
  ultimately show ?thesis
    using subs_wf_insert [OF subs_invD(1) [OF assms(1)] assms(2)] by (simp add: subs_inv_def)
qed

lemma sub_ref_inv:
  assumes "subs_inv L w" "sub_room 1 w" "w_sub_heap w sub \<noteq> None"
  shows "subs_inv (L(sub := Suc (L sub))) (sub_ref sub w)"
proof -
  have "csub_get d t (sub_ref sub w) = csub_get d t w" for d t
    by (rule csub_get_cong) (simp add: frame_simps)
  then have "lists_ok (sub_ref sub w)" "clients_ok (sub_ref sub w)"
    using assms(1) by (simp_all add: subs_inv_def lists_ok_def clients_ok_def frame_simps)
  with sub_ref_wf [OF subs_invD(1) [OF assms(1)] assms(2,3)] show ?thesis by (simp add: subs_inv_def)
qed

lemma sub_unref_inv:
  assumes "subs_inv L w" "L sub \<noteq> 0"
  shows "subs_inv (L(sub := L sub - 1)) (sub_unref sub w)"
proof -
  have "csub_get d t (sub_unref sub w) = csub_get d t w" for d t
    by (rule csub_get_cong) (simp add: frame_simps)
  then have "lists_ok (sub_unref sub w)" "clients_ok (sub_unref sub w)"
    using assms(1) by (simp_all add: subs_inv_def lists_ok_def clients_ok_def frame_simps)
  with sub_unref_wf [OF subs_invD(1) [OF assms(1)] assms(2)] show ?thesis by (simp add: subs_inv_def)
qed

lemma sub_get_inv:
  assumes "subs_inv L w" "sub_room 1 w" "sub_get ev x cr w = (Some sub, v)"
  shows "subs_inv (L(sub := Suc (L sub))) v"
proof -
  have f: "w_clients v = w_clients w" "w_trace v = w_trace w"
    using sub_get_frame(1,4) [of ev x cr w] assms(3) by simp_all
  have "csub_get d t v = csub_get d t w" for d t by (rule csub_get_cong) (rule f)
  then have "lists_ok v" "clients_ok v"
    using assms(1) by (simp_all add: subs_inv_def lists_ok_def clients_ok_def f)
  with sub_get_Some_wf [OF subs_invD(1) [OF assms(1)] assms(2,3)] show ?thesis by (simp add: subs_inv_def)
qed

lemma cleanup_active_inv:
  assumes "off_law E" "subs_inv L w" "csub_get c sub w = Some cs"
  shows "subs_inv L (sub_cleanup E c sub True w)"
  using assms subs_invD [OF assms(2)]
  by (intro cleanup_inv) (auto simp: listed_as_def)

lemma others_cleanup:
  assumes "off_law E" "subs_wf L w" "csub_get c sub w \<noteq> None"
  shows "others_same c sub w (sub_cleanup E c sub True w)"
    "csub_get c sub (sub_cleanup E c sub True w) = None"
  using sub_cleanup_table(3) [OF assms refl] by (auto simp: others_same_def)

section \<open>The operations refine the machine and keep the invariant\<close>

lemma sub_state_simps:
  "sub_state w c sub = CLIENT_SUB_NULL \<longleftrightarrow> csub_get c sub w = None"
  "sub_state w c sub = CLIENT_SUB_ACTIVE \<longleftrightarrow> (\<exists>cs. csub_get c sub w = Some cs \<and> \<not> cs_pending cs)"
  "sub_state w c sub \<noteq> CLIENT_SUB_CREATED"
  by (auto simp: sub_state_def split: option.split)

lemma others_refl [simp]: "others_same c sub w w"
  by (simp add: others_same_def)

lemma others_trans: "others_same c sub u v \<Longrightarrow> others_same c sub v w \<Longrightarrow> others_same c sub u w"
  by (simp add: others_same_def) metis

lemma others_calm: "calm w v \<Longrightarrow> others_same c sub w v"
  using calm_csub_get [of w v] by (simp add: others_same_def)

lemma client_sub_active_state:
  "subs_inv L w \<Longrightarrow> client_sub_active c sub w = (sub_state w c sub = CLIENT_SUB_ACTIVE)"
  using subs_invD(4) [of L w c sub]
  by (auto simp: client_sub_active_def sub_state_def split: option.split)

lemma add_refines:
  assumes "subs_inv L w" "sub_room 1 w" "w_sub_heap w sub \<noteq> None" "c_prot (w_clients w c) \<noteq> None"
    and "client_sub_add E c sub w = (r, v)"
  shows "subs_inv L v \<and> keeps c w v \<and> others_same c sub w v \<and>
    (if is_closing E (w_trace w) c then r = CLIENT_SUB_NULL \<and> v = w
     else (r, sub_state v c sub) = spec_add (fst (sub_alloc E c w)) (sub_state w c sub))"
proof (cases "is_closing E (w_trace w) c")
  case True
  with assms show ?thesis by (simp add: client_sub_add_def)
next
  case live: False
  show ?thesis
  proof (cases "csub_get c sub w")
    case (Some cs)
    let ?v = "csub_write c sub (\<lambda>cs. cs\<lparr>cs_tombstone := False\<rparr>) w"
    from assms(5) live Some have v: "v = ?v"
      "r = (if cs_pending cs then CLIENT_SUB_PENDING else CLIENT_SUB_ACTIVE)"
      by (auto simp: client_sub_add_def)
    have "(r, sub_state v c sub) = spec_add (fst (sub_alloc E c w)) (sub_state w c sub)"
      by (simp add: v sub_state_def csub_write_get Some)
    with live v write_inv [OF assms(1) Some, of "\<lambda>cs. cs\<lparr>cs_tombstone := False\<rparr>"] others_write keeps_write
    show ?thesis by simp
  next
    case None
    obtain ok w1 where al: "sub_alloc E c w = (ok, w1)" by (cases "sub_alloc E c w")
    have c1: "calm w w1" using calm_sub_alloc [of w E c] al by simp
    show ?thesis
    proof (cases ok)
      case False
      with assms(5) live None al have "r = CLIENT_SUB_NULL" "v = w1"
        by (auto simp: client_sub_add_def)
      with live c1 None calm_csub_get [OF c1, of c sub] al False show ?thesis
        by (simp add: calm_inv [OF c1 assms(1)] keeps_calm others_calm sub_state_def)
    next
      case True
      let ?cs = "\<lparr>cs_pending = True, cs_tombstone = False\<rparr>"
      let ?u = "sub_ref sub w1"
      from assms(5) live None al True have v: "r = CLIENT_SUB_CREATED" "v = csub_insert c sub ?cs ?u"
        by (auto simp: client_sub_add_def)
      have h1: "w_sub_heap w1 sub \<noteq> None" "sub_room 1 w1" "c_prot (w_clients w1 c) \<noteq> None"
        using c1 assms(2-4) calm_room [OF c1, of 1] subs_view_eqD(2) [of w1 w] by (simp_all add: calm_def)
      have u: "subs_inv (L(sub := Suc (L sub))) ?u"
        by (rule sub_ref_inv [OF calm_inv [OF c1 assms(1)] h1(2,1)])
      have g: "csub_get d t ?u = csub_get d t w" for d t
        using calm_csub_get [OF c1, of d t] by (simp add: csub_get_def frame_simps)
      have n: "csub_get c sub ?u = None" using None by (simp add: g)
      have "subs_inv L v"
        unfolding v by (rule insert_inv [OF u n]) (use h1 in \<open>simp_all add: frame_simps\<close>)
      moreover have "keeps c w v"
      proof -
        have "keeps c ?u v" unfolding v csub_insert_def
          by (rule keeps_table [where g = "\<lambda>t. Some ((case t of None \<Rightarrow> [] | Some l \<Rightarrow> l) @ [(sub, ?cs)])"])
        moreover have "keeps c w1 ?u" by (rule keeps_frame) (simp_all add: frame_simps)
        ultimately show ?thesis using keeps_calm [OF c1] by (blast intro: keeps_trans)
      qed
      moreover have "others_same c sub w v" by (simp add: others_same_def v csub_insert_get [OF n] g)
      moreover have "sub_state v c sub = CLIENT_SUB_PENDING"
        by (simp add: sub_state_def v csub_insert_get [OF n])
      ultimately show ?thesis using live v None al True by (simp add: sub_state_def)
    qed
  qed
qed

lemma accept_refines:
  assumes "off_law E" "subs_inv L w" "sub_state w c sub \<noteq> CLIENT_SUB_ACTIVE"
    and "client_sub_accept E c sub w = (r, v)"
  shows "subs_inv L v \<and> keeps c w v \<and> others_same c sub w v \<and>
    (r, sub_state v c sub) = spec_accept (list_add E (w_trace w) sub c) (sub_state w c sub)"
proof (cases "csub_get c sub w")
  case None
  with assms(4) have "r = CLIENT_SUB_NULL" "v = w" by (auto simp: client_sub_accept_def)
  with None assms(2) show ?thesis by (simp add: sub_state_def)
next
  case (Some cs)
  note inv = subs_invD [OF assms(2)]
  have n: "csub_get c sub w \<noteq> None" using Some by simp
  have pend: "cs_pending cs" using assms(3) Some by (simp add: sub_state_simps)
  have heap: "w_sub_heap w sub \<noteq> None" by (rule held_heap [OF inv(1) n])
  let ?ok = "list_add E (w_trace w) sub c"
  let ?w1 = "emit (E_list_add sub c ?ok) w"
  let ?w2 = "csub_write c sub (\<lambda>cs. cs\<lparr>cs_pending := False\<rparr>) ?w1"
  have g1: "csub_get d t ?w1 = csub_get d t w" for d t by (rule csub_get_cong) simp
  have z: "listed (w_trace w) (sub, c) = 0" using inv(3) [of sub c] pend Some by (simp add: listed_as_def)
  have o1: "others_same c sub w ?w1" by (simp add: others_same_def g1)
  have k1: "keeps c w ?w1" by (rule keeps_frame) simp_all
  have wf1: "subs_wf L ?w1" "clients_ok ?w1" using inv by (simp_all add: clients_ok_def)
  have oth: "listed (w_trace ?w1) (t, d) = listed_as (csub_get d t w) \<and>
      (\<forall>cs. csub_get d t w = Some cs \<longrightarrow> cs_tombstone cs \<longrightarrow> cs_pending cs)"
    if "(d, t) \<noteq> (c, sub)" for d t
    using that inv(3) [of t d] inv(4) [of d t] by (auto simp: list_step_def)
  show ?thesis
  proof (cases ?ok)
    case False
    with assms(4) Some heap have r: "r = CLIENT_SUB_NULL" "v = sub_cleanup E c sub True ?w1"
      by (auto simp: client_sub_accept_def)
    have "subs_inv L v" unfolding r
      by (rule cleanup_inv [OF assms(1) wf1, where cs = cs])
        (use z False oth Some g1 in \<open>auto simp: list_step_def\<close>)
    moreover have "csub_get c sub ?w1 \<noteq> None" using n by (simp add: g1)
    note cl = sub_cleanup_table [OF assms(1) wf1(1) this refl] others_cleanup [OF assms(1) wf1(1) this]
    have "keeps c w v" "others_same c sub w v" "sub_state v c sub = CLIENT_SUB_NULL"
      using keeps_trans [OF k1 cl(2)] others_trans [OF o1 cl(7)] cl(8) by (simp_all add: r sub_state_simps)
    ultimately show ?thesis using r False pend Some by (simp add: sub_state_def)
  next
    case ok: True
    have g2: "csub_get d t ?w2 =
        (if d = c \<and> t = sub then Some (cs\<lparr>cs_pending := False\<rparr>) else csub_get d t w)" for d t
      using Some by (simp add: csub_write_get g1)
    have wf2: "subs_wf L ?w2" "clients_ok ?w2"
      using wf1 by (simp_all add: subs_wf_write clients_ok_write)
    have o2: "others_same c sub w ?w2" by (auto simp: others_same_def g2)
    have k2: "keeps c w ?w2" by (rule keeps_trans [OF k1 keeps_write])
    have l2: "listed (w_trace ?w2) (sub, c) = 1" using z ok by (simp add: list_step_def)
    show ?thesis
    proof (cases "cs_tombstone cs")
      case False
      with assms(4) Some heap ok have r: "r = CLIENT_SUB_ACTIVE" "v = ?w2"
        by (auto simp: client_sub_accept_def Let_def)
      have "lists_ok v"
        unfolding lists_ok_def
      proof (intro allI)
        fix d t
        show "listed (w_trace v) (t, d) = listed_as (csub_get d t v) \<and>
          (\<forall>cs. csub_get d t v = Some cs \<longrightarrow> cs_tombstone cs \<longrightarrow> cs_pending cs)"
          using oth [of d t] l2 False by (auto simp: r g2 listed_as_def)
      qed
      with wf2 have "subs_inv L v" by (simp add: subs_inv_def r)
      moreover have "sub_state v c sub = CLIENT_SUB_ACTIVE" by (simp add: sub_state_def r g2)
      ultimately show ?thesis using o2 k2 r ok pend False Some by (simp add: sub_state_def)
    next
      case True
      with assms(4) Some heap ok have r: "r = CLIENT_SUB_TOMBSTONED" "v = sub_cleanup E c sub True ?w2"
        by (auto simp: client_sub_accept_def Let_def)
      have "subs_inv L v" unfolding r
        by (rule cleanup_inv [OF assms(1) wf2, where cs = "cs\<lparr>cs_pending := False\<rparr>"])
          (use l2 oth g2 in auto)
      moreover have "csub_get c sub ?w2 \<noteq> None" by (simp add: g2)
      note cl = sub_cleanup_table [OF assms(1) wf2(1) this refl] others_cleanup [OF assms(1) wf2(1) this]
      have "keeps c w v" "others_same c sub w v" "sub_state v c sub = CLIENT_SUB_NULL"
        using keeps_trans [OF k2 cl(2)] others_trans [OF o2 cl(7)] cl(8) by (simp_all add: r sub_state_simps)
      ultimately show ?thesis using r ok pend True Some by (simp add: sub_state_def)
    qed
  qed
qed

lemma sub_remove_refines:
  assumes "off_law E" "subs_inv L w" "sub_remove E c sub rejected w = (r, v)"
  shows "subs_inv L v \<and> keeps c w v \<and> others_same c sub w v \<and>
    (r, sub_state v c sub) =
      (if rejected then (sub_state w c sub \<noteq> CLIENT_SUB_NULL, CLIENT_SUB_NULL)
       else spec_remove (sub_state w c sub))"
proof (cases "csub_get c sub w")
  case None
  with assms(3) have "r = False" "v = w" by (auto simp: sub_remove_def)
  with None assms(2) show ?thesis by (simp add: sub_state_def)
next
  case (Some cs)
  show ?thesis
  proof (cases "\<not> rejected \<and> cs_pending cs")
    case True
    let ?v = "csub_write c sub (\<lambda>cs. cs\<lparr>cs_tombstone := True\<rparr>) w"
    from assms(3) Some True have v: "r = False" "v = ?v" by (auto simp: sub_remove_def)
    have "sub_state v c sub = CLIENT_SUB_TOMBSTONED"
      using True by (simp add: v sub_state_def csub_write_get Some)
    with True v write_inv [OF assms(2) Some, of "\<lambda>cs. cs\<lparr>cs_tombstone := True\<rparr>"] others_write keeps_write Some
    show ?thesis by (simp add: sub_state_def)
  next
    case False
    with assms(3) Some have v: "r = True" "v = sub_cleanup E c sub True w" by (auto simp: sub_remove_def)
    have n: "csub_get c sub w \<noteq> None" using Some by simp
    have wf: "subs_wf L w" using assms(2) by (rule subs_invD)
    note cl = sub_cleanup_table [OF assms(1) wf n refl] others_cleanup [OF assms(1) wf n]
    have "sub_state v c sub = CLIENT_SUB_NULL" using cl(8) by (simp add: v sub_state_simps)
    with cleanup_active_inv [OF assms(1,2) Some] cl(2,7) v False Some show ?thesis
      by (auto simp: sub_state_def)
  qed
qed

section \<open>Closing a client\<close>

lemma closed_round_table:
  assumes "off_law E" "subs_wf L w" "lists_ok w" "c_subs (w_clients w c) = Some ((sub, cs) # l)"
    and "v = closed_round E c (sub, cs) w"
  shows "subs_wf L v \<and> lists_ok v \<and> keeps c w v \<and> c_subs (w_clients v c) = Some l \<and> others_same c sub w v"
proof -
  let ?r = "upd_client c (\<lambda>cl. cl\<lparr>c_subs := table_remove sub (c_subs cl)\<rparr>) w"
  have get: "csub_get c sub w = Some cs" by (simp add: csub_get_def assms(4))
  then have n: "csub_get c sub w \<noteq> None" by simp
  have heap: "w_sub_heap ?r sub \<noteq> None" using held_heap [OF assms(2) n] by simp
  note b = before_unref_props [OF assms(1) heap, of c]
  let ?b = "before_unref E c sub ?r"
  have v: "v = sub_unref sub ?b" using sub_cleanup_eq [OF heap, of E c False] by (simp add: assms(5) closed_round_def)
  have "subs_wf (L(sub := Suc (L sub))) ?r"
    using subs_wf_remove [OF assms(2) n, of "table_remove sub"] by simp
  then have "subs_wf (L(sub := Suc (L sub))) ?b" by (simp add: subs_view_wf [OF b(1)])
  then have wf: "subs_wf L v" unfolding v by (rule sub.release_own)
  have g: "csub_get d t v = (if d = c \<and> t = sub then None else csub_get d t w)" for d t
    by (simp add: v csub_get_cong [of "sub_unref sub ?b" ?b] frame_simps subs_view_csub_get [OF b(1)]
        table_null_remove_get)
  have "lists_ok v"
    unfolding lists_ok_def
  proof (intro allI)
    fix d t
    have o: "listed (w_trace w) (t, d) = listed_as (csub_get d t w) \<and>
        (\<forall>cs. csub_get d t w = Some cs \<longrightarrow> cs_tombstone cs \<longrightarrow> cs_pending cs)"
      using assms(3) by (simp add: lists_ok_def)
    show "listed (w_trace v) (t, d) = listed_as (csub_get d t v) \<and>
        (\<forall>cs. csub_get d t v = Some cs \<longrightarrow> cs_tombstone cs \<longrightarrow> cs_pending cs)"
      using o by (cases "d = c \<and> t = sub") (auto simp: v g [unfolded v] b(3) listed_as_def split: option.splits)
  qed
  moreover have "keeps c w v"
    using keeps_table [of c w "table_remove sub"] b(2) keeps_sub_unref [of c ?b sub]
    unfolding v by (blast intro: keeps_trans)
  moreover have "c_subs (w_clients v c) = Some l"
  proof -
    have "sub \<notin> fst ` set l"
      using distinct_keys [OF assms(2), of c] by (simp add: client_subs_def assms(4))
    then have "filter (\<lambda>e. fst e \<noteq> sub) l = l" by (auto simp: filter_id_conv)
    then have "table_remove sub (Some ((sub, cs) # l)) = Some l" by (simp add: table_remove_def)
    then show ?thesis by (simp add: v frame_simps b(4) assms(4))
  qed
  ultimately show ?thesis using wf g by (simp add: others_same_def)
qed

lemma closed_rounds:
  "off_law E \<Longrightarrow> subs_wf L w \<Longrightarrow> lists_ok w \<Longrightarrow> c_subs (w_clients w c) = Some l \<Longrightarrow>
   subs_wf L (fold (closed_round E c) l w) \<and> lists_ok (fold (closed_round E c) l w) \<and>
   keeps c w (fold (closed_round E c) l w) \<and> c_subs (w_clients (fold (closed_round E c) l w) c) = Some []"
proof (induction l arbitrary: w)
  case Nil
  then show ?case by simp
next
  case (Cons e l)
  obtain sub cs where e: "e = (sub, cs)" by (cases e)
  have r: "c_subs (w_clients w c) = Some ((sub, cs) # l)" using Cons.prems(4) by (simp add: e)
  note st = closed_round_table [OF Cons.prems(1-3) r refl]
  from Cons.IH [OF Cons.prems(1)] st have
    "subs_wf L (fold (closed_round E c) l (closed_round E c (sub, cs) w)) \<and>
     lists_ok (fold (closed_round E c) l (closed_round E c (sub, cs) w)) \<and>
     keeps c (closed_round E c (sub, cs) w) (fold (closed_round E c) l (closed_round E c (sub, cs) w)) \<and>
     c_subs (w_clients (fold (closed_round E c) l (closed_round E c (sub, cs) w)) c) = Some []"
    by blast
  with st show ?case by (auto simp: e intro: keeps_trans)
qed

lemma client_closed_props:
  assumes "off_law E" "subs_inv L w"
  shows "subs_inv L (client_closed E c w) \<and> c_subs (w_clients (client_closed E c w) c) = None \<and>
    keeps c w (client_closed E c w)"
proof (cases "c_subs (w_clients w c)")
  case None
  with assms(2) show ?thesis by (simp add: client_closed_def)
next
  case (Some l)
  let ?u = "fold (closed_round E c) l w"
  let ?v = "upd_client c (\<lambda>cl. cl\<lparr>c_subs := None\<rparr>) ?u"
  have wf: "subs_wf L w" "lists_ok w" "clients_ok w" using assms(2) by (simp_all add: subs_inv_def)
  note u = closed_rounds [OF assms(1) wf(1,2) Some]
  have e: "client_subs ?u c = []" "client_subs ?v c = []" using u by (simp_all add: client_subs_def)
  have "subs_wf L ?v"
  proof (rule subs_wf_table [where g = "\<lambda>_. None" and L = L and w = ?u])
    show "L t + (if t \<in> fst ` set (client_subs ?v c) then 1 else 0) =
        L t + (if t \<in> fst ` set (client_subs ?u c) then 1 else 0)" for t
      by (simp only: e)
    show "distinct (map fst (client_subs ?v c))" by (simp only: e list.map distinct.simps)
  qed (use u in simp_all)
  moreover have k: "keeps c w ?v"
    using u keeps_table [of c ?u "\<lambda>_. None"] by (blast intro: keeps_trans)
  moreover have "lists_ok ?v"
  proof -
    have "csub_get d t ?v = csub_get d t ?u" for d t
      using u by (simp add: csub_get_def)
    with u show ?thesis by (simp add: lists_ok_def)
  qed
  moreover have "clients_ok ?v" by (rule keeps_clients_ok [OF k wf(3)]) simp_all
  ultimately show ?thesis by (simp add: subs_inv_def client_closed_def Some)
qed

section \<open>Properties\<close>

text \<open>
  C7. The operations on the subscription of a client refine the four-state machine: what
  \<open>client_sub_add\<close>, \<open>client_sub_accept\<close>, \<open>client_sub_reject\<close> and \<open>client_sub_remove\<close> answer and the state they
  leave are those of the machine, given quick-event's decisions; an unsubscription that arrives
  while the acceptance is pending is remembered and carried out by the acceptance. No other
  subscription of any client changes. (An acceptance is for a subscription that is not active
  yet.)
\<close>

theorem client_sub_machine:
  assumes "off_law E" "subs_inv L w" "sub_room 1 w" "w_sub_heap w sub \<noteq> None"
    and "c_prot (w_clients w c) \<noteq> None" "\<not> is_closing E (w_trace w) c"
  shows "(case client_sub_add E c sub w of (r, v) \<Rightarrow>
      (r, sub_state v c sub) = spec_add (fst (sub_alloc E c w)) (sub_state w c sub) \<and> others_same c sub w v) \<and>
    (sub_state w c sub \<noteq> CLIENT_SUB_ACTIVE \<longrightarrow> (case client_sub_accept E c sub w of (r, v) \<Rightarrow>
      (r, sub_state v c sub) = spec_accept (list_add E (w_trace w) sub c) (sub_state w c sub) \<and>
      others_same c sub w v)) \<and>
    (case client_sub_remove E c sub w of (r, v) \<Rightarrow>
      (r, sub_state v c sub) = spec_remove (sub_state w c sub) \<and> others_same c sub w v) \<and>
    sub_state (client_sub_reject E c sub w) c sub = CLIENT_SUB_NULL \<and>
    others_same c sub w (client_sub_reject E c sub w) \<and>
    client_sub_active c sub w = (sub_state w c sub = CLIENT_SUB_ACTIVE)"
proof -
  obtain ra va where a: "client_sub_add E c sub w = (ra, va)" by (cases "client_sub_add E c sub w")
  obtain rc vc where c: "client_sub_accept E c sub w = (rc, vc)" by (cases "client_sub_accept E c sub w")
  obtain rr vr where r: "sub_remove E c sub False w = (rr, vr)" by (cases "sub_remove E c sub False w")
  obtain rj vj where j: "sub_remove E c sub True w = (rj, vj)" by (cases "sub_remove E c sub True w")
  show ?thesis
    using add_refines [OF assms(2-5) a] accept_refines [OF assms(1,2) _ c] sub_remove_refines [OF assms(1,2) r]
      sub_remove_refines [OF assms(1,2) j] client_sub_active_state [OF assms(2)] assms(6)
    by (simp add: a c r j client_sub_remove_def client_sub_reject_def)
qed


definition sample_subs_world :: world where
  "sample_subs_world = (let w = init_world\<lparr>w_clients := (\<lambda>c. qev_client_new\<lparr>c_handshaked := True, c_prot := Some P_raw\<rparr>)\<rparr>
     in snd (sub_get (sample_event ''/e'' True) None True w))"

lemma sample_subs_inv: "subs_inv (\<lambda>sub. if sub = 0 then 1 else 0) sample_subs_world"
proof -
  let ?w = "init_world\<lparr>w_clients := (\<lambda>c. qev_client_new\<lparr>c_handshaked := True, c_prot := Some P_raw\<rparr>)\<rparr>"
  have "subs_view ?w = subs_view init_world" by (simp add: subs_view_def init_world_def qev_client_new_def)
  from subs_view_wf [OF this, of "\<lambda>_. 0"] have "subs_wf (\<lambda>_. 0) ?w" using subs_wf_init by simp
  moreover have "lists_ok ?w" "clients_ok ?w"
    by (simp_all add: lists_ok_def csub_get_def init_world_def listed_as_def qev_client_new_def
        clients_ok_def prot_ok_def cbs_wf_def)
  ultimately have i: "subs_inv (\<lambda>_. 0) ?w" by (simp add: subs_inv_def)
  have r: "sub_room 1 ?w" by (simp add: sub_room_def init_world_def)
  have "sub_get (sample_event ''/e'' True) None True ?w = (Some 0, sample_subs_world)"
    by (simp add: sample_subs_world_def sub_get_def get_if_exists_def new_sub_def init_world_def Let_def)
  from sub_get_inv [OF i r this] show ?thesis unfolding fun_upd_def by (simp only: One_nat_def)
qed

lemma sample_subs_facts:
  "sub_room 1 sample_subs_world" "w_sub_heap sample_subs_world 0 \<noteq> None"
  "c_prot (w_clients sample_subs_world c) \<noteq> None" "csub_get c sub sample_subs_world = None"
  by (simp_all add: sample_subs_world_def sub_get_def get_if_exists_def new_sub_def init_world_def Let_def
      sub_room_def csub_get_def qev_client_new_def)

lemma client_sub_machine_witness:
  "fst (client_sub_add sample_env 5 0 sample_subs_world) = CLIENT_SUB_CREATED"
proof -
  have "\<not> is_closing sample_env (w_trace sample_subs_world) 5" by (simp add: sample_env_def)
  from client_sub_machine [OF off_law_sample sample_subs_inv sample_subs_facts(1-3) this]
  show ?thesis
    by (auto simp: sub_state_def sample_subs_facts(4) sub_alloc_def Let_def sample_env_def)
qed


text \<open>
  When a client closes, all its subscriptions end: its table is gone, it is in no list of
  subscribers any more, each reference it held is given back, and every other client keeps
  its subscriptions.
\<close>

theorem client_closed_releases_all:
  assumes "off_law E" "subs_inv L w"
  shows "c_subs (w_clients (client_closed E c w) c) = None \<and>
    (\<forall>sub. listed (w_trace (client_closed E c w)) (sub, c) = 0) \<and>
    (\<forall>sub. c \<notin> client_holds (client_closed E c w) sub) \<and>
    (\<forall>d. d = c \<or> c_subs (w_clients (client_closed E c w) d) = c_subs (w_clients w d)) \<and>
    subs_inv L (client_closed E c w)"
proof -
  let ?v = "client_closed E c w"
  note p = client_closed_props [OF assms, of c]
  have g: "csub_get c sub ?v = None" for sub using p by (simp add: csub_get_def)
  have "listed (w_trace ?v) (sub, c) = 0" for sub
    using p subs_invD(3) [of L ?v sub c] by (simp add: g listed_as_def)
  moreover have "c \<notin> client_holds ?v sub" for sub using g [of sub] csub_get_Some_holds by metis
  ultimately show ?thesis using p by (auto simp: keeps_def)
qed

lemma client_closed_releases_all_witness:
  "c_subs (w_clients (client_closed sample_env 5 (snd (client_sub_add sample_env 5 0 sample_subs_world))) 5) = None"
proof -
  obtain r v where a: "client_sub_add sample_env 5 0 sample_subs_world = (r, v)"
    by (cases "client_sub_add sample_env 5 0 sample_subs_world")
  from add_refines [OF sample_subs_inv sample_subs_facts(1-3) a]
  have "subs_inv (\<lambda>sub. if sub = 0 then 1 else 0) v" by blast
  from client_closed_releases_all [OF off_law_sample this, of 5] show ?thesis by (simp add: a)
qed

text \<open>
  The data table of a client is a map: what was set is found until it is deleted or set again,
  other keys are not affected, and a NULL value is refused.
\<close>

theorem client_data_map:
  "client_get c k (client_set c key (Some v) w) = (if k = key then Some v else client_get c k w) \<and>
   client_set c key None w = w \<and>
   client_get c k (client_del c key w) = (if k = key then None else client_get c k w) \<and>
   client_has c k w = (client_get c k w \<noteq> None) \<and>
   c_data (w_clients (client_set c key (Some v) w) c) \<noteq> Some []"
proof -
  have f: "map_of (filter (\<lambda>e. fst e \<noteq> key) l) k = (if k = key then None else map_of l k)" for l :: "(nat \<times> nat) list"
    by (induction l) auto
  have g: "(case if l = [] then None else Some l of None \<Rightarrow> None | Some m \<Rightarrow> map_of m k) = map_of l k"
    for l :: "(nat \<times> nat) list"
    by simp
  show ?thesis
    by (cases "c_data (w_clients w c)")
      (simp_all add: client_get_def client_set_def client_del_def client_has_def f g Let_def
        map_of_eq_None_iff)
qed

end
