(* ===== verification/Evs_Subs.thy ===== *)
theory Evs_Subs
  imports Client_Subs
begin

text \<open>
  Subscribing and sending to subscribers (\<open>src/evs.c\<close>: \<open>evs_on\<close>, \<open>evs_on_cb\<close>,
  \<open>evs_on_info_copy\<close>, \<open>evs_on_info_free\<close>, \<open>evs_off\<close>, \<open>evs_send*\<close>) and firing a callback of the server
  (\<open>client_cb_fire\<close> of \<open>src/client.c\<close>).
\<close>

section \<open>Firing a callback\<close>

definition call_cb ::
  "env \<Rightarrow> cb_ptr \<Rightarrow> cid \<Rightarrow> data_ptr option \<Rightarrow> guint64 \<Rightarrow> string \<Rightarrow> world \<Rightarrow> evs_status \<times> world" where
  "call_cb E f c data client_cb json w =
     (case f of
        Cb_heartbeat \<Rightarrow> (EVS_STATUS_OK, w)
      | Cb_app n \<Rightarrow> app_cb E n c data client_cb json (emit (E_cb n c data client_cb json) w))"

definition client_cb_fire ::
  "env \<Rightarrow> cid \<Rightarrow> guint64 \<Rightarrow> guint64 \<Rightarrow> string \<Rightarrow> world \<Rightarrow> evs_status \<times> world" where
  "client_cb_fire E c server_cb client_cb json w =
     (let slot = unat (handle_slot server_cb);
          cb_id' = handle_id server_cb;
          not_found = (EVS_STATUS_HANDLED,
            evs_err_cb E c client_cb CODE_NOT_FOUND (Some (''callback doesn'' @ [CHR 0x27] @ ''t exist'')) None w)
      in if n_cbs \<le> slot then not_found
         else case c_cbs (w_clients w c) ! slot of
           None \<Rightarrow> not_found
         | Some cb \<Rightarrow>
             if cb_id cb \<noteq> cb_id' then not_found
             else
               (let (status, w1) = call_cb E (cb_fn cb) c (cb_data cb) client_cb json (cb_remove c slot w)
                in (status, stat_inc St_callbacks_fired (cb_data_free (cb_data cb) (cb_free_fn cb) w1))))"

section \<open>Accepting and rejecting\<close>

definition evs_on_cb :: "env \<Rightarrow> bool \<Rightarrow> on_info \<Rightarrow> world \<Rightarrow> world" where
  "evs_on_cb E success info w =
     (let c = oi_client info; sub = oi_sub info;
          (code, w1) =
            (if success then
               (let (st, a) = client_sub_accept E c sub w
                in (if st = CLIENT_SUB_NULL then CODE_ENHANCE_CALM else CODE_OK, a))
             else
               (case w_sub_heap w sub of
                  None \<Rightarrow> (CODE_OK, fault w)
                | Some s \<Rightarrow>
                    (if handle_children (sub_ev s) then CODE_NOT_FOUND else CODE_UNAUTH,
                     client_sub_reject E c sub w)))
      in evs_err_cb E c (oi_client_cb info) code None None w1)"

definition call_on :: "env \<Rightarrow> on_ptr option \<Rightarrow> on_info \<Rightarrow> world \<Rightarrow> evs_status \<times> world" where
  "call_on E on info w =
     (case on of
        None \<Rightarrow> (EVS_STATUS_OK, w)
      | Some On_no_on \<Rightarrow> (EVS_STATUS_ERR, w)
      | Some (On_app n) \<Rightarrow> app_on E n info (emit (E_on n (oi_client info) (oi_sub info)) w))"

text \<open>The switch of \<open>evs_on\<close> over the outcome of \<open>client_sub_add\<close>.\<close>

definition evs_on_added :: "env \<Rightarrow> event \<Rightarrow> on_info \<Rightarrow> client_sub_state \<Rightarrow> world \<Rightarrow> world" where
  "evs_on_added E ev info st w =
     (let c = oi_client info; client_cb = oi_client_cb info in
      case st of
        CLIENT_SUB_PENDING \<Rightarrow> evs_err_cb E c client_cb CODE_ACCEPTED (Some ''subscription pending'') None w
      | CLIENT_SUB_TOMBSTONED \<Rightarrow> evs_err_cb E c client_cb CODE_ENHANCE_CALM None None w
      | CLIENT_SUB_NULL \<Rightarrow> evs_err_cb E c client_cb CODE_ENHANCE_CALM None None w
      | CLIENT_SUB_ACTIVE \<Rightarrow> evs_cb E c client_cb None w
      | CLIENT_SUB_CREATED \<Rightarrow>
          (let (status, w1) = call_on E (on_fn ev) info w
           in if status \<noteq> EVS_STATUS_HANDLED then evs_on_cb E (status = EVS_STATUS_OK) info w1 else w1))"

definition evs_on ::
  "env \<Rightarrow> cid \<Rightarrow> event \<Rightarrow> string option \<Rightarrow> guint64 \<Rightarrow> string option \<Rightarrow> world \<Rightarrow> world" where
  "evs_on E c ev ev_extra client_cb json w =
     (case sub_get ev ev_extra True w of
        (None, w1) \<Rightarrow> fault w1
      | (Some sub, w1) \<Rightarrow>
          (let info = \<lparr>oi_ev_extra = ev_extra, oi_json = json, oi_sub = sub, oi_client = c,
                       oi_client_cb = client_cb\<rparr>;
               (st, w2) = client_sub_add E c sub w1
           in sub_unref sub (evs_on_added E ev info st w2)))"

definition evs_on_info_copy :: "on_info \<Rightarrow> bool \<Rightarrow> bool \<Rightarrow> world \<Rightarrow> on_info \<times> world" where
  "evs_on_info_copy info with_ev_extra with_json w =
     (info\<lparr>oi_ev_extra := (if with_ev_extra then oi_ev_extra info else None),
           oi_json := (if with_json then oi_json info else None)\<rparr>,
      sub_ref (oi_sub info) (emit (E_ref (oi_client info)) w))"

definition evs_on_info_free :: "on_info \<Rightarrow> world \<Rightarrow> world" where
  "evs_on_info_free info w = sub_unref (oi_sub info) (emit (E_unref (Some (oi_client info))) w)"

definition evs_off :: "env \<Rightarrow> cid \<Rightarrow> event \<Rightarrow> string option \<Rightarrow> world \<Rightarrow> world" where
  "evs_off E c ev ev_extra w =
     (case sub_get ev ev_extra False w of
        (None, w1) \<Rightarrow> w1
      | (Some sub, w1) \<Rightarrow> sub_unref sub (snd (client_sub_remove E c sub w1)))"

section \<open>Sending to one subscriber\<close>

definition evs_send_sub_full ::
  "env \<Rightarrow> cid \<Rightarrow> sid \<Rightarrow> string option \<Rightarrow> cb_ptr option \<Rightarrow> data_ptr option \<Rightarrow> free_ptr option \<Rightarrow>
   world \<Rightarrow> world" where
  "evs_send_sub_full E c sub json fn data free_fn w =
     (if client_sub_active c sub w then
        (let (server_cb, w1) = client_cb_new E (Some c) fn data free_fn w
         in case w_sub_heap w1 sub of
              None \<Rightarrow> fault w1
            | Some s \<Rightarrow>
                stat_inc St_evs_sent
                  (protocols_send E c (ev_path (sub_ev s)) (Some (sub_ev_extra s)) server_cb
                    (json_or_null json) w1))
      else w)"

definition evs_send_full ::
  "env \<Rightarrow> cid \<Rightarrow> event \<Rightarrow> string option \<Rightarrow> string option \<Rightarrow> cb_ptr option \<Rightarrow> data_ptr option \<Rightarrow>
   free_ptr option \<Rightarrow> world \<Rightarrow> world" where
  "evs_send_full E c ev ev_extra json fn data free_fn w =
     (if \<not> handle_children ev \<and> ev_extra \<noteq> None \<and> ev_extra \<noteq> Some [] then w
      else case sub_get ev ev_extra False w of
        (None, w1) \<Rightarrow> w1
      | (Some sub, w1) \<Rightarrow> sub_unref sub (evs_send_sub_full E c sub json fn data free_fn w1))"

definition evs_send_info_full ::
  "env \<Rightarrow> on_info \<Rightarrow> string option \<Rightarrow> cb_ptr option \<Rightarrow> data_ptr option \<Rightarrow> free_ptr option \<Rightarrow>
   world \<Rightarrow> world" where
  "evs_send_info_full E info json fn data free_fn w =
     evs_send_sub_full E (oi_client info) (oi_sub info) json fn data free_fn w"

definition evs_send :: "env \<Rightarrow> cid \<Rightarrow> event \<Rightarrow> string option \<Rightarrow> string option \<Rightarrow> world \<Rightarrow> world" where
  "evs_send E c ev ev_extra json w = evs_send_full E c ev ev_extra json None None None w"

definition evs_send_info :: "env \<Rightarrow> on_info \<Rightarrow> string option \<Rightarrow> world \<Rightarrow> world" where
  "evs_send_info E info json w = evs_send_info_full E info json None None None w"

definition evs_send_sub :: "env \<Rightarrow> cid \<Rightarrow> sid \<Rightarrow> string option \<Rightarrow> world \<Rightarrow> world" where
  "evs_send_sub E c sub json w = evs_send_sub_full E c sub json None None None w"

section \<open>What is asked of applications\<close>

definition cb_law :: "env \<Rightarrow> bool" where
  "cb_law E \<longleftrightarrow> (\<forall>n c data cb j L w. subs_inv L w \<longrightarrow> subs_inv L (snd (app_cb E n c data cb j w)))"

text \<open>
  An on function is called for a subscription that is not active, while the caller holds a
  reference to it. It may do anything that keeps the invariant; if it leaves the decision to the
  caller, the subscription is not active afterwards either.
\<close>

definition on_law :: "env \<Rightarrow> bool" where
  "on_law E \<longleftrightarrow> (\<forall>n info L w. subs_inv L w \<longrightarrow> L (oi_sub info) \<noteq> 0 \<longrightarrow>
     sub_state w (oi_client info) (oi_sub info) \<noteq> CLIENT_SUB_ACTIVE \<longrightarrow>
     subs_inv L (snd (app_on E n info w)) \<and>
     (fst (app_on E n info w) = EVS_STATUS_HANDLED \<or>
      sub_state (snd (app_on E n info w)) (oi_client info) (oi_sub info) \<noteq> CLIENT_SUB_ACTIVE))"

lemma app_laws_sample: "cb_law sample_env" "on_law sample_env"
  by (simp_all add: cb_law_def on_law_def sample_env_def)

section \<open>The invariant\<close>

lemma inv_evs_cb_full:
  "random_law E \<Longrightarrow> subs_inv L w \<Longrightarrow> subs_inv L (evs_cb_full E c cb code err json fn data free_fn w)"
  using calm_evs_cb_full calm_inv subs_invD(2) by blast

lemma inv_evs_err_cb: "random_law E \<Longrightarrow> subs_inv L w \<Longrightarrow> subs_inv L (evs_err_cb E c cb code err json w)"
  unfolding evs_err_cb_def by (rule inv_evs_cb_full)

lemma inv_evs_cb: "random_law E \<Longrightarrow> subs_inv L w \<Longrightarrow> subs_inv L (evs_cb E c cb json w)"
  unfolding evs_cb_def by (rule inv_evs_cb_full)

lemma calm_cb_remove: "calm w (cb_remove c i w)"
  unfolding cb_remove_def
  by (rule calm_steps(3), rule calm_upd_client) (auto intro: cbs_wf_update)

lemma fire_inv:
  assumes "random_law E" "cb_law E" "subs_inv L w"
  shows "subs_inv L (snd (client_cb_fire E c server_cb client_cb json w))"
proof -
  have nf: "subs_inv L (evs_err_cb E c client_cb CODE_NOT_FOUND m None w)" for m
    by (rule inv_evs_err_cb [OF assms(1,3)])
  have r: "subs_inv L (cb_remove c i w)" for i by (rule calm_inv [OF calm_cb_remove assms(3)])
  have e: "subs_inv L u \<Longrightarrow> subs_inv L (emit (E_cb n c d cb j) u)" for u n d cb j
    by (rule calm_inv [OF calm_emit]) simp_all
  have call: "subs_inv L u \<Longrightarrow> subs_inv L (snd (call_cb E f c d client_cb json u))" for f d u
    using assms(2) e by (auto simp: call_cb_def cb_law_def split: cb_ptr.split)
  have f: "subs_inv L u \<Longrightarrow> subs_inv L (stat_inc s (cb_data_free d fr u))" for u s d fr
    by (rule calm_inv [OF calm_steps(2) [OF calm_cb_data_free]])
  show ?thesis
    using nf f [OF call [OF r]]
    by (auto simp: client_cb_fire_def Let_def case_prod_beta split: option.split)
qed

lemma on_cb_inv:
  assumes "random_law E" "off_law E" "subs_inv L w" "L (oi_sub info) \<noteq> 0"
    and "success \<Longrightarrow> sub_state w (oi_client info) (oi_sub info) \<noteq> CLIENT_SUB_ACTIVE"
  shows "subs_inv L (evs_on_cb E success info w)"
proof (cases success)
  case True
  obtain r v where a: "client_sub_accept E (oi_client info) (oi_sub info) w = (r, v)"
    by (cases "client_sub_accept E (oi_client info) (oi_sub info) w")
  with accept_refines [OF assms(2,3) _ a] assms(5) True have "subs_inv L v" by blast
  then show ?thesis using True by (simp add: evs_on_cb_def a Let_def inv_evs_err_cb [OF assms(1)])
next
  case False
  obtain r v where a: "sub_remove E (oi_client info) (oi_sub info) True w = (r, v)"
    by (cases "sub_remove E (oi_client info) (oi_sub info) True w")
  have "subs_inv L v" using sub_remove_refines [OF assms(2,3) a] by blast
  moreover have "w_sub_heap w (oi_sub info) \<noteq> None"
    using assms(4) subs_wfD(3) [OF subs_invD(1) [OF assms(3)], of "oi_sub info"] by auto
  ultimately show ?thesis using False
    by (auto simp: evs_on_cb_def a Let_def client_sub_reject_def inv_evs_err_cb [OF assms(1)])
qed

lemma call_on_inv:
  assumes "on_law E" "subs_inv L w" "call_on E on info w = (st, v)"
    and "sub_state w (oi_client info) (oi_sub info) \<noteq> CLIENT_SUB_ACTIVE" "L (oi_sub info) \<noteq> 0"
  shows "subs_inv L v \<and> (st = EVS_STATUS_HANDLED \<or> sub_state v (oi_client info) (oi_sub info) \<noteq> CLIENT_SUB_ACTIVE)"
proof -
  have u: "subs_inv L (emit (E_on n (oi_client info) (oi_sub info)) w)"
    "sub_state (emit (E_on n (oi_client info) (oi_sub info)) w) d t = sub_state w d t" for n d t
    using calm_inv [OF calm_emit assms(2)] by (simp_all add: sub_state_def csub_get_def)
  show ?thesis
  proof (cases on)
    case None
    with assms show ?thesis by (auto simp: call_on_def)
  next
    case (Some f)
    show ?thesis
    proof (cases f)
      case On_no_on
      with Some assms show ?thesis by (auto simp: call_on_def)
    next
      case (On_app n)
      let ?w = "emit (E_on n (oi_client info) (oi_sub info)) w"
      have e: "app_on E n info ?w = (st, v)" using assms(3) Some On_app by (simp add: call_on_def)
      have "sub_state ?w (oi_client info) (oi_sub info) \<noteq> CLIENT_SUB_ACTIVE" using assms(4) by (simp add: u(2))
      with assms(1,5) u(1) [of n] have "subs_inv L (snd (app_on E n info ?w)) \<and>
         (fst (app_on E n info ?w) = EVS_STATUS_HANDLED \<or>
          sub_state (snd (app_on E n info ?w)) (oi_client info) (oi_sub info) \<noteq> CLIENT_SUB_ACTIVE)"
        unfolding on_law_def by blast
      then show ?thesis by (simp only: e fst_conv snd_conv)
    qed
  qed
qed

lemma on_added_inv:
  assumes "random_law E" "off_law E" "on_law E" "subs_inv L w" "L (oi_sub info) \<noteq> 0"
    and "st = CLIENT_SUB_CREATED \<Longrightarrow> sub_state w (oi_client info) (oi_sub info) \<noteq> CLIENT_SUB_ACTIVE"
  shows "subs_inv L (evs_on_added E ev info st w)"
proof (cases "st = CLIENT_SUB_CREATED")
  case True
  obtain r v where c: "call_on E (on_fn ev) info w = (r, v)" by (cases "call_on E (on_fn ev) info w")
  from call_on_inv [OF assms(3,4) c _ assms(5)] assms(6) True
  have v: "subs_inv L v" "r = EVS_STATUS_HANDLED \<or> sub_state v (oi_client info) (oi_sub info) \<noteq> CLIENT_SUB_ACTIVE"
    by auto
  show ?thesis
  proof (cases "r = EVS_STATUS_HANDLED")
    case True
    with \<open>st = CLIENT_SUB_CREATED\<close> v c show ?thesis by (simp add: evs_on_added_def)
  next
    case False
    with v have "subs_inv L (evs_on_cb E (r = EVS_STATUS_OK) info v)"
      by (intro on_cb_inv) (auto simp: assms(1,2,5))
    with True False c show ?thesis by (simp add: evs_on_added_def)
  qed
next
  case False
  then show ?thesis
    by (cases st) (simp_all add: evs_on_added_def inv_evs_err_cb [OF assms(1,4)] inv_evs_cb [OF assms(1,4)])
qed

lemma sub_room_mono: "sub_room n w \<Longrightarrow> m \<le> n \<Longrightarrow> sub_room m w"
  unfolding sub_room_def by (meson add_le_cancel_left le_less_trans)

lemma sub_get_room:
  assumes "subs_wf L w" "sub_room 2 w" "sub_get ev x cr w = (r, v)"
  shows "sub_room 1 v"
proof -
  have r1: "sub_room 1 w" using assms(2) by (rule sub_room_mono) simp
  let ?x = "case x of None \<Rightarrow> [] | Some x \<Rightarrow> x"
  note g = get_if_exists_wf [OF assms(1) r1, of "ev_path ev" ?x]
  have one: "unat (sub_refs s + 1) + 1 < 2 ^ 32" if "w_sub_heap w t = Some s" for t s
  proof -
    have b: "unat (sub_refs s) + 2 < 2 ^ 32" using assms(2) that unfolding sub_room_def by blast
    then have "unat (sub_refs s + 1) = unat (sub_refs s) + 1" using unat_plus_one32 [of "sub_refs s"] by simp
    with b show ?thesis by simp
  qed
  show ?thesis
  proof (cases "get_if_exists (ev_path ev) ?x w")
    case (Pair q u)
    show ?thesis
    proof (cases q)
      case None
      with Pair g have u: "u = w" by simp
      obtain n t where nt: "new_sub ev ?x w = (n, t)" by (cases "new_sub ev ?x w")
      from Pair None u assms(3) nt have "v = (if cr then t else w)" by (auto simp: sub_get_def Let_def split: if_splits)
      with new_sub_fields(4) [OF nt] r1 show ?thesis by (auto simp: sub_room_def)
    next
      case (Some sub)
      with Pair g obtain s where s: "w_sub_heap w sub = Some s" "u = set_sub sub (s\<lparr>sub_refs := sub_refs s + 1\<rparr>) w"
        by auto
      from Pair Some assms(3) have "v = u" by (auto simp: sub_get_def Let_def)
      with s one [OF s(1)] r1 show ?thesis by (auto simp: sub_room_def)
    qed
  qed
qed

lemma sub_get_alive:
  assumes "subs_wf L w" "sub_room 1 w" "sub_get ev x cr w = (Some sub, v)"
  shows "w_sub_heap v sub \<noteq> None"
  using subs_wfD(3) [OF sub_get_Some_wf [OF assms], of sub] by auto

lemma evs_on_inv:
  assumes laws: "random_law E" "off_law E" "on_law E"
    and "subs_inv L w" "sub_room 2 w" "c_prot (w_clients w c) \<noteq> None"
  shows "subs_inv L (evs_on E c ev extra client_cb json w)"
proof -
  note wf = subs_invD(1) [OF assms(4)]
  have r1: "sub_room 1 w" using assms(5) by (rule sub_room_mono) simp
  obtain r w1 where g: "sub_get ev extra True w = (r, w1)" by (cases "sub_get ev extra True w")
  from sub_get_wf [OF wf r1, where ev = ev and x = extra and or_create = True] g obtain sub where r: "r = Some sub" by (cases r) auto
  note g = g [unfolded r]
  have i1: "subs_inv (L(sub := Suc (L sub))) w1" by (rule sub_get_inv [OF assms(4) r1 g])
  have h1: "sub_room 1 w1" "w_sub_heap w1 sub \<noteq> None" "c_prot (w_clients w1 c) \<noteq> None"
    using sub_get_room [OF wf assms(5) g] sub_get_alive [OF wf r1 g] assms(6)
      sub_get_frame(1) [of ev extra True w] g by simp_all
  obtain st w2 where a: "client_sub_add E c sub w1 = (st, w2)" by (cases "client_sub_add E c sub w1")
  note ad = add_refines [OF i1 h1 a]
  let ?info = "\<lparr>oi_ev_extra = extra, oi_json = json, oi_sub = sub, oi_client = c, oi_client_cb = client_cb\<rparr>"
  have "sub_state w2 c sub \<noteq> CLIENT_SUB_ACTIVE" if "st = CLIENT_SUB_CREATED"
    using ad that by (cases "sub_state w1 c sub") (auto split: if_splits)
  then have "subs_inv (L(sub := Suc (L sub))) (evs_on_added E ev ?info st w2)"
    using ad by (intro on_added_inv [OF laws]) auto
  from sub_unref_inv [OF this, of sub] show ?thesis by (simp add: evs_on_def g a Let_def)
qed

lemma evs_off_inv:
  assumes "off_law E" "subs_inv L w" "sub_room 1 w"
  shows "subs_inv L (evs_off E c ev extra w)"
proof (cases "sub_get ev extra False w")
  case (Pair r w1)
  show ?thesis
  proof (cases r)
    case None
    with sub_get_None_same [OF subs_invD(1) [OF assms(2)] assms(3)] Pair assms(2) show ?thesis
      by (auto simp: evs_off_def)
  next
    case (Some sub)
    with Pair have g: "sub_get ev extra False w = (Some sub, w1)" by simp
    obtain b v where rm: "sub_remove E c sub False w1 = (b, v)" by (cases "sub_remove E c sub False w1")
    have "subs_inv (L(sub := Suc (L sub))) v"
      using sub_remove_refines [OF assms(1) sub_get_inv [OF assms(2,3) g] rm] by blast
    from sub_unref_inv [OF this, of sub] show ?thesis
      by (simp add: evs_off_def g client_sub_remove_def rm)
  qed
qed

section \<open>Properties\<close>

text \<open>
  A subscription request keeps the server's invariant whatever happens in it: the subscription
  exists already, is refused by quick-event, is accepted or rejected by the application at
  once or later, or the application changes other subscriptions meanwhile. The reference that \<open>evs_on\<close>
  takes is given back on every path, and so is the one of \<open>evs_off\<close>.
\<close>

theorem evs_on_off_invariant:
  assumes "random_law E" "off_law E" "on_law E"
    and "subs_inv L w" "sub_room 2 w" "c_prot (w_clients w c) \<noteq> None"
  shows "subs_inv L (evs_on E c ev extra client_cb json w) \<and> subs_inv L (evs_off E c ev extra w)"
  using evs_on_inv [OF assms] evs_off_inv [OF assms(2,4)] sub_room_mono [OF assms(5), of 1] by simp

definition handshaked_world :: world where
  "handshaked_world =
     init_world\<lparr>w_clients := (\<lambda>c. qev_client_new\<lparr>c_handshaked := True, c_prot := Some P_raw\<rparr>)\<rparr>"

lemma handshaked_world_facts:
  "subs_inv (\<lambda>_. 0) handshaked_world" "sub_room n handshaked_world"
  "c_prot (w_clients handshaked_world c) \<noteq> None"
proof -
  have "subs_view handshaked_world = subs_view init_world"
    by (simp add: subs_view_def init_world_def handshaked_world_def qev_client_new_def)
  from subs_view_wf [OF this, of "\<lambda>_. 0"] have "subs_wf (\<lambda>_. 0) handshaked_world" using subs_wf_init by simp
  moreover have "lists_ok handshaked_world" "clients_ok handshaked_world"
    by (simp_all add: lists_ok_def csub_get_def init_world_def listed_as_def qev_client_new_def
        clients_ok_def prot_ok_def cbs_wf_def handshaked_world_def)
  ultimately show "subs_inv (\<lambda>_. 0) handshaked_world" by (simp add: subs_inv_def)
qed (simp_all add: handshaked_world_def sub_room_def init_world_def)

lemma evs_on_off_invariant_witness:
  "subs_inv (\<lambda>_. 0) (evs_on sample_env 5 (sample_event ''/e'' True) (Some ''/x'') 7 None handshaked_world)"
  using evs_on_off_invariant [OF random_law_sample off_law_sample app_laws_sample(2) handshaked_world_facts]
  by blast



text \<open>
  An event for one subscription is sent if and only if that client's subscription is active, as one message
  that carries the path of the event and the extra segments of the subscription. Otherwise the call has
  no effect at all; in particular callback data that was handed over is then neither kept nor freed.
\<close>

theorem evs_send_sub_active_only:
  assumes "random_law E" "subs_inv L w" "c_handshaked (w_clients w c)"
    and "v = evs_send_sub_full E c sub json fn data free_fn w"
  shows "(if sub_state w c sub = CLIENT_SUB_ACTIVE
    then calm w v \<and> custody c v = custody c w + data_of data free_fn \<and>
      (\<exists>s dst bytes server_cb. w_sub_heap w sub = Some s \<and> writes (w_trace v) = writes (w_trace w) @ [(dst, bytes)] \<and>
        sublist (protocol_raw_format E (ev_path (sub_ev s)) (sub_ev_extra s) server_cb (json_or_null json)) bytes)
    else v = w)"
proof (cases "sub_state w c sub = CLIENT_SUB_ACTIVE")
  case False
  with assms(4) client_sub_active_state [OF assms(2), of c sub] show ?thesis
    by (simp add: evs_send_sub_full_def)
next
  case True
  then have act: "client_sub_active c sub w" using client_sub_active_state [OF assms(2), of c sub] by simp
  note inv = subs_invD(1,2) [OF assms(2)]
  obtain h u where hu: "client_cb_new E (Some c) fn data free_fn w = (h, u)"
    by (cases "client_cb_new E (Some c) fn data free_fn w")
  have cu: "calm w u" "custody c u = custody c w + data_of data free_fn" "writes (w_trace u) = writes (w_trace w)"
    using calm_cb_new [OF assms(1) clients_okD(2) [OF inv(2)], of c fn data free_fn]
      custody_cb_new [OF assms(1) clients_okD(2) [OF inv(2)], of c fn data free_fn]
      writes_cb_new [of E "Some c" fn data free_fn w] by (simp_all add: hu)
  have "csub_get c sub w \<noteq> None" using True by (auto simp: sub_state_simps)
  then obtain s where s: "w_sub_heap w sub = Some s" using held_heap [OF inv(1)] by auto
  then have su: "w_sub_heap u sub = Some s" using cu(1) by (simp add: calm_def subs_view_eqD(2) [of u w])
  let ?x = "protocols_send E c (ev_path (sub_ev s)) (Some (sub_ev_extra s)) h (json_or_null json) u"
  have v: "v = stat_inc St_evs_sent ?x" using assms(4) act su by (simp add: evs_send_sub_full_def hu)
  have ok: "prot_ok (w_clients u c)" "c_handshaked (w_clients u c)"
    using clients_okD(1) [OF calm_clients_ok [OF cu(1) inv(2)], of c] cu(1) assms(3) by (simp_all add: calm_def)
  obtain dst bytes where d: "writes (w_trace ?x) = writes (w_trace u) @ [(dst, bytes)]"
    "sublist (protocol_raw_format E (ev_path (sub_ev s)) (sub_ev_extra s) h (json_or_null json)) bytes"
    using protocols_send_carries [OF ok] by blast
  have "calm w v" unfolding v by (intro calm_steps calm_trans [OF cu(1)] calm_protocols_send ok)
  moreover have "custody c v = custody c w + data_of data free_fn"
    using custody_same_core [OF same_core_protocols_send [OF ok(1)]] cu(2) by (simp add: v)
  moreover have "writes (w_trace v) = writes (w_trace w) @ [(dst, bytes)]" using d(1) cu(3) by (simp add: v)
  ultimately show ?thesis using True s d(2) by auto
qed

lemma evs_send_sub_active_only_witness:
  "evs_send_sub_full sample_env 5 3 None None (Some 1) (Some 2) handshaked_world = handshaked_world"
proof -
  have h: "c_handshaked (w_clients handshaked_world 5)" by (simp add: handshaked_world_def)
  have "sub_state handshaked_world 5 3 \<noteq> CLIENT_SUB_ACTIVE"
    by (simp add: sub_state_def csub_get_def handshaked_world_def init_world_def qev_client_new_def)
  with evs_send_sub_active_only [OF random_law_sample handshaked_world_facts(1) h refl, of 3 None None "Some 1" "Some 2"]
  show ?thesis by simp
qed

end
