(* ===== verification/Evs_Route.thy ===== *)
theory Evs_Route
  imports Evs_Subs
begin

text \<open>
  Registration of handlers (\<open>evs_add_handler\<close>), the events of the server itself
  (\<open>src/evs_qio.c\<close>) and the dispatch of an event a client sent (\<open>evs_route\<close>).
\<close>

section \<open>Registration\<close>

text \<open>The tree, and whether an event was created (NULL is returned otherwise).\<close>

definition evs_add_handler ::
  "string option \<Rightarrow> string option \<Rightarrow> handler_ptr option \<Rightarrow> on_ptr option \<Rightarrow> off_ptr option \<Rightarrow> bool \<Rightarrow>
   world \<Rightarrow> bool \<times> world" where
  "evs_add_handler pre path h on off children w =
     (case evs_query_insert (w_events w) (evs_make_path pre path None) h on off children of
        None \<Rightarrow> (False, fault w)
      | Some (ok, t) \<Rightarrow> (ok, w\<lparr>w_events := t\<rparr>))"

text \<open>The registrations of \<open>evs_qio_init\<close>.\<close>

definition evs_qio_init :: "world \<Rightarrow> world" where
  "evs_qio_init w =
     (let add = (\<lambda>path h children w.
            snd (evs_add_handler (Some ''/qio'') (Some path) (Some h) (Some On_no_on) None children w))
      in add ''/ping'' H_ping False
           (add ''/on'' H_on False
             (add ''/off'' H_off False
               (add ''/hostname'' H_hostname False
                 (add ''/callback'' H_callback True w)))))"

section \<open>The handlers of the server\<close>

definition qio_callback ::
  "env \<Rightarrow> cid \<Rightarrow> string \<Rightarrow> guint64 \<Rightarrow> string \<Rightarrow> world \<Rightarrow> evs_status \<times> world" where
  "qio_callback E c ev_extra client_cb json w =
     (let server_cb = (if ev_extra \<noteq> [] \<and> hd ev_extra = CHR ''/'' then fst (strtoull (tl ev_extra))
                       else EVS_NO_CALLBACK)
      in if server_cb = EVS_NO_CALLBACK
         then (EVS_STATUS_HANDLED,
               evs_err_cb E c client_cb CODE_BAD (Some ''invalid server callback id'') None w)
         else client_cb_fire E c server_cb client_cb json w)"

definition qio_hostname :: "env \<Rightarrow> cid \<Rightarrow> guint64 \<Rightarrow> world \<Rightarrow> evs_status \<times> world" where
  "qio_hostname E c client_cb w =
     (EVS_STATUS_HANDLED, evs_cb E c client_cb (Some (json_str E (cfg_public_address E))) w)"

text \<open>The event a cleaned path belongs to, as \<open>_on\<close> and \<open>_off\<close> look it up in place.\<close>

definition query_cleaned :: "string \<Rightarrow> world \<Rightarrow> query_result" where
  "query_cleaned path w = evs_query (w_events w) (cstr (fst (evs_clean_path path)))"

definition qio_on :: "env \<Rightarrow> cid \<Rightarrow> guint64 \<Rightarrow> string \<Rightarrow> world \<Rightarrow> evs_status \<times> world" where
  "qio_on E c client_cb json w =
     (let target =
        (case json of
           [] \<Rightarrow> None
         | ch # rest \<Rightarrow>
             if ch = CHR 0x22 then Some (rest, None)
             else if ch = CHR ''['' then map_option (\<lambda>(p, d). (p, Some d)) (json_unpack_on E json)
             else None)
      in case target of
           None \<Rightarrow>
             (EVS_STATUS_HANDLED, evs_err_cb E c client_cb CODE_BAD (Some ''invalid json ev_path'') None w)
         | Some (path, data) \<Rightarrow>
             (EVS_STATUS_HANDLED,
              (case query_cleaned path w of
                 Q_oob \<Rightarrow> fault w
               | Q_null \<Rightarrow> evs_err_cb E c client_cb CODE_NOT_FOUND None None w
               | Q_found ev ev_extra \<Rightarrow> evs_on E c ev (Some ev_extra) client_cb data w)))"

definition qio_off :: "env \<Rightarrow> cid \<Rightarrow> guint64 \<Rightarrow> string \<Rightarrow> world \<Rightarrow> evs_status \<times> world" where
  "qio_off E c client_cb json w =
     (if json = [] \<or> hd json \<noteq> CHR 0x22 then
        (EVS_STATUS_HANDLED, evs_err_cb E c client_cb CODE_BAD (Some ''invalid json ev_path'') None w)
      else
        (case query_cleaned (tl json) w of
           Q_oob \<Rightarrow> (EVS_STATUS_OK, fault w)
         | Q_null \<Rightarrow> (EVS_STATUS_HANDLED, evs_err_cb E c client_cb CODE_NOT_FOUND None None w)
         | Q_found ev ev_extra \<Rightarrow> (EVS_STATUS_OK, evs_off E c ev (Some ev_extra) w)))"

definition qio_ping :: "world \<Rightarrow> evs_status \<times> world" where
  "qio_ping w = (EVS_STATUS_OK, w)"

definition call_handler ::
  "env \<Rightarrow> handler_ptr \<Rightarrow> cid \<Rightarrow> string \<Rightarrow> guint64 \<Rightarrow> string \<Rightarrow> world \<Rightarrow> evs_status \<times> world" where
  "call_handler E h c ev_extra client_cb json w =
     (case h of
        H_callback \<Rightarrow> qio_callback E c ev_extra client_cb json w
      | H_hostname \<Rightarrow> qio_hostname E c client_cb w
      | H_on \<Rightarrow> qio_on E c client_cb json w
      | H_off \<Rightarrow> qio_off E c client_cb json w
      | H_ping \<Rightarrow> qio_ping w
      | H_app n \<Rightarrow>
          app_handler E n c ev_extra client_cb json (emit (E_handler n c ev_extra client_cb json) w))"

section \<open>Routing\<close>

definition evs_route :: "env \<Rightarrow> cid \<Rightarrow> string \<Rightarrow> guint64 \<Rightarrow> string \<Rightarrow> world \<Rightarrow> world" where
  "evs_route E c path client_cb json w =
     (let (status, code, w1) =
        (case query_cleaned path w of
           Q_oob \<Rightarrow> (EVS_STATUS_HANDLED, CODE_UNKNOWN, fault w)
         | Q_null \<Rightarrow> (EVS_STATUS_ERR, CODE_NOT_FOUND, w)
         | Q_found ev ev_extra \<Rightarrow>
             (let a = stat_inc St_evs_received w in
              case handler_fn ev of
                None \<Rightarrow> (EVS_STATUS_ERR, CODE_UNKNOWN, a)
              | Some h \<Rightarrow>
                  (let (st, b) = call_handler E h c ev_extra client_cb json a
                   in (st, CODE_UNKNOWN, b))))
      in case status of
           EVS_STATUS_OK \<Rightarrow> evs_cb E c client_cb None w1
         | EVS_STATUS_ERR \<Rightarrow> evs_err_cb E c client_cb code None None w1
         | EVS_STATUS_HANDLED \<Rightarrow> w1)"

section \<open>The invariant\<close>

definition handler_law :: "env \<Rightarrow> bool" where
  "handler_law E \<longleftrightarrow> (\<forall>n c x cb j L w. subs_inv L w \<longrightarrow> sub_room 2 w \<longrightarrow> c_prot (w_clients w c) \<noteq> None \<longrightarrow>
     subs_inv L (snd (app_handler E n c x cb j w)))"

text \<open>All that is asked of the environment by the way an event takes through the server.\<close>

definition app_laws :: "env \<Rightarrow> bool" where
  "app_laws E \<longleftrightarrow> random_law E \<and> off_law E \<and> on_law E \<and> cb_law E \<and> handler_law E"

lemma app_laws_sample_env: "app_laws sample_env"
  using random_law_sample off_law_sample app_laws_sample
  by (simp add: app_laws_def handler_law_def sample_env_def)

lemma app_lawsD:
  assumes "app_laws E"
  shows "random_law E" "off_law E" "on_law E" "cb_law E" "handler_law E"
  using assms by (simp_all add: app_laws_def)

lemma query_cleaned_not_oob: "wf_trie (w_events w) \<Longrightarrow> query_cleaned path w \<noteq> Q_oob"
proof -
  assume wf: "wf_trie (w_events w)"
  obtain b n where "evs_clean_path path = (b, n)" by (cases "evs_clean_path path")
  then have "is_clean (cstr (fst (evs_clean_path path)))"
    using evs_clean_path_correct [of path b n] clean_path_is_clean [of "cstr path"] by simp
  then have "\<forall>ch \<in> set (cstr (fst (evs_clean_path path))). in_range ch" using clean_in_range by blast
  then show ?thesis
    by (simp add: query_cleaned_def evs_query_spec [OF wf] reg_query_def split: option.splits)
qed

lemma wf_trie_empty [simp]: "wf_trie empty_trie"
  by (rule trie.inv_emp)

lemma qio_on_inv:
  assumes "app_laws E" "subs_inv L w" "sub_room 2 w" "c_prot (w_clients w c) \<noteq> None" "wf_trie (w_events w)"
  shows "subs_inv L (snd (qio_on E c client_cb json w))"
proof -
  note laws = app_lawsD [OF assms(1)]
  have e: "subs_inv L (evs_err_cb E c client_cb code m None w)" for code m
    by (rule inv_evs_err_cb [OF laws(1) assms(2)])
  have o: "subs_inv L (evs_on E c ev x client_cb data w)" for ev x data
    by (rule evs_on_inv [OF laws(1-3) assms(2-4)])
  have t: "subs_inv L (case query_cleaned path w of Q_oob \<Rightarrow> fault w
      | Q_null \<Rightarrow> evs_err_cb E c client_cb CODE_NOT_FOUND None None w
      | Q_found ev x \<Rightarrow> evs_on E c ev (Some x) client_cb data w)" for path data
    using query_cleaned_not_oob [OF assms(5), of path] e o by (auto split: query_result.split)
  show ?thesis using e t by (simp add: qio_on_def Let_def split: option.split prod.split)
qed

lemma qio_off_inv:
  assumes "app_laws E" "subs_inv L w" "sub_room 2 w" "wf_trie (w_events w)"
  shows "subs_inv L (snd (qio_off E c client_cb json w))"
proof -
  note laws = app_lawsD [OF assms(1)]
  have e: "subs_inv L (evs_err_cb E c client_cb code m None w)" for code m
    by (rule inv_evs_err_cb [OF laws(1) assms(2)])
  have o: "subs_inv L (evs_off E c ev x w)" for ev x
    by (rule evs_off_inv [OF laws(2) assms(2) sub_room_mono [OF assms(3)]]) simp
  show ?thesis
    using query_cleaned_not_oob [OF assms(4), of "tl json"] e o
    by (auto simp: qio_off_def split: query_result.split)
qed

lemma call_handler_inv:
  assumes "app_laws E" "subs_inv L w" "sub_room 2 w" "c_prot (w_clients w c) \<noteq> None" "wf_trie (w_events w)"
  shows "subs_inv L (snd (call_handler E h c extra client_cb json w))"
proof -
  note laws = app_lawsD [OF assms(1)]
  have e: "subs_inv L (evs_err_cb E c client_cb code m None w)" for code m
    by (rule inv_evs_err_cb [OF laws(1) assms(2)])
  show ?thesis
  proof (cases h)
    case H_callback
    then show ?thesis
      using e fire_inv [OF laws(1,4) assms(2)] by (simp add: call_handler_def qio_callback_def Let_def)
  next
    case H_hostname
    then show ?thesis
      using inv_evs_cb [OF laws(1) assms(2)] by (simp add: call_handler_def qio_hostname_def)
  next
    case H_on
    then show ?thesis using qio_on_inv [OF assms] by (simp add: call_handler_def)
  next
    case H_off
    then show ?thesis using qio_off_inv [OF assms(1-3,5)] by (simp add: call_handler_def)
  next
    case H_ping
    then show ?thesis using assms(2) by (simp add: call_handler_def qio_ping_def)
  next
    case (H_app n)
    have "subs_inv L (emit (E_handler n c extra client_cb json) w)"
      by (rule calm_inv [OF calm_emit assms(2)]) simp
    with laws(5) H_app assms(3,4) show ?thesis by (simp add: call_handler_def handler_law_def sub_room_def)
  qed
qed

lemma evs_route_inv:
  assumes "app_laws E" "subs_inv L w" "sub_room 2 w" "c_prot (w_clients w c) \<noteq> None" "wf_trie (w_events w)"
  shows "subs_inv L (evs_route E c path client_cb json w)"
proof -
  note laws = app_lawsD [OF assms(1)]
  have e: "subs_inv L u \<Longrightarrow> subs_inv L (evs_err_cb E c client_cb code m None u)" for code m u
    by (rule inv_evs_err_cb [OF laws(1)])
  have o: "subs_inv L u \<Longrightarrow> subs_inv L (evs_cb E c client_cb m u)" for m u
    by (rule inv_evs_cb [OF laws(1)])
  let ?a = "stat_inc St_evs_received w"
  have a: "subs_inv L ?a" by (rule calm_inv [OF calm_stat(1) assms(2)])
  have h: "subs_inv L (snd (call_handler E h c x client_cb json ?a))" for h x
    by (rule call_handler_inv [OF assms(1) a]) (use assms(3-5) in simp_all)
  show ?thesis
  proof (cases "query_cleaned path w")
    case Q_oob
    with query_cleaned_not_oob [OF assms(5)] show ?thesis by blast
  next
    case Q_null
    with e [OF assms(2)] show ?thesis by (simp add: evs_route_def)
  next
    case (Q_found ev x)
    show ?thesis
    proof (cases "handler_fn ev")
      case None
      with Q_found e [OF a] show ?thesis by (simp add: evs_route_def Let_def)
    next
      case (Some hd)
      with Q_found e [OF h] o [OF h] h [of hd x] show ?thesis
        by (auto simp: evs_route_def Let_def case_prod_beta split: evs_status.split)
    qed
  qed
qed

section \<open>Properties\<close>

text \<open>
  C9. Routing an event of a client keeps the server's invariant, whichever handler it reaches and whatever
  the application does in it within its laws: no access to freed memory, no NULL call, no
  index outside an array, and every reference that was taken on the way is given back.
\<close>

theorem evs_route_invariant:
  assumes "app_laws E" "subs_inv L w" "sub_room 2 w" "c_prot (w_clients w c) \<noteq> None" "wf_trie (w_events w)"
  shows "subs_inv L (evs_route E c path client_cb json w) \<and> \<not> w_fault (evs_route E c path client_cb json w)"
  using evs_route_inv [OF assms] subs_wfD(6) [OF subs_invD(1)] by blast

lemma evs_route_invariant_witness:
  "\<not> w_fault (evs_route sample_env 5 ''/nothing'' 3 ''null'' handshaked_world)"
proof -
  have "wf_trie (w_events handshaked_world)" by (simp add: handshaked_world_def init_world_def)
  from evs_route_invariant [OF app_laws_sample_env handshaked_world_facts this] show ?thesis by blast
qed

definition route_code :: "query_result \<Rightarrow> guint64 option" where
  "route_code q =
     (case q of
        Q_oob \<Rightarrow> None
      | Q_null \<Rightarrow> Some CODE_NOT_FOUND
      | Q_found ev x \<Rightarrow>
          (case handler_fn ev of
             None \<Rightarrow> Some CODE_UNKNOWN
           | Some h \<Rightarrow> if h = H_ping \<or> h = H_hostname then Some CODE_OK else None))"

text \<open>
  C36. What a client is told about an event that no application handles: an unknown path is
  answered with \<open>CODE_NOT_FOUND\<close>, an event without a handler with \<open>CODE_UNKNOWN\<close>, \<open>/qio/ping\<close> and
  \<open>/qio/hostname\<close> with \<open>CODE_OK\<close>; each is one message to the callback the client named, and none if it
  named none. Subscriptions do not change.
\<close>

theorem evs_route_answers:
  assumes "random_law E" "clients_ok w" "c_handshaked (w_clients w c)"
    and "route_code (query_cleaned path w) = Some code"
    and "v = evs_route E c path client_cb json w"
  shows "calm w v \<and>
    (if client_cb = 0 then writes (w_trace v) = writes (w_trace w)
     else \<exists>dst bytes data. writes (w_trace v) = writes (w_trace w) @ [(dst, bytes)] \<and>
       sublist (protocol_raw_format E (CB_PATH @ uint_str E client_cb) [] EVS_NO_CALLBACK (cb_json E code None data)) bytes)"
proof -
  let ?a = "if query_cleaned path w = Q_null then w else stat_inc St_evs_received w"
  obtain data where v: "v = evs_cb_full E c client_cb code None data None None None ?a"
    using assms(4,5)
    by (cases "query_cleaned path w")
      (auto simp: route_code_def evs_route_def call_handler_def qio_hostname_def qio_ping_def evs_cb_def
        evs_err_cb_def Let_def split: option.splits if_splits)
  have a: "calm w ?a" "writes (w_trace ?a) = writes (w_trace w)" by simp_all
  have ok: "clients_ok ?a" "c_handshaked (w_clients ?a c)"
    using calm_clients_ok [OF a(1) assms(2)] assms(3) by simp_all
  note ans = evs_cb_full_writes [OF assms(1) ok(1) v]
  from ans calm_trans [OF a(1)] a(2) ok(2) show ?thesis
    by (auto split: if_splits)
qed

lemma evs_route_answers_witness:
  "calm handshaked_world (evs_route sample_env 5 ''/nothing'' 3 ''null'' handshaked_world)"
proof -
  have h: "c_handshaked (w_clients handshaked_world 5)" "clients_ok handshaked_world"
    using handshaked_world_facts(1) by (simp_all add: subs_inv_def) (simp add: handshaked_world_def)
  have "query_cleaned ''/nothing'' handshaked_world = Q_null"
  proof -
    obtain b n where b: "evs_clean_path ''/nothing'' = (b, n)" by (cases "evs_clean_path ''/nothing''")
    have c: "clean_path ''/nothing'' = ''/nothing''"
      by (rule clean_path_id) (simp add: is_clean_def allowed_iff path_code_def)
    have "cstr (fst (evs_clean_path ''/nothing'')) = ''/nothing''"
      using evs_clean_path_correct [OF b] by (simp add: b c cstr_def)
    then show ?thesis
      by (simp add: query_cleaned_def handshaked_world_def init_world_def empty_trie_def evs_query_def
          skip_slash_def new_node_def child_index_def n_childs_def node_handles_def query_child_def)
  qed
  then have "route_code (query_cleaned ''/nothing'' handshaked_world) = Some CODE_NOT_FOUND"
    by (simp add: route_code_def)
  from evs_route_answers [OF random_law_sample h(2,1) this refl] show ?thesis by blast
qed

end
