(* ===== verification/Protocol_Raw.thy ===== *)
theory Protocol_Raw
  imports Evs_Route
begin

text \<open>
  The raw protocol (\<open>src/protocols_raw.c\<close>): events as \<open>path:callback=json\<close> behind an eight-byte length.
  The read buffer of a client is edited in place the way the code does it; what a handler
  writes into the bytes of an event that is consumed anyway is not kept.
\<close>

section \<open>The types of \<open>src/protocols.h\<close>\<close>

datatype protocol_handles = PROT_YES | PROT_MAYBE | PROT_NO

datatype protocol_status = PROT_OK | PROT_AGAIN | PROT_FATAL

record heartbeat =
  hb_timeout :: int
  hb_poll :: int
  hb_heartbeat :: int
  hb_challenge :: int
  hb_dead :: int

section \<open>Operations\<close>

definition HANDSHAKE :: string where
  "HANDSHAKE = ''/qio/ohai''"

definition rbuff_of :: "cid \<Rightarrow> world \<Rightarrow> string" where
  "rbuff_of c w = c_rbuff (w_clients w c)"

definition set_rbuff :: "cid \<Rightarrow> string \<Rightarrow> world \<Rightarrow> world" where
  "set_rbuff c b w = upd_client c (\<lambda>cl. cl\<lparr>c_rbuff := b\<rparr>) w"

definition qev_close :: "cid \<Rightarrow> close_reason \<Rightarrow> world \<Rightarrow> world" where
  "qev_close c r w = emit (E_close c r) w"

text \<open>\<open>memmove (b + dst, b + src, n)\<close>\<close>

definition memmove :: "nat \<Rightarrow> nat \<Rightarrow> nat \<Rightarrow> string \<Rightarrow> string" where
  "memmove dst src n b = take dst b @ take n (drop src b) @ drop (dst + n) b"

definition protocol_raw_handles :: "cid \<Rightarrow> world \<Rightarrow> protocol_handles" where
  "protocol_raw_handles c w =
     (let str = cstr (rbuff_of c w)
      in if str = HANDSHAKE then PROT_YES
         else if prefix str HANDSHAKE then PROT_MAYBE
         else PROT_NO)"

definition protocol_raw_handshake :: "cid \<Rightarrow> world \<Rightarrow> protocol_status \<times> world" where
  "protocol_raw_handshake c w =
     (PROT_OK, stat_inc St_raw_handshakes (set_rbuff c [] (emit (E_write c HANDSHAKE) w)))"

text \<open>
  \<open>errno\<close> is only written when a conversion overflows, so the code reads what an earlier
  one may have left there (\<open>errno_erange\<close>).
\<close>

definition protocol_raw_handle :: "env \<Rightarrow> cid \<Rightarrow> string \<Rightarrow> world \<Rightarrow> protocol_status \<times> world" where
  "protocol_raw_handle E c event w =
     (let error = (PROT_FATAL, qev_close c RAW_INVALID_EVENT_FORMAT w) in
      case str_split_at (CHR '':'') event of
        None \<Rightarrow> error
      | Some (path, cur) \<Rightarrow>
          (let (client_cb, rest, erange) = strtoull cur in
           if rest = [] \<or> hd rest \<noteq> CHR ''='' \<or> rest = cur \<or>
              (client_cb = - 1 \<and> (erange \<or> errno_erange E (w_trace w)))
           then error
           else (PROT_OK, evs_route E c path client_cb (tl rest) w)))"

definition protocol_raw_route ::
  "env \<Rightarrow> cid \<Rightarrow> nat \<Rightarrow> world \<Rightarrow> protocol_status \<times> nat \<times> world" where
  "protocol_raw_route E c used w =
     (let b = rbuff_of c w;
          rbuff_len = length b - used
      in if rbuff_len < 8 then (PROT_AGAIN, used, w)
         else
           (let len = (word_of_nat (be_value (take 8 (drop used b))) :: guint64) in
            case safe_uadd E len 8 of
              None \<Rightarrow> (PROT_FATAL, used, w)
            | Some total_len \<Rightarrow>
                if rbuff_len < unat total_len then (PROT_AGAIN, used, w)
                else
                  (let b1 = memmove used (used + 8) (unat len) b;
                       b2 = b1[used + unat len := NUL];
                       (status, w1) = protocol_raw_handle E c (cstr (drop used b2)) (set_rbuff c b2 w)
                   in (status, used + unat total_len, w1))))"

definition protocol_raw_do_heartbeat :: "env \<Rightarrow> cid \<Rightarrow> heartbeat \<Rightarrow> string \<Rightarrow> world \<Rightarrow> world" where
  "protocol_raw_do_heartbeat E c hb frame w =
     (let cl = w_clients w c in
      if c_last_recv cl < hb_dead hb then qev_close c RAW_HEARTATTACK w
      else if c_last_recv cl < hb_challenge hb then
        evs_send_bruteforce E c (Some ''/qio'') (Some ''/heartbeat'') None None
          (Some Cb_heartbeat) None None w
      else if c_last_send cl < hb_heartbeat hb then touch_send c (emit (E_write c frame) w)
      else w)"

definition protocol_raw_heartbeat :: "env \<Rightarrow> cid \<Rightarrow> heartbeat \<Rightarrow> world \<Rightarrow> world" where
  "protocol_raw_heartbeat E c hb w = protocol_raw_do_heartbeat E c hb RAW_HEARTBEAT w"

definition protocol_raw_check_handshake :: "cid \<Rightarrow> world \<Rightarrow> bool \<times> world" where
  "protocol_raw_check_handshake c w = (cstr (rbuff_of c w) = HANDSHAKE, set_rbuff c [] w)"

section \<open>What the operations leave alone\<close>

lemma calm_rbuff: "calm w (set_rbuff c b w)"
  unfolding set_rbuff_def by (rule calm_upd_client) (simp_all add: cbs_wf_def)

lemma calm_close: "calm w (qev_close c r w)"
  unfolding qev_close_def by (rule calm_emit) simp

lemma set_rbuff_frame [simp]:
  "w_events (set_rbuff c b w) = w_events w" "w_trace (set_rbuff c b w) = w_trace w"
  "rbuff_of c (set_rbuff c b w) = b" "w_stats (set_rbuff c b w) = w_stats w"
  by (simp_all add: set_rbuff_def rbuff_of_def)

text \<open>What every step of a protocol needs to keep the invariant.\<close>

definition ready :: "(sid \<Rightarrow> nat) \<Rightarrow> cid \<Rightarrow> world \<Rightarrow> bool" where
  "ready L c w \<longleftrightarrow> subs_inv L w \<and> sub_room 2 w \<and> c_prot (w_clients w c) \<noteq> None \<and> wf_trie (w_events w)"

lemma ready_calm: "calm w v \<Longrightarrow> ready L c w \<Longrightarrow> ready L c v"
  using calm_inv [of w v L] calm_room [of w v 2] by (simp add: ready_def calm_def)

lemma raw_handle_inv:
  assumes "app_laws E" "ready L c w"
  shows "subs_inv L (snd (protocol_raw_handle E c event w))"
proof -
  have f: "subs_inv L (qev_close c r w)" for r
    using calm_inv [OF calm_close] assms(2) by (simp add: ready_def)
  have r: "subs_inv L (evs_route E c path cb j w)" for path cb j
    using assms by (intro evs_route_inv) (simp_all add: ready_def)
  show ?thesis
    using f r by (simp add: protocol_raw_handle_def Let_def split: option.split prod.split)
qed

lemma raw_route_inv:
  assumes "app_laws E" "ready L c w"
  shows "subs_inv L (snd (snd (protocol_raw_route E c used w)))"
proof -
  have h: "subs_inv L (snd (protocol_raw_handle E c ev (set_rbuff c b w)))" for ev b
    by (rule raw_handle_inv [OF assms(1) ready_calm [OF calm_rbuff assms(2)]])
  have i: "subs_inv L w" using assms(2) by (simp add: ready_def)
  show ?thesis
    using h i by (simp add: protocol_raw_route_def Let_def case_prod_beta split: option.split)
qed

section \<open>Parsing\<close>

text \<open>The text of an event is parsed back into its parts.\<close>

lemma raw_handle_format:
  assumes "uint_str_law (uint_str E)" "CHR '':'' \<notin> set (path @ extra)"
    and "cb \<noteq> - 1 \<or> \<not> errno_erange E (w_trace w)"
  shows "protocol_raw_handle E c (protocol_raw_format E path extra cb json) w =
    (PROT_OK, evs_route E c (path @ extra) cb json w)"
proof -
  let ?d = "dec_str (unat cb)"
  have f: "protocol_raw_format E path extra cb json = (path @ extra) @ CHR '':'' # ?d @ CHR ''='' # json"
    using assms(1) by (simp add: protocol_raw_format_def uint_str_law_def)
  have "unat cb < 2 ^ 64" using unsigned_less [of cb, where 'a = nat] by simp
  then have s: "strtoull (?d @ CHR ''='' # json) = (cb, CHR ''='' # json, False)"
    by (subst strtoull_dec_str) (simp_all add: is_digit_def)
  have "CHR ''='' # json \<noteq> ?d @ CHR ''='' # json" using dec_str_nonempty [of "unat cb"] by auto
  with assms(3) show ?thesis
    unfolding f protocol_raw_handle_def str_split_at_append [OF assms(2)] option.case prod.case Let_def s
    by auto
qed

lemma raw_handle_no_colon:
  "CHR '':'' \<notin> set event \<Longrightarrow>
   protocol_raw_handle E c event w = (PROT_FATAL, qev_close c RAW_INVALID_EVENT_FORMAT w)"
  by (simp add: protocol_raw_handle_def str_split_at_None [symmetric] Let_def)

section \<open>Cutting the stream\<close>

lemma cstr_before_NUL: "cstr (s @ NUL # r) = cstr s"
  by (induction s) (simp_all add: cstr_def)

lemma memmove_drop:
  assumes "used + 8 + n \<le> length b"
  shows "take n (drop used ((memmove used (used + 8) n b)[used + n := NUL])) = take n (drop (used + 8) b)"
    and "cstr (drop used ((memmove used (used + 8) n b)[used + n := NUL])) = cstr (take n (drop (used + 8) b))"
proof -
  let ?m = "take n (drop (used + 8) b)"
  have l: "length ?m = n" "length (take used b) = used" using assms by simp_all
  obtain x r where r: "drop (used + n) b = x # r" using assms by (cases "drop (used + n) b") auto
  have e: "(memmove used (used + 8) n b)[used + n := NUL] = take used b @ ?m @ NUL # r"
    using l by (simp add: memmove_def r list_update_append)
  have d: "drop used (take used b @ ?m @ NUL # r) = ?m @ NUL # r" using l(2) by simp
  show "take n (drop used ((memmove used (used + 8) n b)[used + n := NUL])) = ?m"
    unfolding e d using l(1) by simp
  show "cstr (drop used ((memmove used (used + 8) n b)[used + n := NUL])) = cstr ?m"
    unfolding e d by (rule cstr_before_NUL)
qed

text \<open>The route function is the reference receiver \<open>raw_unframe\<close> followed by the handler.\<close>

lemma raw_route_unframe:
  assumes "safe_uadd_law (safe_uadd E)" "used \<le> length (rbuff_of c w)"
    and "be_value (take 8 (drop used (rbuff_of c w))) + 8 < 2 ^ 64"
  shows "protocol_raw_route E c used w =
    (case raw_unframe (drop used (rbuff_of c w)) of
       None \<Rightarrow> (PROT_AGAIN, used, w)
     | Some (m, n) \<Rightarrow>
         (let b = (memmove used (used + 8) (length m) (rbuff_of c w))[used + length m := NUL];
              (st, v) = protocol_raw_handle E c (cstr m) (set_rbuff c b w)
          in (st, used + n, v)))"
proof -
  let ?b = "rbuff_of c w"
  let ?n = "be_value (take 8 (drop used ?b))"
  let ?len = "word_of_nat ?n :: guint64"
  have n: "unat ?len = ?n" using assms(3) by (simp add: unat_of_nat take_bit_eq_mod)
  have e: "unat (8 :: guint64) = 8" by simp
  have u: "safe_uadd E ?len 8 = Some (?len + 8)" "unat (?len + 8) = ?n + 8"
    using assms(1,3) n checked_uadd_fits [of ?len 8] checked_uadd_Some [of ?len 8 "?len + 8"]
    by (simp_all add: safe_uadd_law_def)
  show ?thesis
  proof (cases "length ?b - used < ?n + 8")
    case True
    then show ?thesis
      using assms(2) u by (simp add: protocol_raw_route_def raw_unframe_def Let_def)
  next
    case False
    then have l: "used + 8 + ?n \<le> length ?b" by simp
    then have m: "length (take ?n (drop (used + 8) ?b)) = ?n" by simp
    show ?thesis
      using l u n m memmove_drop(2) [OF l]
      by (simp add: protocol_raw_route_def raw_unframe_def Let_def add.commute split: prod.split)
  qed
qed

lemma strict_prefix_take: "k < length s \<Longrightarrow> strict_prefix (take k s) s"
  by (simp add: strict_prefix_def take_is_prefix)

text \<open>A complete frame at the read position, and the front of one.\<close>

lemma raw_route_complete:
  assumes "uint_str_law (uint_str E)" "safe_uadd_law (safe_uadd E)"
    and "rbuff_of c w = pre @ be_bytes 8 (length m) @ m @ rest" "used = length pre"
    and "m = protocol_raw_format E path extra cb json" "length m + 8 < 2 ^ 64" "NUL \<notin> set m"
    and "CHR '':'' \<notin> set (path @ extra)" "cb \<noteq> - 1"
  shows "\<exists>b. protocol_raw_route E c used w =
      (PROT_OK, used + 8 + length m, evs_route E c (path @ extra) cb json (set_rbuff c b w)) \<and>
    drop (used + 8 + length m) b = rest \<and> length b = length (rbuff_of c w)"
proof -
  have fits: "length m < 2 ^ 64" using assms(6) by simp
  have d: "drop used (rbuff_of c w) = (be_bytes 8 (length m) @ m) @ rest" by (simp add: assms(3,4))
  have n: "be_value (take 8 (drop used (rbuff_of c w))) = length m"
    using fits by (simp add: assms(3,4) be_value_be_bytes)
  have un: "raw_unframe (drop used (rbuff_of c w)) = Some (m, 8 + length m)"
    unfolding d using raw_out.dec_enc [OF fits, of rest] by simp
  let ?b = "(memmove used (used + 8) (length m) (rbuff_of c w))[used + length m := NUL]"
  have "protocol_raw_handle E c (cstr m) (set_rbuff c ?b w) =
      (PROT_OK, evs_route E c (path @ extra) cb json (set_rbuff c ?b w))"
    using raw_handle_format [OF assms(1,8), where cb = cb and w = "set_rbuff c ?b w" and json = json] assms(9)
    by (simp add: cstr_id assms(7)) (simp add: assms(5))
  then have "protocol_raw_route E c used w =
      (PROT_OK, used + 8 + length m, evs_route E c (path @ extra) cb json (set_rbuff c ?b w))"
    using raw_route_unframe [OF assms(2), of used c w] assms(3,4,6) n un by (simp add: Let_def)
  moreover have "drop (used + 8 + length m) ?b = rest" "length ?b = length (rbuff_of c w)"
    by (simp_all add: memmove_def assms(3,4))
  ultimately show ?thesis by blast
qed

lemma raw_route_partial:
  assumes "safe_uadd_law (safe_uadd E)" "rbuff_of c w = pre @ t" "used = length pre"
    and "strict_prefix t (be_bytes 8 (length m) @ m)" "length m + 8 < 2 ^ 64"
  shows "protocol_raw_route E c used w = (PROT_AGAIN, used, w)"
proof -
  have fits: "length m < 2 ^ 64" using assms(5) by simp
  have d: "drop used (rbuff_of c w) = t" "used \<le> length (rbuff_of c w)" by (simp_all add: assms(2,3))
  have none: "raw_unframe t = None" by (rule raw_out.dec_partial [OF fits assms(4)])
  show ?thesis
  proof (cases "length t < 8")
    case True
    then show ?thesis using arg_cong [OF d(1), of length] by (simp add: protocol_raw_route_def Let_def)
  next
    case False
    from assms(4) obtain r where "be_bytes 8 (length m) @ m = t @ r" by (auto simp: strict_prefix_def prefix_def)
    from arg_cong [OF this, of "take 8"] False have "take 8 t = be_bytes 8 (length m)" by simp
    then have "be_value (take 8 (drop used (rbuff_of c w))) + 8 < 2 ^ 64"
      using fits assms(5) by (simp add: d be_value_be_bytes)
    with raw_route_unframe [OF assms(1) d(2)] d(1) none show ?thesis by simp
  qed
qed

section \<open>Properties\<close>

text \<open>
  C10. What the other side of a raw connection writes is what gets routed: a complete frame at
  the read position is consumed as a whole and its event reaches the router with its path, callback id and
  JSON as they were formatted; of an incomplete frame nothing is consumed and nothing happens,
  wherever the stream was cut.
\<close>

theorem raw_route_receives:
  assumes "uint_str_law (uint_str E)" "safe_uadd_law (safe_uadd E)"
    and "rbuff_of c w = pre @ be_bytes 8 (length m) @ m @ rest" "used = length pre"
    and "m = protocol_raw_format E path extra cb json" "length m + 8 < 2 ^ 64" "NUL \<notin> set m"
    and "CHR '':'' \<notin> set (path @ extra)" "cb \<noteq> - 1"
  shows "(\<exists>b. protocol_raw_route E c used w =
      (PROT_OK, used + 8 + length m, evs_route E c (path @ extra) cb json (set_rbuff c b w))) \<and>
    (\<forall>k v. 8 + length m \<le> k \<or> v \<noteq> set_rbuff c (take (used + k) (rbuff_of c w)) w \<or>
       protocol_raw_route E c used v = (PROT_AGAIN, used, v))"
proof -
  have "protocol_raw_route E c used v = (PROT_AGAIN, used, v)"
    if k: "k < 8 + length m" "v = set_rbuff c (take (used + k) (rbuff_of c w)) w" for k v
  proof (rule raw_route_partial [OF assms(2) _ assms(4) _ assms(6)])
    show "rbuff_of c v = pre @ take k (be_bytes 8 (length m) @ m)"
      using k by (simp add: assms(3,4) take_append)
    show "strict_prefix (take k (be_bytes 8 (length m) @ m)) (be_bytes 8 (length m) @ m)"
      by (rule strict_prefix_take) (use k(1) in simp)
  qed
  with raw_route_complete [OF assms] show ?thesis by (meson not_le)
qed

lemma raw_route_receives_witness:
  "\<exists>b. protocol_raw_route sample_env 5 0 (set_rbuff 5 (be_bytes 8 (length ''/a:0=1'') @ ''/a:0=1'') handshaked_world) =
     (PROT_OK, 14, evs_route sample_env 5 ''/a'' 0 ''1'' (set_rbuff 5 b (set_rbuff 5 (be_bytes 8 (length ''/a:0=1'') @ ''/a:0=1'') handshaked_world)))"
proof -
  have f: "''/a:0=1'' = protocol_raw_format sample_env ''/a'' [] 0 ''1''"
    by (simp add: protocol_raw_format_def sample_env_def dec_str.simps digit_chars)
  have l: "uint_str_law (uint_str sample_env)" "safe_uadd_law (safe_uadd sample_env)"
    by (simp_all add: uint_str_law_def safe_uadd_law_def sample_env_def)
  show ?thesis
    using raw_route_receives [OF l, of 5 "set_rbuff 5 (be_bytes 8 (length ''/a:0=1'') @ ''/a:0=1'') handshaked_world" "[]"
        "''/a:0=1''" "[]" 0 "''/a''" "[]" 0 "''1''", OF _ _ f]
    by simp
qed

end
