(* ===== verification/Ws_Mask.thy ===== *)
theory Ws_Mask
  imports Evs_Path
begin

text \<open>
  The unmasking loops of \<open>_decode\<close> in \<open>src/protocols_rfc6455.c\<close>: 128 bits at a time, then 64,
  then single bytes, moving the payload to the front of the frame as it goes. The words are
  little-endian. The result is the plain definition of RFC 6455, byte by byte.
\<close>

section \<open>Words in memory\<close>

fun le_bytes :: "nat \<Rightarrow> nat \<Rightarrow> string" where
  "le_bytes 0 n = []"
| "le_bytes (Suc k) n = char_of (n mod 256) # le_bytes k (n div 256)"

fun le_value :: "string \<Rightarrow> nat" where
  "le_value [] = 0"
| "le_value (c # s) = byte c + 256 * le_value s"

text \<open>Storing bytes at an address of the buffer.\<close>

definition store :: "nat \<Rightarrow> string \<Rightarrow> string \<Rightarrow> string" where
  "store i s b = take i b @ s @ drop (i + length s) b"

section \<open>The loops\<close>

text \<open>\<open>mask128\<close>: the key four times.\<close>

definition mask128 :: "string \<Rightarrow> uint128" where
  "mask128 key = word_of_nat (le_value (key @ key @ key @ key))"

text \<open>
  \<open>for (; i < max; i += sizeof (T)) *(T* )(msg + i) = *(T* )(str + i) ^ mask128.i\<close>, for a word
  type of \<open>sz\<close> bytes; storing into the narrower type cuts the upper bytes off.
\<close>

function xor_words :: "nat \<Rightarrow> uint128 \<Rightarrow> nat \<Rightarrow> nat \<Rightarrow> nat \<Rightarrow> nat \<Rightarrow> string \<Rightarrow> nat \<times> string" where
  "xor_words sz m str msg i mx b =
     (if i < mx \<and> 0 < sz then
        let from = (word_of_nat (le_value (take sz (drop (str + i) b))) :: uint128)
        in xor_words sz m str msg (i + sz) mx (store (msg + i) (le_bytes sz (unat (from XOR m))) b)
      else (i, b))"
  by pat_completeness auto
termination by (relation "measure (\<lambda>(sz, m, str, msg, i, mx, b). mx - i)") auto

declare xor_words.simps [simp del]

definition xor_char :: "char \<Rightarrow> char \<Rightarrow> char" where
  "xor_char c d = char_of (byte c XOR byte d)"

text \<open>\<open>for (; i < len; i++) msg[i] = str[i] ^ key.c[i & 3]\<close>\<close>

function xor_tail :: "string \<Rightarrow> nat \<Rightarrow> nat \<Rightarrow> nat \<Rightarrow> nat \<Rightarrow> string \<Rightarrow> string" where
  "xor_tail key str msg i len b =
     (if i < len then
        xor_tail key str msg (Suc i) len (b[msg + i := xor_char (at b (str + i)) (key ! (i AND 3))])
      else b)"
  by pat_completeness auto
termination by (relation "measure (\<lambda>(key, str, msg, i, len, b). len - i)") auto

declare xor_tail.simps [simp del]

definition unmask_in_place :: "string \<Rightarrow> nat \<Rightarrow> nat \<Rightarrow> nat \<Rightarrow> string \<Rightarrow> string" where
  "unmask_in_place key str msg len b =
     (let m = mask128 key;
          (i, b1) = xor_words 16 m str msg 0 (len - (len AND 15)) b;
          (i', b2) = xor_words 8 m str msg i (len - (len AND 7)) b1
      in (xor_tail key str msg i' len b2)[msg + len := NUL])"

section \<open>The reference\<close>

definition unmask :: "string \<Rightarrow> string \<Rightarrow> string" where
  "unmask key s = map (\<lambda>i. xor_char (s ! i) (key ! (i mod 4))) [0..<length s]"

lemma length_unmask [simp]: "length (unmask key s) = length s"
  by (simp add: unmask_def)

lemma xor_less256: "a < 256 \<Longrightarrow> b < 256 \<Longrightarrow> (a XOR b :: nat) < 256"
proof -
  assume "a < 256" "b < 256"
  then have "take_bit 8 a = a" "take_bit 8 b = b" by (simp_all add: take_bit_eq_mod)
  then have "take_bit 8 (a XOR b) = a XOR b" by simp
  moreover have "take_bit 8 (a XOR b) < 2 ^ 8" by (rule take_bit_nat_less_exp)
  ultimately show ?thesis by simp
qed

lemma xor_char_involutive: "xor_char (xor_char c d) d = c"
  by (simp add: xor_char_def xor_less256 byte_less ac_simps)

lemma unmask_involutive: "unmask key (unmask key s) = s"
  by (rule nth_equalityI) (simp_all add: unmask_def xor_char_involutive)

section \<open>Words are their bytes\<close>

lemma length_le_bytes [simp]: "length (le_bytes k n) = k"
  by (induction k arbitrary: n) auto

lemma le_value_bound: "le_value s < 256 ^ length s"
proof (induction s)
  case (Cons c s)
  then have "Suc (le_value s) \<le> 256 ^ length s" by simp
  then have "256 * Suc (le_value s) \<le> 256 * 256 ^ length s" by (rule mult_le_mono2)
  then have "256 * le_value s + 256 \<le> 256 * 256 ^ length s" by simp
  moreover have "byte c + 256 * le_value s < 256 * le_value s + 256" using byte_less [of c] by simp
  ultimately have "byte c + 256 * le_value s < 256 * 256 ^ length s" by (rule less_le_trans [rotated])
  then show ?case by simp
qed simp

lemma le_bytes_xor:
  "length s \<le> length t \<Longrightarrow>
   le_bytes (length s) (le_value s XOR le_value t) = map2 xor_char s t"
proof (induction s arbitrary: t)
  case Nil
  then show ?case by simp
next
  case (Cons c s)
  then obtain d t' where t: "t = d # t'" by (cases t) auto
  have low: "(le_value (c # s) XOR le_value t) mod 256 = byte c XOR byte d"
  proof -
    have "take_bit 8 (le_value (c # s) XOR le_value t) =
        take_bit 8 (le_value (c # s)) XOR take_bit 8 (le_value t)" by simp
    then show ?thesis by (simp add: t take_bit_eq_mod byte_less)
  qed
  have high: "(le_value (c # s) XOR le_value t) div 256 = le_value s XOR le_value t'"
  proof -
    have "drop_bit 8 (le_value (c # s) XOR le_value t) =
        drop_bit 8 (le_value (c # s)) XOR drop_bit 8 (le_value t)" by simp
    then show ?thesis by (simp add: t drop_bit_eq_div byte_less)
  qed
  show ?case
    using Cons by (simp add: low [unfolded t] high [unfolded t] t xor_char_def xor_less256 byte_less
        del: le_value.simps)
qed

lemma unat_word128: "n < 2 ^ 128 \<Longrightarrow> unat (word_of_nat n :: uint128) = n"
  by (simp add: unat_of_nat take_bit_eq_mod)

text \<open>One round of a word loop is \<open>sz\<close> rounds of the byte loop.\<close>

lemma xor_word_bytes:
  assumes "length s \<le> 16" "length key = 4"
  shows "le_bytes (length s) (unat ((word_of_nat (le_value s) :: uint128) XOR mask128 key)) =
    map2 xor_char s (key @ key @ key @ key)"
proof -
  let ?t = "key @ key @ key @ key"
  have "le_value s < 256 ^ 16"
    using le_value_bound [of s] assms(1) power_increasing [of "length s" 16 "256 :: nat"] by simp
  moreover have "le_value ?t < 256 ^ 16" using le_value_bound [of ?t] assms(2) by simp
  ultimately have "unat ((word_of_nat (le_value s) :: uint128) XOR mask128 key) = le_value s XOR le_value ?t"
    by (simp add: mask128_def unsigned_xor_eq unat_word128)
  then show ?thesis using le_bytes_xor [of s ?t] assms by simp
qed

section \<open>The loops do what the reference does\<close>

lemma unmask_append:
  "length xs mod 4 = 0 \<Longrightarrow> unmask key (xs @ ys) = unmask key xs @ unmask key ys"
proof (rule nth_equalityI)
  fix i
  assume a: "length xs mod 4 = 0" and i: "i < length (unmask key (xs @ ys))"
  show "unmask key (xs @ ys) ! i = (unmask key xs @ unmask key ys) ! i"
  proof (cases "i < length xs")
    case False
    then obtain j where j: "i = length xs + j" by (metis le_add_diff_inverse not_less)
    then have "i mod 4 = j mod 4" using a by presburger
    with i j show ?thesis by (simp add: unmask_def nth_append)
  qed (simp add: unmask_def nth_append)
qed simp

lemma unmask_snoc: "unmask key (xs @ [c]) = unmask key xs @ [xor_char c (key ! (length xs mod 4))]"
  by (rule nth_equalityI) (auto simp: unmask_def nth_append less_Suc_eq)

lemma unmask_word:
  assumes "length s \<le> 16" "length key = 4"
  shows "unmask key s = map2 xor_char s (key @ key @ key @ key)"
proof (rule nth_equalityI)
  show "length (unmask key s) = length (map2 xor_char s (key @ key @ key @ key))"
    using assms by simp
next
  fix i
  assume "i < length (unmask key s)"
  then have i: "i < length s" "i < 16" using assms(1) by simp_all
  have "(key @ key @ key @ key) ! i = key ! (i mod 4)"
    using i(2) assms(2) by (auto simp: nth_append mod_if)
  then show "unmask key s ! i = map2 xor_char s (key @ key @ key @ key) ! i"
    using i assms by (simp add: unmask_def)
qed

text \<open>The buffer after \<open>i\<close> bytes: they stand unmasked at \<open>msg\<close>, the rest is untouched.\<close>

definition progress :: "string \<Rightarrow> nat \<Rightarrow> nat \<Rightarrow> string \<Rightarrow> nat \<Rightarrow> string" where
  "progress key msg h b i = take msg b @ unmask key (take i (drop (msg + h) b)) @ drop (msg + i) b"

lemma progress_0: "progress key msg h b 0 = b"
  by (simp add: progress_def unmask_def)

lemma length_progress: "msg + h + i \<le> length b \<Longrightarrow> length (progress key msg h b i) = length b"
  by (simp add: progress_def)

lemma progress_ahead:
  "msg + h + i \<le> length b \<Longrightarrow> drop (msg + h + i) (progress key msg h b i) = drop (msg + h + i) b"
  by (simp add: progress_def ac_simps)

lemma progress_store:
  assumes "i mod 4 = 0" "sz \<le> 16" "length key = 4" "msg + h + i + sz \<le> length b"
  defines "s \<equiv> take sz (drop (msg + h + i) (progress key msg h b i))"
  shows "store (msg + i) (le_bytes sz (unat ((word_of_nat (le_value s) :: uint128) XOR mask128 key)))
      (progress key msg h b i) = progress key msg h b (i + sz)"
proof -
  have s: "s = take sz (drop (msg + h + i) b)"
    unfolding s_def by (subst progress_ahead) (use assms(4) in simp_all)
  then have l: "length s = sz" using assms(4) by simp
  have w: "le_bytes sz (unat ((word_of_nat (le_value s) :: uint128) XOR mask128 key)) = unmask key s"
    using xor_word_bytes [of s key] unmask_word [of s key] assms(2,3) l by simp
  have t: "take (i + sz) (drop (msg + h) b) = take i (drop (msg + h) b) @ s"
    by (simp add: s take_add add.commute)
  have "length (take i (drop (msg + h) b)) mod 4 = 0" using assms(1,4) by simp
  from unmask_append [OF this] show ?thesis
    using assms(4) l by (simp add: store_def w progress_def t) (simp add: ac_simps)
qed

lemma xor_words_progress:
  assumes "0 < sz" "sz \<le> 16" "sz mod 4 = 0" "length key = 4"
  shows "i mod 4 = 0 \<Longrightarrow> msg + h + i + k * sz \<le> length b \<Longrightarrow>
    xor_words sz (mask128 key) (msg + h) msg i (i + k * sz) (progress key msg h b i) =
      (i + k * sz, progress key msg h b (i + k * sz))"
proof (induction k arbitrary: i)
  case 0
  then show ?case by (simp add: xor_words.simps)
next
  case (Suc k)
  have st: "store (msg + i) (le_bytes sz (unat ((word_of_nat (le_value
      (take sz (drop (msg + h + i) (progress key msg h b i)))) :: uint128) XOR mask128 key)))
      (progress key msg h b i) = progress key msg h b (i + sz)"
    by (rule progress_store) (use Suc.prems assms in simp_all)
  have "(i + sz) mod 4 = 0" using Suc.prems(1) assms(3) by presburger
  moreover have "msg + h + (i + sz) + k * sz \<le> length b" using Suc.prems(2) by simp
  ultimately have r: "xor_words sz (mask128 key) (msg + h) msg (i + sz) (i + sz + k * sz)
      (progress key msg h b (i + sz)) = (i + sz + k * sz, progress key msg h b (i + sz + k * sz))"
    by (rule Suc.IH)
  have e: "i + Suc k * sz = i + sz + k * sz" by simp
  show ?case
    unfolding e using assms(1) by (subst xor_words.simps) (simp add: Let_def st r)
qed

lemma progress_byte:
  assumes "msg + h + Suc i \<le> length b"
  shows "(progress key msg h b i)[msg + i := xor_char (at (progress key msg h b i) (msg + h + i)) (key ! (i AND 3))] =
    progress key msg h b (Suc i)"
proof -
  have "progress key msg h b i ! (msg + h + i) = hd (drop (msg + h + i) (progress key msg h b i))"
    using assms by (simp add: hd_drop_conv_nth length_progress)
  also have "\<dots> = b ! (msg + h + i)" using assms by (simp add: progress_ahead hd_drop_conv_nth)
  finally have a: "at (progress key msg h b i) (msg + h + i) = b ! (msg + h + i)"
    using assms by (simp add: at_def length_progress)
  have m: "i AND 3 = i mod 4"
    using take_bit_eq_mask [of 2 i] by (simp add: take_bit_eq_mod mask_eq_exp_minus_1)
  have t: "take (Suc i) (drop (msg + h) b) = take i (drop (msg + h) b) @ [b ! (msg + h + i)]"
    using assms by (subst take_Suc_conv_app_nth) simp_all
  have d: "drop (msg + i) b = b ! (msg + i) # drop (Suc (msg + i)) b"
    using assms by (simp add: Cons_nth_drop_Suc)
  show ?thesis
    unfolding a m using assms
    by (simp add: progress_def t unmask_snoc) (simp add: d list_update_append)
qed

lemma xor_tail_progress:
  "i + k = len \<Longrightarrow> msg + h + len \<le> length b \<Longrightarrow>
   xor_tail key (msg + h) msg i len (progress key msg h b i) = progress key msg h b len"
proof (induction k arbitrary: i)
  case 0
  then show ?case by (simp add: xor_tail.simps)
next
  case (Suc k)
  then have "msg + h + Suc i \<le> length b" by simp
  note st = progress_byte [OF this, of key]
  from Suc show ?case by (subst xor_tail.simps) (simp add: st)
qed

lemma and_low:
  "(len :: nat) AND 15 = len mod 16" "len AND 7 = len mod 8"
  using take_bit_eq_mask [of 4 len] take_bit_eq_mask [of 3 len]
  by (simp_all add: take_bit_eq_mod mask_eq_exp_minus_1)

lemma unmask_in_place_eq:
  assumes "length key = 4" "msg + h + len \<le> length b"
  shows "unmask_in_place key (msg + h) msg len b = (progress key msg h b len)[msg + len := NUL]"
proof -
  let ?q = "len div 16 * 16"
  have q: "len - (len AND 15) = ?q" unfolding and_low by (metis minus_mod_eq_div_mult)
  have ql: "?q \<le> len" by simp
  obtain r where r: "len - (len AND 7) = ?q + r * 8"
  proof
    have "len = 16 * (len div 16) + len mod 16" by simp
    moreover have "len mod 16 = 8 * (len mod 16 div 8) + len mod 16 mod 8" by simp
    moreover have "len mod 16 mod 8 = len mod 8" by (rule mod_mod_cancel) simp
    ultimately show "len - (len AND 7) = ?q + (len mod 16 div 8) * 8" unfolding and_low by linarith
  qed
  have rl: "?q + r * 8 \<le> len" using r by (metis diff_le_self)
  have one: "xor_words 16 (mask128 key) (msg + h) msg 0 ?q b = (?q, progress key msg h b ?q)"
    using xor_words_progress [of 16 key 0 msg h "len div 16" b] assms ql by (simp add: progress_0)
  have two: "xor_words 8 (mask128 key) (msg + h) msg ?q (?q + r * 8) (progress key msg h b ?q) =
      (?q + r * 8, progress key msg h b (?q + r * 8))"
    by (rule xor_words_progress) (use assms rl in simp_all)
  have three: "xor_tail key (msg + h) msg (?q + r * 8) len (progress key msg h b (?q + r * 8)) =
      progress key msg h b len"
    by (rule xor_tail_progress [of _ "len - (?q + r * 8)"]) (use assms rl in simp_all)
  show ?thesis by (simp add: unmask_in_place_def Let_def q r one two three)
qed

lemma progress_terminated:
  assumes "0 < h" "msg + h + len \<le> length b"
  shows "(progress key msg h b len)[msg + len := NUL] =
    take msg b @ unmask key (take len (drop (msg + h) b)) @ NUL # drop (Suc (msg + len)) b"
proof -
  have d: "drop (msg + len) b = b ! (msg + len) # drop (Suc (msg + len)) b"
    using assms by (simp add: Cons_nth_drop_Suc)
  show ?thesis using assms by (simp add: progress_def d list_update_append)
qed

section \<open>Properties\<close>

text \<open>
  C16. The optimised unmasking, 16 bytes at a time, then 8, then 1, moving the payload over its
  own header as it goes, computes what RFC 6455 says byte by byte: the payload xor the repeated
  key, terminated, and not a byte of the buffer outside it changes. Masking the payload again
  gives it back.
\<close>

theorem unmask_in_place_correct:
  assumes "length key = 4" "0 < h" "msg + h + len \<le> length b"
  shows "unmask_in_place key (msg + h) msg len b =
      take msg b @ unmask key (take len (drop (msg + h) b)) @ NUL # drop (Suc (msg + len)) b \<and>
    unmask key (unmask key (take len (drop (msg + h) b))) = take len (drop (msg + h) b)"
  unfolding unmask_in_place_eq [OF assms(1,3)] progress_terminated [OF assms(2,3)]
  by (simp add: unmask_involutive)

lemma unmask_in_place_correct_witness:
  "unmask_in_place ''abcd'' 6 0 27 (''......'' @ unmask ''abcd'' ''abcdefghijklmnopqrstuvwxyz!'' @ ''Z'') =
     ''abcdefghijklmnopqrstuvwxyz!'' @ NUL # drop 28 (''......'' @ unmask ''abcd'' ''abcdefghijklmnopqrstuvwxyz!'' @ ''Z'')"
  using unmask_in_place_correct [of "''abcd''" 6 0 27
      "''......'' @ unmask ''abcd'' ''abcdefghijklmnopqrstuvwxyz!'' @ ''Z''"]
  by (simp add: unmask_involutive)

end
