(* ===== verification/Protocol_Rfc6455.thy ===== *)
theory Protocol_Rfc6455
  imports Protocol_Raw Ws_Mask
begin

text \<open>
  The WebSocket protocol (\<open>src/protocols_rfc6455.c\<close>): cutting masked frames out of the read
  buffer, the handshake, routing, heartbeats, closing frames and the upgrade from HTTP. The
  frames the server sends are in \<open>Protocol_Frames\<close>, the unmasking loops in \<open>Ws_Mask\<close>.
\<close>

section \<open>Operations\<close>

definition MASKED_BIT :: nat where "MASKED_BIT = 0x80"
definition MASK_LEN :: nat where "MASK_LEN = 0x7f"
definition OPCODE :: nat where "OPCODE = 0x0f"
definition OPCODE_TEXT :: nat where "OPCODE_TEXT = 0x01"
definition OPCODE_CLOSE :: nat where "OPCODE_CLOSE = 0x08"

lemmas opcode_defs = MASKED_BIT_def MASK_LEN_def OPCODE_def OPCODE_TEXT_def OPCODE_CLOSE_def

text \<open>The second half of \<open>_decode\<close>, once the lengths and the key are known.\<close>

definition ws_payload ::
  "env \<Rightarrow> cid \<Rightarrow> nat \<Rightarrow> nat \<Rightarrow> guint64 \<Rightarrow> string \<Rightarrow> world \<Rightarrow> protocol_status \<times> nat \<times> nat \<times> world" where
  "ws_payload E c offset header_len len key w =
     (let b = rbuff_of c w;
          rbuff_len = length b - offset
      in case safe_uadd E (word_of_nat header_len) len of
           None \<Rightarrow> (PROT_FATAL, 0, 0, w)
         | Some total_len \<Rightarrow>
             if rbuff_len < unat total_len then (PROT_AGAIN, 0, 0, w)
             else
               (let b1 = unmask_in_place key (offset + header_len) offset (unat len) b;
                    w1 = set_rbuff c b1 w
                in if utf8_validate E (take (unat len) (drop offset b1))
                   then (PROT_OK, unat len, unat total_len, w1)
                   else (PROT_FATAL, 0, 0, qev_close c RFC6455_NOT_UTF8 w1)))"

text \<open>
  \<open>_decode\<close>: the status, the length of the payload (from the offset on), the length of the
  frame, the state. The lengths mean nothing unless the status is \<open>PROT_OK\<close>.
\<close>

definition ws_decode :: "env \<Rightarrow> cid \<Rightarrow> nat \<Rightarrow> world \<Rightarrow> protocol_status \<times> nat \<times> nat \<times> world" where
  "ws_decode E c offset w =
     (let b = rbuff_of c w;
          str0 = byte (at b offset);
          str1 = byte (at b (offset + 1));
          rbuff_len = length b - offset;
          again = (PROT_AGAIN, 0, 0, w)
      in if str0 AND OPCODE = OPCODE_CLOSE then (PROT_FATAL, 0, 0, qev_close c QEV_CLOSE_HUP w)
         else if rbuff_len < 6 then again
         else if str0 AND OPCODE \<noteq> OPCODE_TEXT
         then (PROT_FATAL, 0, 0, qev_close c RFC6455_UNSUPPORTED_OPCODE w)
         else if str1 AND MASKED_BIT = 0 then (PROT_FATAL, 0, 0, qev_close c RFC6455_NO_MASK w)
         else
           (let len0 = str1 AND MASK_LEN;
                head =
                  (if len0 \<le> PAYLOAD_SHORT
                   then Some (6, word_of_nat len0 :: guint64, take 4 (drop (offset + 2) b))
                   else if len0 = PAYLOAD_MEDIUM then
                     if rbuff_len < 8 then None
                     else Some (8, word_of_nat (be_value (take 2 (drop (offset + 2) b))),
                                take 4 (drop (offset + 4) b))
                   else
                     if rbuff_len < 14 then None
                     else Some (14, word_of_nat (be_value (take 8 (drop (offset + 2) b))),
                                take 4 (drop (offset + 10) b)))
            in case head of
                 None \<Rightarrow> again
               | Some (header_len, len, key) \<Rightarrow> ws_payload E c offset header_len len key w))"

definition protocol_rfc6455_handles :: "cid \<Rightarrow> world \<Rightarrow> protocol_handles" where
  "protocol_rfc6455_handles c w = PROT_NO"

definition protocol_rfc6455_handshake :: "env \<Rightarrow> cid \<Rightarrow> world \<Rightarrow> protocol_status \<times> world" where
  "protocol_rfc6455_handshake E c w =
     (let (status, len, frame_len, w1) = ws_decode E c 0 w in
      if status = PROT_OK then
        (let (good, w2) = protocol_raw_check_handshake c w1 in
         if good then
           (PROT_OK, emit (E_write c QIO_HANDSHAKE) (stat_inc St_rfc6455_handshakes_good w2))
         else
           (PROT_FATAL,
            qev_close c QIO_CLOSE_INVALID_HANDSHAKE (stat_inc St_rfc6455_handshakes_bad w2)))
      else (status, w1))"

definition protocol_rfc6455_route ::
  "env \<Rightarrow> cid \<Rightarrow> nat \<Rightarrow> world \<Rightarrow> protocol_status \<times> nat \<times> world" where
  "protocol_rfc6455_route E c used w =
     (let (status, len, frame_len, w1) = ws_decode E c used w in
      if status = PROT_OK then
        (let b = (rbuff_of c w1)[used + len := NUL];
             (status1, w2) = protocol_raw_handle E c (cstr (drop used b)) (set_rbuff c b w1)
         in (status1, used + frame_len, w2))
      else (status, used, w1))"

definition protocol_rfc6455_heartbeat :: "env \<Rightarrow> cid \<Rightarrow> heartbeat \<Rightarrow> world \<Rightarrow> world" where
  "protocol_rfc6455_heartbeat E c hb w = protocol_raw_do_heartbeat E c hb RFC6455_HEARTBEAT w"

definition protocol_rfc6455_close :: "cid \<Rightarrow> close_reason \<Rightarrow> world \<Rightarrow> world" where
  "protocol_rfc6455_close c reason w = emit (E_write c (rfc6455_close_frame reason)) w"

text \<open>\<open>protocols_switch\<close> of \<open>src/protocols.c\<close>; the union of flags has no members.\<close>

definition protocols_switch :: "cid \<Rightarrow> prot \<Rightarrow> world \<Rightarrow> world" where
  "protocols_switch c p w = upd_client c (\<lambda>cl. cl\<lparr>c_prot := Some p, c_handshaked := False\<rparr>) w"

definition HASH_KEY :: string where
  "HASH_KEY = ''258EAFA5-E914-47DA-95CA-C5AB0DC85B11''"

definition HTTP_101 :: string where
  "HTTP_101 =
     ''HTTP/1.1 101 Switching Protocols'' @ CRLF @
     ''Upgrade: websocket'' @ CRLF @
     ''Connection: Upgrade'' @ CRLF @
     ''Access-Control-Allow-Origin: *'' @ CRLF @
     ''Sec-WebSocket-Protocol: quickio'' @ CRLF @
     HTTP_NOCACHE @
     ''Sec-WebSocket-Accept: ''"

definition protocol_rfc6455_upgrade :: "env \<Rightarrow> cid \<Rightarrow> string \<Rightarrow> world \<Rightarrow> world" where
  "protocol_rfc6455_upgrade E c key w =
     (let buff = sha1 E (key @ HASH_KEY);
          b64 = base64 E buff;
          w1 = emit (E_write c (HTTP_101 @ b64 @ CRLF @ CRLF)) w
      in stat_inc St_rfc6455_upgrades (protocols_switch c P_rfc6455 w1))"

section \<open>What a client sends\<close>

text \<open>A text frame of RFC 6455, section 5.2, masked with a key.\<close>

definition masked_head :: "nat \<Rightarrow> string" where
  "masked_head n =
     CHR 0x81 #
     (if n \<le> PAYLOAD_SHORT then [char_of (128 + n)]
      else if n \<le> 0xffff then char_of (128 + PAYLOAD_MEDIUM) # be_bytes 2 n
      else char_of (128 + PAYLOAD_LONG) # be_bytes 8 n)"

definition masked_frame :: "string \<Rightarrow> string \<Rightarrow> string" where
  "masked_frame key m = masked_head (length m) @ key @ unmask key m"

text \<open>The length of the part before the key, and the length of the payload.\<close>

definition ws_head :: "string \<Rightarrow> nat \<times> nat" where
  "ws_head s =
     (let l = byte (s ! 1) mod 128 in
      if l \<le> PAYLOAD_SHORT then (2, l)
      else if l = PAYLOAD_MEDIUM then (4, be_value (take 2 (drop 2 s)))
      else (10, be_value (take 8 (drop 2 s))))"

definition masked_unframe :: "string \<Rightarrow> (string \<times> nat) option" where
  "masked_unframe s =
     (if length s < 6 then None
      else let (p, n) = ws_head s in
        if length s < p + 4 \<or> length s < p + 4 + n then None
        else Some (unmask (take 4 (drop p s)) (take n (drop (p + 4) s)), p + 4 + n))"

lemma masked_head_cases:
  obtains (short) "n \<le> 125" "masked_head n = [CHR 0x81, char_of (128 + n)]"
  | (medium) "125 < n" "n < 65536" "masked_head n = CHR 0x81 # char_of (254 :: nat) # be_bytes 2 n"
  | (long) "65535 < n" "masked_head n = CHR 0x81 # char_of (255 :: nat) # be_bytes 8 n"
  by (cases "n \<le> 125"; cases "n < 65536")
    (auto simp: masked_head_def PAYLOAD_SHORT_def PAYLOAD_MEDIUM_def PAYLOAD_LONG_def)

lemmas ws_head_defs = ws_head_def Let_def PAYLOAD_SHORT_def PAYLOAD_MEDIUM_def

lemma ws_head_eq:
  assumes "take (length (masked_head n)) s = masked_head n" "n < 2 ^ 64"
  shows "ws_head s = (length (masked_head n), n)"
proof -
  from assms(1) obtain t where s: "s = masked_head n @ t" by (metis append_take_drop_id)
  show ?thesis
  proof (cases rule: masked_head_cases [of n])
    case short
    then show ?thesis by (simp add: s ws_head_defs)
  next
    case medium
    then show ?thesis by (simp add: s ws_head_defs be_value_be_bytes)
  next
    case long
    with assms(2) show ?thesis by (simp add: s ws_head_defs be_value_be_bytes)
  qed
qed

lemma masked_head_first:
  "masked_head n ! 0 = CHR 0x81" "128 \<le> byte (masked_head n ! 1)" "2 \<le> length (masked_head n)"
  by (cases rule: masked_head_cases [of n]; simp)+

text \<open>The second byte alone tells the length of the head.\<close>

lemma ws_head_fst: "s ! 1 = masked_head n ! 1 \<Longrightarrow> fst (ws_head s) = length (masked_head n)"
  by (cases rule: masked_head_cases [of n]) (simp_all add: ws_head_defs)

lemma masked_unframe_prefix:
  assumes "strict_prefix p (masked_frame key m)" "length key = 4" "length m < 2 ^ 64"
  shows "masked_unframe p = None"
proof (cases "length p < 6")
  case True
  then show ?thesis by (simp add: masked_unframe_def)
next
  case False
  let ?h = "masked_head (length m)"
  from assms(1) obtain r where r: "?h @ key @ unmask key m = p @ r" "r \<noteq> []"
    by (auto simp: strict_prefix_def prefix_def masked_frame_def)
  have "p ! 1 = (p @ r) ! 1" using False by (simp add: nth_append)
  also have "\<dots> = ?h ! 1" using masked_head_first(3) [of "length m"] by (simp flip: r(1) add: nth_append)
  finally have p1: "fst (ws_head p) = length ?h" by (rule ws_head_fst)
  show ?thesis
  proof (cases "length p < length ?h + 4")
    case True
    with p1 show ?thesis by (simp add: masked_unframe_def case_prod_beta)
  next
    case l: False
    then have "take (length ?h) p = ?h" using arg_cong [OF r(1), of "take (length ?h)"] by simp
    from ws_head_eq [OF this assms(3)] have "ws_head p = (length ?h, length m)" .
    moreover have "length p < length ?h + 4 + length m"
      using arg_cong [OF r(1), of length] assms(2) r(2) by (cases r) simp_all
    ultimately show ?thesis by (simp add: masked_unframe_def)
  qed
qed

lemma masked_unframe_frame:
  assumes "length key = 4" "length m < 2 ^ 64"
  shows "masked_unframe (masked_frame key m @ rest) = Some (m, length (masked_frame key m))"
proof -
  let ?h = "masked_head (length m)"
  have "ws_head (masked_frame key m @ rest) = (length ?h, length m)"
    by (rule ws_head_eq) (use assms(2) in \<open>simp_all add: masked_frame_def\<close>)
  then show ?thesis
    using assms(1) masked_head_first(3) [of "length m"]
    by (simp add: masked_unframe_def masked_frame_def unmask_involutive)
qed

text \<open>Clients may pick a new key for each frame; \<open>pick\<close> is their choice.\<close>

interpretation ws_in: framing "\<lambda>m. masked_frame (be_bytes 4 (pick m)) m" masked_unframe "\<lambda>m. length m < 2 ^ 64"
  for pick :: "string \<Rightarrow> nat"
proof (unfold_locales, goal_cases)
  case (1 m rest)
  then show ?case by (intro masked_unframe_frame) simp_all
next
  case (2 m p)
  then show ?case by (intro masked_unframe_prefix [OF 2(2)]) simp_all
next
  case (3 m)
  then show ?case by (simp add: masked_frame_def masked_head_def)
qed

section \<open>Decoding is the reference receiver\<close>

lemma and_masks:
  "n AND OPCODE = n mod 16" "n AND MASK_LEN = n mod 128"
  using take_bit_eq_mask [of 4 n] take_bit_eq_mask [of 7 n]
  by (simp_all add: take_bit_eq_mod mask_eq_exp_minus_1 OPCODE_def MASK_LEN_def)

lemma masked_bit: "128 \<le> n \<Longrightarrow> n < 256 \<Longrightarrow> n AND MASKED_BIT \<noteq> 0"
proof -
  assume h: "128 \<le> n" "n < 256"
  then have "n div 128 = 1" by simp
  then have "bit n 7" by (simp add: bit_iff_odd)
  moreover have "bit MASKED_BIT 7" by (simp add: MASKED_BIT_def bit_iff_odd)
  ultimately have "bit (n AND MASKED_BIT) 7" by (simp add: bit_and_iff)
  then show "n AND MASKED_BIT \<noteq> 0" by (metis bit_0_eq bot_apply bot_bool_def)
qed

lemma masked_bit_clear: "n < 128 \<Longrightarrow> n AND MASKED_BIT = 0"
proof (rule bit_eqI)
  fix i
  assume n: "n < 128"
  have "bit MASKED_BIT i = (7 = i)" using bit_exp_iff [of 7 i, where 'a = nat] by (simp add: MASKED_BIT_def)
  moreover have "\<not> bit n 7" using n by (simp add: bit_iff_odd)
  ultimately show "bit (n AND MASKED_BIT) i = bit (0 :: nat) i"
    by (auto simp: bit_and_iff)
qed

lemma unat_small: "n < 2 ^ 64 \<Longrightarrow> unat (word_of_nat n :: guint64) = n"
  by (simp add: unat_of_nat take_bit_eq_mod)

text \<open>The part of the code behind the checks of the first two bytes.\<close>

lemma ws_decode_unframe:
  assumes "safe_uadd_law (safe_uadd E)" "off \<le> length (rbuff_of c w)"
    and "s = drop off (rbuff_of c w)" "6 \<le> length s"
    and "byte (s ! 0) mod 16 = 1" "128 \<le> byte (s ! 1)"
    and "length s < fst (ws_head s) + 4 \<or> snd (ws_head s) + 14 < 2 ^ 64"
  shows "ws_decode E c off w =
    (case masked_unframe s of
       None \<Rightarrow> (PROT_AGAIN, 0, 0, w)
     | Some (m, n) \<Rightarrow>
         (let w1 = set_rbuff c (take off (rbuff_of c w) @ m @ NUL # drop (Suc (off + length m)) (rbuff_of c w)) w
          in if utf8_validate E m then (PROT_OK, length m, n, w1)
             else (PROT_FATAL, 0, 0, qev_close c RFC6455_NOT_UTF8 w1)))"
proof -
  let ?b = "rbuff_of c w"
  obtain p n where pn: "ws_head s = (p, n)" by (cases "ws_head s") auto
  have at0: "at ?b off = s ! 0" and at1: "at ?b (off + 1) = s ! 1"
    using assms(2-4) by (auto simp: at_def)
  have len: "length ?b - off = length s" by (simp add: assms(3))
  have drops: "drop (off + k) ?b = drop k s" for k by (simp add: assms(3) add.commute)
  have c0: "(byte (s ! 0) AND OPCODE = OPCODE_CLOSE) = False" "(byte (s ! 0) AND OPCODE \<noteq> OPCODE_TEXT) = False"
    using assms(5) by (simp_all add: and_masks OPCODE_TEXT_def OPCODE_CLOSE_def)
  have c1: "(byte (s ! 1) AND MASKED_BIT = 0) = False" "(length s < 6) = False"
    using masked_bit [OF assms(6) byte_less] assms(4) by simp_all
  let ?l = "byte (s ! 1) mod 128"
  have head: "(if ?l \<le> PAYLOAD_SHORT then Some (6, word_of_nat ?l :: guint64, take 4 (drop 2 s))
      else if ?l = PAYLOAD_MEDIUM then
        if length s < 8 then None else Some (8, word_of_nat (be_value (take 2 (drop 2 s))), take 4 (drop 4 s))
      else if length s < 14 then None
        else Some (14, word_of_nat (be_value (take 8 (drop 2 s))), take 4 (drop 10 s))) =
      (if length s < p + 4 then None else Some (p + 4, word_of_nat n, take 4 (drop p s)))"
    using pn assms(4) by (auto simp: ws_head_def Let_def split: if_splits)
  have dec: "ws_decode E c off w =
     (case if length s < p + 4 then None else Some (p + 4, word_of_nat n :: guint64, take 4 (drop p s)) of
        None \<Rightarrow> (PROT_AGAIN, 0, 0, w)
      | Some (header_len, len, key) \<Rightarrow>
          (case safe_uadd E (word_of_nat header_len) len of
             None \<Rightarrow> (PROT_FATAL, 0, 0, w)
           | Some total_len \<Rightarrow>
               if length s < unat total_len then (PROT_AGAIN, 0, 0, w)
               else
                 (let b1 = unmask_in_place key (off + header_len) off (unat len) ?b;
                      w1 = set_rbuff c b1 w
                  in if utf8_validate E (take (unat len) (drop off b1))
                     then (PROT_OK, unat len, unat total_len, w1)
                     else (PROT_FATAL, 0, 0, qev_close c RFC6455_NOT_UTF8 w1))))"
    unfolding ws_decode_def ws_payload_def Let_def at0 at1 len drops and_masks(2) c0 c1 if_False head ..
  show ?thesis
  proof (cases "length s < p + 4")
    case True
    then have "masked_unframe s = None" by (simp add: masked_unframe_def pn)
    with True show ?thesis unfolding dec by simp
  next
    case head_in: False
    have p: "p \<le> 10" using pn by (auto simp: ws_head_def Let_def split: if_splits)
    have n: "n + 14 < 2 ^ 64" using assms(7) pn head_in by simp
    have un: "unat (word_of_nat n :: guint64) = n" by (rule unat_small) (use n in simp)
    have up: "unat (word_of_nat (p + 4) :: guint64) = p + 4" by (rule unat_small) (use p in simp)
    have fw: "unat (word_of_nat (p + 4) :: guint64) + unat (word_of_nat n :: guint64) < 2 ^ 64"
      unfolding un up using n p by simp
    note law = assms(1) [unfolded safe_uadd_law_def, rule_format]
    have "safe_uadd E (word_of_nat (p + 4)) (word_of_nat n) = Some (word_of_nat (p + 4) + word_of_nat n)"
      unfolding law by (rule checked_uadd_fits [OF fw])
    moreover have "unat (word_of_nat (p + 4) + word_of_nat n :: guint64) = p + 4 + n"
      using checked_uadd_Some [OF checked_uadd_fits [OF fw]] unfolding un up .
    ultimately obtain t where t: "safe_uadd E (word_of_nat (p + 4)) (word_of_nat n) = Some t" "unat t = p + 4 + n"
      by blast
    show ?thesis
    proof (cases "length s < p + 4 + n")
      case True
      then have "masked_unframe s = None" by (simp add: masked_unframe_def pn)
      with True show ?thesis unfolding dec by (simp add: t del: of_nat_add)
    next
      case False
      let ?m = "unmask (take 4 (drop p s)) (take n (drop (p + 4) s))"
      have m: "masked_unframe s = Some (?m, p + 4 + n)" "length ?m = n"
        using False assms(4) by (simp_all add: masked_unframe_def pn)
      have k: "length (take 4 (drop p s)) = 4" using False by simp
      have fit: "off + (p + 4) + n \<le> length ?b" using False len assms(2) by simp
      have u: "unmask_in_place (take 4 (drop p s)) (off + (p + 4)) off n ?b =
          take off ?b @ ?m @ NUL # drop (Suc (off + n)) ?b"
        unfolding unmask_in_place_eq [OF k fit] progress_terminated [OF _ fit, simplified]
        by (simp add: drops)
      show ?thesis
        unfolding dec using False m(2) u assms(2) by (simp add: m(1) t un Let_def del: of_nat_add)
    qed
  qed
qed

lemma set_rbuff_twice [simp]: "set_rbuff c a (set_rbuff c b w) = set_rbuff c a w"
  by (simp add: set_rbuff_def upd_client_def)

lemma rfc6455_route_unframe:
  assumes "safe_uadd_law (safe_uadd E)" "off \<le> length (rbuff_of c w)"
    and "s = drop off (rbuff_of c w)" "6 \<le> length s"
    and "byte (s ! 0) mod 16 = 1" "128 \<le> byte (s ! 1)"
    and "length s < fst (ws_head s) + 4 \<or> snd (ws_head s) + 14 < 2 ^ 64"
  shows "protocol_rfc6455_route E c off w =
    (case masked_unframe s of
       None \<Rightarrow> (PROT_AGAIN, off, w)
     | Some (m, n) \<Rightarrow>
         (let w1 = set_rbuff c (take off (rbuff_of c w) @ m @ NUL # drop (Suc (off + length m)) (rbuff_of c w)) w
          in if utf8_validate E m then
               (let (st, v) = protocol_raw_handle E c (cstr m) w1 in (st, off + n, v))
             else (PROT_FATAL, off, qev_close c RFC6455_NOT_UTF8 w1)))"
proof -
  have u: "(take off b @ m @ NUL # r)[off + length m := NUL] = take off b @ m @ NUL # r"
    if "off \<le> length b" for b m and r :: string
    using that by (simp add: list_update_append)
  show ?thesis
    unfolding protocol_rfc6455_route_def ws_decode_unframe [OF assms]
    using assms(2) by (auto simp: Let_def u cstr_before_NUL split: option.split)
qed

text \<open>What the code sees of a frame, or of the front of one.\<close>

lemma masked_frame_front:
  assumes "prefix t (masked_frame key m @ rest)" "2 \<le> length t" "length m + 14 < 2 ^ 64"
  shows "byte (t ! 0) mod 16 = 1" "128 \<le> byte (t ! 1)"
    "length t < fst (ws_head t) + 4 \<or> snd (ws_head t) + 14 < 2 ^ 64"
proof -
  let ?h = "masked_head (length m)"
  from assms(1) obtain r where r: "?h @ key @ unmask key m @ rest = t @ r"
    by (auto simp: prefix_def masked_frame_def)
  have n: "t ! i = ?h ! i" if "i < 2" for i
  proof -
    have "t ! i = (t @ r) ! i" using that assms(2) by (simp add: nth_append)
    also have "\<dots> = ?h ! i" using that masked_head_first(3) [of "length m"] by (simp flip: r add: nth_append)
    finally show ?thesis .
  qed
  show "byte (t ! 0) mod 16 = 1" "128 \<le> byte (t ! 1)"
    using n [of 0] n [of 1] masked_head_first [of "length m"] by simp_all
  show "length t < fst (ws_head t) + 4 \<or> snd (ws_head t) + 14 < 2 ^ 64"
  proof (cases "length t < length ?h")
    case True
    with ws_head_fst [OF n [of 1]] show ?thesis by simp
  next
    case False
    then have "take (length ?h) t = ?h" using arg_cong [OF r, of "take (length ?h)"] by simp
    from ws_head_eq [OF this] assms(3) show ?thesis by simp
  qed
qed

lemma rfc6455_route_again:
  assumes "safe_uadd_law (safe_uadd E)" "length key = 4" "length m + 14 < 2 ^ 64"
    and "used \<le> length (rbuff_of c w)" "strict_prefix (drop used (rbuff_of c w)) (masked_frame key m)"
  shows "protocol_rfc6455_route E c used w = (PROT_AGAIN, used, w)"
proof -
  let ?t = "drop used (rbuff_of c w)"
  have pre: "prefix ?t (masked_frame key m @ [])" using assms(5) by (simp add: strict_prefix_def)
  show ?thesis
  proof (cases "6 \<le> length ?t")
    case True
    then have l: "2 \<le> length ?t" by simp
    have "masked_unframe ?t = None" by (rule masked_unframe_prefix [OF assms(5,2)]) (use assms(3) in simp)
    with rfc6455_route_unframe [OF assms(1,4) refl True masked_frame_front [OF pre l assms(3)]]
    show ?thesis by simp
  next
    case False
    from pre have "at (rbuff_of c w) used = NUL \<or> at (rbuff_of c w) used = CHR 0x81"
      by (cases ?t) (auto simp: at_def masked_frame_def masked_head_def nth_via_drop)
    then have "byte (at (rbuff_of c w) used) AND OPCODE \<noteq> OPCODE_CLOSE"
      by (auto simp: and_masks OPCODE_CLOSE_def)
    with False show ?thesis by (simp add: protocol_rfc6455_route_def ws_decode_def Let_def)
  qed
qed

section \<open>The invariant\<close>

lemma ws_decode_calm:
  assumes "ws_decode E c off w = (st, len, n, v)"
  shows "calm w v"
proof -
  have "calm w (qev_close c r (set_rbuff c b w))" for r b
    by (rule calm_trans [OF calm_rbuff calm_close])
  with assms show ?thesis
    by (auto simp: ws_decode_def ws_payload_def Let_def calm_close calm_rbuff split: if_splits option.splits prod.splits)
qed

lemma rfc6455_route_inv:
  assumes "app_laws E" "ready L c w"
  shows "subs_inv L (snd (snd (protocol_rfc6455_route E c used w)))"
proof -
  obtain st len n v where d: "ws_decode E c used w = (st, len, n, v)" by (metis prod_cases4)
  from ready_calm [OF ws_decode_calm [OF d] assms(2)] have v: "ready L c v" .
  then have i: "subs_inv L v" by (simp add: ready_def)
  have h: "subs_inv L (snd (protocol_raw_handle E c ev (set_rbuff c b v)))" for ev b
    by (rule raw_handle_inv [OF assms(1) ready_calm [OF calm_rbuff v]])
  show ?thesis using h i by (simp add: protocol_rfc6455_route_def d Let_def case_prod_beta)
qed

lemma rfc6455_handshake_calm: "calm w (snd (protocol_rfc6455_handshake E c w))"
proof -
  obtain st len n v where d: "ws_decode E c 0 w = (st, len, n, v)" by (metis prod_cases4)
  note v = ws_decode_calm [OF d]
  from calm_trans [OF v calm_rbuff] have r: "calm w (set_rbuff c [] v)" .
  show ?thesis
    using v r by (auto simp: protocol_rfc6455_handshake_def d Let_def protocol_raw_check_handshake_def
        qev_close_def intro!: calm_steps)
qed

section \<open>Whole frames\<close>

lemma rfc6455_route_complete:
  assumes "uint_str_law (uint_str E)" "safe_uadd_law (safe_uadd E)"
    and "rbuff_of c w = pre @ masked_frame key m @ rest" "used = length pre" "length key = 4"
    and "m = protocol_raw_format E path extra cb json" "length m + 14 < 2 ^ 64" "NUL \<notin> set m"
    and "CHR '':'' \<notin> set (path @ extra)" "cb \<noteq> - 1" "utf8_validate E m"
  shows "\<exists>b. protocol_rfc6455_route E c used w =
      (PROT_OK, used + length (masked_frame key m), evs_route E c (path @ extra) cb json (set_rbuff c b w)) \<and>
    drop (used + length (masked_frame key m)) b = rest \<and> length b = length (rbuff_of c w)"
proof -
  let ?s = "masked_frame key m @ rest"
  let ?b = "take used (rbuff_of c w) @ m @ NUL # drop (Suc (used + length m)) (rbuff_of c w)"
  let ?w = "set_rbuff c ?b w"
  have d: "?s = drop used (rbuff_of c w)" "used \<le> length (rbuff_of c w)" by (simp_all add: assms(3,4))
  have f: "length (masked_frame key m) = length (masked_head (length m)) + 4 + length m"
    using assms(5) by (simp add: masked_frame_def)
  have l: "6 \<le> length ?s" "2 \<le> length ?s"
    using masked_head_first(3) [of "length m"] f by simp_all
  have u: "masked_unframe ?s = Some (m, length (masked_frame key m))"
    by (rule masked_unframe_frame [OF assms(5)]) (use assms(7) in simp)
  have h: "protocol_raw_handle E c (cstr m) ?w = (PROT_OK, evs_route E c (path @ extra) cb json ?w)"
    using raw_handle_format [OF assms(1,9), where cb = cb and w = ?w and json = json] assms(10)
    by (simp add: cstr_id assms(8)) (simp add: assms(6))
  have "protocol_rfc6455_route E c used w =
      (PROT_OK, used + length (masked_frame key m), evs_route E c (path @ extra) cb json ?w)"
    using rfc6455_route_unframe [OF assms(2) d(2) d(1) l(1) masked_frame_front [OF prefix_order.refl l(2) assms(7)]]
    by (simp add: u h assms(11) Let_def)
  moreover have "drop (used + length (masked_frame key m)) ?b = rest"
  proof -
    obtain k where k: "length (masked_frame key m) = Suc (length m) + k" 
      using le_Suc_ex [of "Suc (length m)" "length (masked_frame key m)"] f by auto
    have "drop (used + length (masked_frame key m)) ?b = drop k (drop (Suc (used + length m)) (rbuff_of c w))"
      using d(2) by (simp add: k)
    also have "\<dots> = drop (used + length (masked_frame key m)) (rbuff_of c w)" by (simp add: k ac_simps)
    finally show ?thesis by (simp add: assms(3,4))
  qed
  moreover have "length ?b = length (rbuff_of c w)" using f by (simp add: assms(3,4))
  ultimately show ?thesis by blast
qed

section \<open>Properties\<close>

text \<open>
  C14. What a WebSocket client sends is what gets routed: a complete masked text frame of any
  length and with any key, wherever it stands in the read buffer, is consumed as a whole and
  its event reaches the router with its path, callback id and JSON; of an incomplete frame
  nothing is consumed and nothing happens, wherever the stream was cut.
\<close>

theorem rfc6455_route_receives:
  assumes "uint_str_law (uint_str E)" "safe_uadd_law (safe_uadd E)"
    and "rbuff_of c w = pre @ masked_frame key m @ rest" "used = length pre" "length key = 4"
    and "m = protocol_raw_format E path extra cb json" "length m + 14 < 2 ^ 64" "NUL \<notin> set m"
    and "CHR '':'' \<notin> set (path @ extra)" "cb \<noteq> - 1" "utf8_validate E m"
  shows "(\<exists>b. protocol_rfc6455_route E c used w =
      (PROT_OK, used + length (masked_frame key m), evs_route E c (path @ extra) cb json (set_rbuff c b w))) \<and>
    (\<forall>k v. length (masked_frame key m) \<le> k \<or> v \<noteq> set_rbuff c (take (used + k) (rbuff_of c w)) w \<or>
       protocol_rfc6455_route E c used v = (PROT_AGAIN, used, v))"
proof -
  have "protocol_rfc6455_route E c used v = (PROT_AGAIN, used, v)"
    if k: "k < length (masked_frame key m)" "v = set_rbuff c (take (used + k) (rbuff_of c w)) w" for k v
  proof (rule rfc6455_route_again [OF assms(2,5,7)])
    have t: "drop used (rbuff_of c v) = take k (masked_frame key m)"
      using k by (simp add: assms(3,4) take_append)
    then show "strict_prefix (drop used (rbuff_of c v)) (masked_frame key m)"
      using k(1) by (simp add: strict_prefix_def take_is_prefix)
    show "used \<le> length (rbuff_of c v)" using k by (simp add: assms(3,4))
  qed
  with rfc6455_route_complete [OF assms] show ?thesis by (meson not_le)
qed

definition sample_ws_world :: world where
  "sample_ws_world = set_rbuff 5 (masked_frame ''abcd'' ''/a:0=1'') handshaked_world"

lemma rfc6455_route_receives_witness:
  "\<exists>b. protocol_rfc6455_route sample_env 5 0 sample_ws_world =
     (PROT_OK, length (masked_frame ''abcd'' ''/a:0=1''), evs_route sample_env 5 ''/a'' 0 ''1'' (set_rbuff 5 b sample_ws_world))"
proof -
  have f: "''/a:0=1'' = protocol_raw_format sample_env ''/a'' [] 0 ''1''"
    by (simp add: protocol_raw_format_def sample_env_def dec_str.simps digit_chars)
  have l: "uint_str_law (uint_str sample_env)" "safe_uadd_law (safe_uadd sample_env)"
    by (simp_all add: uint_str_law_def safe_uadd_law_def sample_env_def)
  show ?thesis
    using rfc6455_route_receives [OF l, of 5 sample_ws_world "[]" "''abcd''" "''/a:0=1''" "[]" 0
        "''/a''" "[]" 0 "''1''", OF _ _ _ f]
    by (simp add: sample_ws_world_def sample_env_def)
qed

text \<open>
  C37. Frames the server does not take end the connection with the matching reason and route
  nothing: a close frame hangs up as soon as its first byte is there; other opcodes, unmasked
  frames and payloads that are not UTF-8 each have their own reason, which
  \<open>protocol_rfc6455_close\<close> tells the client in a close frame. A length that would overflow 64 bits
  together with its header is fatal.
\<close>

theorem rfc6455_bad_frames:
  assumes "safe_uadd_law (safe_uadd E)" "rbuff_of c w = pre @ s" "used = length pre"
    and "length key = 4" "length m + 14 < 2 ^ 64"
  shows "(s \<noteq> [] \<and> byte (hd s) mod 16 = 8 \<longrightarrow>
      protocol_rfc6455_route E c used w = (PROT_FATAL, used, qev_close c QEV_CLOSE_HUP w)) \<and>
    (6 \<le> length s \<and> byte (s ! 0) mod 16 \<notin> {1, 8} \<longrightarrow>
      protocol_rfc6455_route E c used w = (PROT_FATAL, used, qev_close c RFC6455_UNSUPPORTED_OPCODE w)) \<and>
    (6 \<le> length s \<and> byte (s ! 0) mod 16 = 1 \<and> byte (s ! 1) < 128 \<longrightarrow>
      protocol_rfc6455_route E c used w = (PROT_FATAL, used, qev_close c RFC6455_NO_MASK w)) \<and>
    (14 \<le> length s \<and> byte (s ! 0) mod 16 = 1 \<and> byte (s ! 1) = 255 \<and>
      2 ^ 64 \<le> be_value (take 8 (drop 2 s)) + 14 \<longrightarrow>
      protocol_rfc6455_route E c used w = (PROT_FATAL, used, w)) \<and>
    (prefix (masked_frame key m) s \<and> \<not> utf8_validate E m \<longrightarrow>
      (\<exists>b. protocol_rfc6455_route E c used w =
        (PROT_FATAL, used, qev_close c RFC6455_NOT_UTF8 (set_rbuff c b w)))) \<and>
    (\<forall>r. w_trace (protocol_rfc6455_close c r w) = w_trace w @ [E_write c (rfc6455_close_frame r)])"
proof -
  have at0: "s \<noteq> [] \<Longrightarrow> at (rbuff_of c w) used = s ! 0"
    and at1: "2 \<le> length s \<Longrightarrow> at (rbuff_of c w) (Suc used) = s ! 1"
    by (simp_all add: assms(2,3) at_def nth_append)
  have len: "length (rbuff_of c w) - used = length s" by (simp add: assms(2,3))
  note decode = protocol_rfc6455_route_def ws_decode_def ws_payload_def Let_def and_masks OPCODE_TEXT_def OPCODE_CLOSE_def
  have a: "protocol_rfc6455_route E c used w = (PROT_FATAL, used, qev_close c QEV_CLOSE_HUP w)"
    if "s \<noteq> []" "byte (hd s) mod 16 = 8"
    using that at0 by (simp add: decode hd_conv_nth)
  have b: "protocol_rfc6455_route E c used w = (PROT_FATAL, used, qev_close c RFC6455_UNSUPPORTED_OPCODE w)"
    if "6 \<le> length s" "byte (s ! 0) mod 16 \<notin> {1, 8}"
    using that at0 len by (cases s) (simp_all add: decode)
  have c: "protocol_rfc6455_route E c used w = (PROT_FATAL, used, qev_close c RFC6455_NO_MASK w)"
    if "6 \<le> length s" "byte (s ! 0) mod 16 = 1" "byte (s ! 1) < 128"
  proof -
    have "byte (s ! 1) AND MASKED_BIT = 0" by (rule masked_bit_clear [OF that(3)])
    with that at0 at1 len show ?thesis by (cases s) (simp_all add: decode)
  qed
  have d: "protocol_rfc6455_route E c used w = (PROT_FATAL, used, w)"
    if "14 \<le> length s" "byte (s ! 0) mod 16 = 1" "byte (s ! 1) = 255" "2 ^ 64 \<le> be_value (take 8 (drop 2 s)) + 14"
  proof -
    let ?n = "word_of_nat (be_value (take 8 (drop 2 s))) :: guint64"
    have "be_value (take 8 (drop 2 s)) < 256 ^ 8" using be_value_bound [of "take 8 (drop 2 s)"] that(1) by simp
    then have "unat ?n = be_value (take 8 (drop 2 s))" by (intro unat_small) simp
    then have "safe_uadd E 14 ?n = None"
      using assms(1) that(4) by (simp add: safe_uadd_law_def checked_uadd_def)
    moreover have "byte (s ! 1) AND MASKED_BIT \<noteq> 0" by (rule masked_bit) (use that(3) in simp_all)
    moreover have "drop (Suc (Suc used)) (rbuff_of c w) = drop 2 s" by (simp add: assms(2,3))
    ultimately show ?thesis
      using that at0 at1 len by (cases s) (simp_all add: decode PAYLOAD_SHORT_def PAYLOAD_MEDIUM_def)
  qed
  have e: "\<exists>b. protocol_rfc6455_route E c used w =
      (PROT_FATAL, used, qev_close c RFC6455_NOT_UTF8 (set_rbuff c b w))"
    if h: "prefix (masked_frame key m) s" "\<not> utf8_validate E m"
  proof -
    obtain rest where s: "s = masked_frame key m @ rest" using h(1) by (auto simp: prefix_def)
    have l: "6 \<le> length s" "2 \<le> length s"
      using masked_head_first(3) [of "length m"] assms(4) by (simp_all add: masked_frame_def s)
    have u: "masked_unframe s = Some (m, length (masked_frame key m))"
      unfolding s by (rule masked_unframe_frame [OF assms(4)]) (use assms(5) in simp)
    have p: "prefix s (masked_frame key m @ rest)" by (simp add: s)
    have "used \<le> length (rbuff_of c w)" "s = drop used (rbuff_of c w)" by (simp_all add: assms(2,3))
    from rfc6455_route_unframe [OF assms(1) this l(1) masked_frame_front [OF p l(2) assms(5)]] h(2)
    show ?thesis by (auto simp: u Let_def)
  qed
  show ?thesis using a b c d e by (auto simp: protocol_rfc6455_close_def)
qed

lemma rfc6455_bad_frames_witness:
  "protocol_rfc6455_route sample_env 5 0 (set_rbuff 5 [CHR 0x88] handshaked_world) =
     (PROT_FATAL, 0, qev_close 5 QEV_CLOSE_HUP (set_rbuff 5 [CHR 0x88] handshaked_world))"
proof -
  have l: "safe_uadd_law (safe_uadd sample_env)" by (simp add: safe_uadd_law_def sample_env_def)
  show ?thesis
    using rfc6455_bad_frames [OF l, of 5 "set_rbuff 5 [CHR 0x88] handshaked_world" "[]" "[CHR 0x88]" 0 "''abcd''" "[]"]
    by simp
qed

end
