(* ===== verification/Event_Frame.thy ===== *)
theory Event_Frame
  imports Protocol_Raw
begin

text \<open>
  What routing an event can change at all. The locale \<open>event_frame\<close> is the interface of a relation
  between states that the elementary operations on behalf of one client keep; routing an event
  of that client keeps it then, whatever handler it reaches. Instances: the read buffers and
  HTTP links that stay (\<open>Steady\<close>) and the graph of polls with the limits of the server (\<open>Polls\<close>).
\<close>

text \<open>A client without the fields that handling its events changes.\<close>

definition still_view :: "client \<Rightarrow> client" where
  "still_view cl = cl\<lparr>c_subs := None, c_data := None, c_cbs := [], c_cbs_id := 0, c_last_send := 0\<rparr>"

definition opens :: "effect \<Rightarrow> bool" where
  "opens e \<longleftrightarrow> (case e of E_surrogate s \<Rightarrow> True | _ \<Rightarrow> False)"

lemma opens_simps [simp]:
  "\<not> opens (E_write c s)" "\<not> opens (E_close c r)" "\<not> opens (E_timeout c)" "\<not> opens (E_timeout_clear c)"
  "\<not> opens (E_ref c)" "\<not> opens (E_unref d)" "\<not> opens (E_list_add sub c b)" "\<not> opens (E_list_remove sub c)"
  "\<not> opens (E_list_free sub)" "\<not> opens (E_fair_use n b)" "\<not> opens E_fair_return" "\<not> opens (E_free_data f dt)"
  "\<not> opens (E_random n)" "\<not> opens (E_flush c)" "\<not> opens (E_handler n c x cb j)" "\<not> opens (E_on n c sub)"
  "\<not> opens (E_off n c x)" "\<not> opens (E_cb n c dd cb j)" "opens (E_surrogate c)"
  by (simp_all add: opens_def)

locale event_frame =
  fixes E :: env and c :: cid and R :: "world \<Rightarrow> world \<Rightarrow> bool" and fit :: "world \<Rightarrow> bool"
  assumes refl: "R w w"
    and trans: "R u v \<Longrightarrow> R v w \<Longrightarrow> R u w"
    and fit_kept: "R w v \<Longrightarrow> fit w \<Longrightarrow> fit v"
    and emit: "\<not> opens e \<Longrightarrow> R w (emit e w)"
    and fault: "R w (fault w)"
    and stat: "R w (stat_inc s w)" "R w (stat_dec s w)"
    and subs: "R w (sub_ref sub w)" "R w (sub_unref sub w)" "R w (snd (sub_get ev x cr w))"
    and upd: "fit w \<Longrightarrow> (\<And>cl. still_view (f cl) = still_view cl) \<Longrightarrow> R w (upd_client c f w)"
    and send: "fit w \<Longrightarrow> R w (protocols_send E c path ex cb json w)"
    and apps: "fit w \<Longrightarrow> R w (snd (app_handler E n c ex' cb json w))"
      "fit w \<Longrightarrow> oi_client info = c \<Longrightarrow> R w (snd (app_on E n info w))"
      "fit w \<Longrightarrow> R w (app_off E n c ex' w)"
      "fit w \<Longrightarrow> R w (snd (app_cb E n c d cb json w))"
begin

text \<open>From a fit state into a fit state; one more step at the end of a chain.\<close>

definition to :: "world \<Rightarrow> world \<Rightarrow> bool" where
  "to u w \<longleftrightarrow> R u w \<and> fit w"

lemma to_refl: "fit w \<Longrightarrow> to w w"
  by (simp add: to_def refl)

lemma to_step: "to u w \<Longrightarrow> (fit w \<Longrightarrow> R w v) \<Longrightarrow> to u v"
  by (auto simp: to_def intro: trans fit_kept)

lemma to_trans: "to u v \<Longrightarrow> to v w \<Longrightarrow> to u w"
  by (auto simp: to_def intro: trans)

lemma to_data_free: "to u w \<Longrightarrow> to u (cb_data_free d f w)"
  by (erule to_step) (simp add: cb_data_free_def refl emit split: option.split)

lemma to_steps:
  "to u w \<Longrightarrow> \<not> opens e \<Longrightarrow> to u (emit e w)" "to u w \<Longrightarrow> to u (fault w)"
  "to u w \<Longrightarrow> to u (stat_inc s w)" "to u w \<Longrightarrow> to u (stat_dec s w)"
  "to u w \<Longrightarrow> to u (sub_ref sub w)" "to u w \<Longrightarrow> to u (sub_unref sub w)"
  "to u w \<Longrightarrow> to u (snd (sub_get ev x cr w))"
  "to u w \<Longrightarrow> (\<And>cl. still_view (f cl) = still_view cl) \<Longrightarrow> to u (upd_client c f w)"
  "to u w \<Longrightarrow> to u (protocols_send E c path ex cb json w)"
  by (erule to_step, blast intro: emit fault stat subs upd send)+

lemma to_apps:
  "to u w \<Longrightarrow> to u (snd (app_handler E n c ex' cb json w))"
  "to u w \<Longrightarrow> oi_client info = c \<Longrightarrow> to u (snd (app_on E n info w))"
  "to u w \<Longrightarrow> to u (app_off E n c ex' w)"
  "to u w \<Longrightarrow> to u (snd (app_cb E n c d cb json w))"
  by (erule to_step, rule apps, assumption+)+

lemmas to_intros = to_steps to_data_free to_apps

text \<open>Callbacks.\<close>

lemma to_cb_remove: "to u w \<Longrightarrow> to u (cb_remove c i w)"
  unfolding cb_remove_def by (intro to_intros) (simp_all add: still_view_def)

lemma to_cb_free: "to u w \<Longrightarrow> to u (cb_free c i w)"
  unfolding cb_free_def by (auto split: option.split intro!: to_intros to_cb_remove)

lemma to_cb_new: "to u w \<Longrightarrow> d = Some c \<or> fn = None \<Longrightarrow> to u (snd (client_cb_new E d fn data free_fn w))"
  by (auto simp: client_cb_new_def Let_def still_view_def split: option.split prod.split
      intro!: to_intros to_cb_free)

lemma to_cb_full: "to u w \<Longrightarrow> to u (evs_cb_full E c cb code err json fn data free_fn w)"
  by (auto simp: evs_cb_full_def Let_def case_prod_beta intro!: to_intros to_cb_new)

lemma to_evs_cb:
  "to u w \<Longrightarrow> to u (evs_cb E c cb json w)" "to u w \<Longrightarrow> to u (evs_err_cb E c cb code err json w)"
  unfolding evs_cb_def evs_err_cb_def by (erule to_cb_full)+

text \<open>Subscriptions.\<close>

lemma to_csub:
  "to u w \<Longrightarrow> to u (csub_write c sub f w)" "to u w \<Longrightarrow> to u (csub_insert c sub cs w)"
  unfolding csub_write_def csub_insert_def by (intro to_intros; simp add: still_view_def)+

lemma to_sub_alloc: "to u w \<Longrightarrow> to u (snd (sub_alloc E c w))"
  by (simp add: sub_alloc_def Let_def to_intros)

lemma to_sub_cleanup:
  assumes "to u w"
  shows "to u (sub_cleanup E c sub b w)"
proof -
  have "to u (evs_client_off E c sub (list_remove sub c w))"
    using assms by (auto simp: evs_client_off_def list_remove_def split: option.split off_ptr.split
        intro!: to_intros)
  then show ?thesis
    by (auto simp: sub_cleanup_def Let_def sub_free_def still_view_def intro!: to_intros)
qed

lemmas to_sub_intros = to_intros to_csub to_sub_cleanup

lemma to_sub_remove: "to u w \<Longrightarrow> to u (snd (sub_remove E c sub r w))"
  by (auto simp: sub_remove_def split: option.split intro!: to_sub_intros)

lemma to_sub_add: "to u w \<Longrightarrow> to u (snd (client_sub_add E c sub w))"
  using to_sub_alloc [of u w]
  by (auto simp: client_sub_add_def Let_def case_prod_beta split: option.split intro!: to_sub_intros)

lemma to_sub_accept: "to u w \<Longrightarrow> to u (snd (client_sub_accept E c sub w))"
  by (auto simp: client_sub_accept_def Let_def split: option.split intro!: to_sub_intros)

lemma to_on_cb:
  assumes "to u w" "oi_client info = c"
  shows "to u (evs_on_cb E success info w)"
  unfolding evs_on_cb_def client_sub_reject_def Let_def assms(2) using assms(1)
  by (auto simp: case_prod_beta split: option.split
      intro!: to_evs_cb to_sub_accept to_sub_remove to_intros)

lemma to_call_on:
  assumes "to u w" "oi_client info = c"
  shows "to u (snd (call_on E on info w))"
  using to_apps(2) [OF to_steps(1) [OF assms(1)] assms(2)] assms(1)
  by (auto simp: call_on_def split: option.split on_ptr.split)

lemma to_on_added:
  assumes "to u w" "oi_client info = c"
  shows "to u (evs_on_added E ev info st w)"
proof -
  have o: "to u (snd (call_on E (on_fn ev) info w))" by (rule to_call_on [OF assms])
  show ?thesis
    unfolding evs_on_added_def Let_def assms(2) using o to_on_cb [OF o assms(2)] to_evs_cb [OF assms(1)]
    by (auto simp: case_prod_beta split: client_sub_state.split)
qed

lemma to_evs_on:
  assumes "to u w"
  shows "to u (evs_on E c ev x cb json w)"
proof -
  obtain r w1 where g: "sub_get ev x True w = (r, w1)" by (cases "sub_get ev x True w")
  have w1: "to u w1" using to_steps(7) [OF assms, of ev x True] g by simp
  then show ?thesis
    by (auto simp: evs_on_def g Let_def case_prod_beta split: option.split
        intro!: to_intros to_on_added to_sub_add)
qed

lemma to_evs_off:
  assumes "to u w"
  shows "to u (evs_off E c ev x w)"
proof -
  obtain r w1 where g: "sub_get ev x False w = (r, w1)" by (cases "sub_get ev x False w")
  have w1: "to u w1" using to_steps(7) [OF assms, of ev x False] g by simp
  then show ?thesis
    by (auto simp: evs_off_def g client_sub_remove_def split: option.split intro!: to_intros to_sub_remove)
qed

text \<open>Routing.\<close>

lemma to_cb_fire: "to u w \<Longrightarrow> to u (snd (client_cb_fire E c scb ccb json w))"
  by (auto simp: client_cb_fire_def call_cb_def Let_def case_prod_beta split: option.split cb_ptr.split
      intro!: to_evs_cb to_intros to_cb_remove)

lemma to_call_handler: "to u w \<Longrightarrow> to u (snd (call_handler E h c x cb json w))"
  by (auto simp: call_handler_def qio_callback_def qio_hostname_def qio_on_def qio_off_def qio_ping_def Let_def
      split: handler_ptr.split option.split query_result.split
      intro!: to_evs_cb to_cb_fire to_evs_on to_evs_off to_intros)

lemma to_evs_route: "to u w \<Longrightarrow> to u (evs_route E c path cb json w)"
  by (auto simp: evs_route_def Let_def case_prod_beta split: query_result.split option.split evs_status.split
      intro!: to_evs_cb to_call_handler to_intros)

lemma to_raw_handle: "to u w \<Longrightarrow> to u (snd (protocol_raw_handle E c event w))"
  by (auto simp: protocol_raw_handle_def Let_def qev_close_def split: option.split prod.split
      intro!: to_evs_route to_intros)

text \<open>Sending to a subscriber, heartbeats, closing.\<close>

lemma to_send_sub: "to u w \<Longrightarrow> to u (evs_send_sub_full E c sub json fn data free_fn w)"
  by (auto simp: evs_send_sub_full_def Let_def case_prod_beta split: option.split intro!: to_intros to_cb_new)

lemma to_send: "to u w \<Longrightarrow> to u (evs_send_full E c ev x json fn data free_fn w)"
proof -
  assume w: "to u w"
  obtain r w1 where g: "sub_get ev x False w = (r, w1)" by (cases "sub_get ev x False w")
  have "to u w1" using to_steps(7) [OF w, of ev x False] g by simp
  with w show ?thesis
    by (auto simp: evs_send_full_def g Let_def split: option.split intro!: to_intros to_send_sub)
qed

lemma to_bruteforce: "to u w \<Longrightarrow> to u (evs_send_bruteforce E c pre path extra json fn data free_fn w)"
  by (auto simp: evs_send_bruteforce_def Let_def case_prod_beta intro!: to_intros to_cb_new)

lemma to_heartbeat: "to u w \<Longrightarrow> to u (protocol_raw_do_heartbeat E c hb frame w)"
  by (auto simp: protocol_raw_do_heartbeat_def Let_def qev_close_def touch_send_def still_view_def
      intro!: to_bruteforce to_intros)

lemma to_closed: "to u w \<Longrightarrow> to u (client_closed E c w)"
proof -
  have r: "to u (closed_round E c e v)" if "to u v" for e v
    unfolding closed_round_def using that by (intro to_sub_cleanup to_steps(8)) (simp_all add: still_view_def)
  have "to u (fold (closed_round E c) l v)" if "to u v" for l v
    using that by (induction l arbitrary: v) (simp_all add: r)
  then show "to u w \<Longrightarrow> to u (client_closed E c w)"
    by (auto simp: client_closed_def still_view_def split: option.split intro!: to_steps(8))
qed

lemma closed_framed: "fit w \<Longrightarrow> R w (client_closed E c w)"
  using to_closed [OF to_refl] by (simp add: to_def)

lemma send_framed: "fit w \<Longrightarrow> R w (evs_send_full E c ev x json fn data free_fn w)"
  using to_send [OF to_refl] by (simp add: to_def)

lemma heartbeat_framed: "fit w \<Longrightarrow> R w (protocol_raw_do_heartbeat E c hb frame w)"
  using to_heartbeat [OF to_refl] by (simp add: to_def)

lemma route_framed: "fit w \<Longrightarrow> R w (evs_route E c path cb json w)"
  using to_evs_route [OF to_refl] by (simp add: to_def)

lemma handle_framed: "fit w \<Longrightarrow> R w (snd (protocol_raw_handle E c event w))"
  using to_raw_handle [OF to_refl] by (simp add: to_def)

end

end
