(* ===== verification/Steady.thy ===== *)
theory Steady
  imports Event_Frame
begin

text \<open>
  What routing an event leaves alone: the read buffer, the protocol, the HTTP state of every
  client. Only subscriptions, callbacks, the time of the last send and, when a poll is answered,
  the link between a surrogate and its poller change; and for the clients of a set \<open>P\<close> not even
  the latter, if the client that sent the event cannot answer polls.
\<close>

section \<open>The relation\<close>

definition shell :: "client \<Rightarrow> client" where
  "shell cl = (still_view cl)\<lparr>c_http_client := None, c_in_request := False\<rparr>"

definition steady :: "cid set \<Rightarrow> world \<Rightarrow> world \<Rightarrow> bool" where
  "steady P w v \<longleftrightarrow>
     (\<forall>c. shell (w_clients v c) = shell (w_clients w c)) \<and>
     (\<forall>p \<in> P. still_view (w_clients v p) = still_view (w_clients w p))"

text \<open>Events for this client are not written as the response to a poll.\<close>

definition hushed :: "cid set \<Rightarrow> cid \<Rightarrow> world \<Rightarrow> bool" where
  "hushed P c w \<longleftrightarrow>
     P = {} \<or> c_prot (w_clients w c) \<noteq> Some P_http \<or> c_incoming (w_clients w c)"

text \<open>
  What is asked of applications: the interface of the server has no function to touch the
  state that \<open>steady\<close> speaks of. With \<open>P\<close> not empty, also that they do not answer these polls.
\<close>

definition steady_law :: "cid set \<Rightarrow> env \<Rightarrow> bool" where
  "steady_law P E \<longleftrightarrow>
     (\<forall>n c x cb j w. steady P w (snd (app_handler E n c x cb j w))) \<and>
     (\<forall>n info w. steady P w (snd (app_on E n info w))) \<and>
     (\<forall>n c x w. steady P w (app_off E n c x w)) \<and>
     (\<forall>n c d cb j w. steady P w (snd (app_cb E n c d cb j w)))"

lemma steady_refl [simp]: "steady P w w"
  by (simp add: steady_def)

lemma steady_trans: "steady P u v \<Longrightarrow> steady P v w \<Longrightarrow> steady P u w"
  by (simp add: steady_def)

lemma steady_app:
  assumes "steady_law P E" "steady P u w"
  shows "steady P u (snd (app_handler E n c x cb j w))" "steady P u (snd (app_on E m info w))"
    "steady P u (app_off E k c x w)" "steady P u (snd (app_cb E l c d cb j w))"
  using assms by (auto simp: steady_law_def intro: steady_trans)

lemma steady_law_sample: "steady_law P sample_env"
  by (simp add: steady_law_def sample_env_def)

lemma shell_fields:
  assumes "shell a = shell b"
  shows "c_prot a = c_prot b" "c_handshaked a = c_handshaked b" "c_rbuff a = c_rbuff b"
    "c_incoming a = c_incoming b" "c_http_body_len a = c_http_body_len b" "c_keep_alive a = c_keep_alive b"
    "c_timeout a = c_timeout b" "c_last_recv a = c_last_recv b"
  using arg_cong [OF assms, of c_prot] arg_cong [OF assms, of c_handshaked] arg_cong [OF assms, of c_rbuff]
    arg_cong [OF assms, of c_incoming] arg_cong [OF assms, of c_http_body_len]
    arg_cong [OF assms, of c_keep_alive] arg_cong [OF assms, of c_timeout] arg_cong [OF assms, of c_last_recv]
  by (simp_all add: shell_def still_view_def)

lemma still_fields:
  assumes "still_view a = still_view b"
  shows "c_in_request a = c_in_request b" "c_http_client a = c_http_client b"
  using arg_cong [OF assms, of c_in_request] arg_cong [OF assms, of c_http_client]
  by (simp_all add: still_view_def)

lemma steadyD:
  assumes "steady P w v"
  shows "c_prot (w_clients v c) = c_prot (w_clients w c)" "c_handshaked (w_clients v c) = c_handshaked (w_clients w c)"
    "c_rbuff (w_clients v c) = c_rbuff (w_clients w c)" "c_incoming (w_clients v c) = c_incoming (w_clients w c)"
    "c_http_body_len (w_clients v c) = c_http_body_len (w_clients w c)"
    "p \<in> P \<Longrightarrow> c_in_request (w_clients v p) = c_in_request (w_clients w p)"
    "p \<in> P \<Longrightarrow> c_http_client (w_clients v p) = c_http_client (w_clients w p)"
  using assms shell_fields [of "w_clients v c" "w_clients w c"] still_fields [of "w_clients v p" "w_clients w p"]
  by (simp_all add: steady_def)

lemma hushed_steady: "steady P w v \<Longrightarrow> hushed P c w \<Longrightarrow> hushed P c v"
  using steadyD(1,4) [of P w v c] by (simp add: hushed_def)

section \<open>Elementary steps\<close>

lemma steady_clients: "w_clients v = w_clients w \<Longrightarrow> steady P w v"
  by (simp add: steady_def)

lemma steady_upd: "still_view (f (w_clients w c)) = still_view (w_clients w c) \<Longrightarrow> steady P w (upd_client c f w)"
  by (simp add: steady_def shell_def)

text \<open>One more step at the end of a chain.\<close>

lemma steady_steps:
  "steady P u w \<Longrightarrow> steady P u (emit e w)" "steady P u w \<Longrightarrow> steady P u (fault w)"
  "steady P u w \<Longrightarrow> steady P u (stat_inc s w)" "steady P u w \<Longrightarrow> steady P u (stat_dec s w)"
  "steady P u w \<Longrightarrow> steady P u (sub_ref sub w)" "steady P u w \<Longrightarrow> steady P u (sub_unref sub w)"
  "steady P u w \<Longrightarrow> steady P u (snd (sub_get ev x cr w))"
  "steady P u w \<Longrightarrow> steady P u (cb_data_free d f w)"
  by (erule steady_trans, rule steady_clients, simp add: frame_simps)+

lemma steady_upd_step:
  "steady P u w \<Longrightarrow> still_view (f (w_clients w c)) = still_view (w_clients w c) \<Longrightarrow> steady P u (upd_client c f w)"
  by (blast intro: steady_trans steady_upd)

lemma steady_touch: "steady P u w \<Longrightarrow> steady P u (touch_send c w)"
  unfolding touch_send_def by (rule steady_upd_step) (simp_all add: still_view_def)

lemmas steady_intros = steady_steps steady_upd_step steady_touch

section \<open>Sending\<close>

lemma steady_same_core: "same_core w v \<Longrightarrow> steady {} w v"
proof -
  assume "same_core w v"
  then have q: "quiet (w_clients v c) = quiet (w_clients w c)" for c by (simp add: same_core_def)
  have s: "shell cl = (quiet cl)\<lparr>c_subs := None, c_data := None, c_cbs := [], c_cbs_id := 0\<rparr>" for cl
    by (simp add: shell_def still_view_def quiet_def)
  show ?thesis by (simp add: steady_def s q)
qed

lemma steady_send_frames:
  assumes "hushed P c w" "c_prot (w_clients w c) \<noteq> None"
  shows "steady P w (send_frames E c fr w)"
proof (cases "P = {}")
  case True
  with steady_same_core [OF same_core_send_frames [OF assms(2)]] show ?thesis by simp
next
  case False
  from assms(2) obtain p where p: "c_prot (w_clients w c) = Some p" by auto
  have t: "c_incoming (w_clients (touch_send c w) c) = c_incoming (w_clients w c)" by (simp add: touch_send_def)
  from False p assms(1) show ?thesis
    by (auto simp: send_frames_eq hushed_def protocol_http_send_def t Let_def split: option.split
        intro!: steady_intros)
qed

lemma steady_protocols_send: "hushed P c w \<Longrightarrow> steady P w (protocols_send E c path x cb json w)"
  using steady_send_frames [of P c w]
  by (auto simp: protocols_send_def Let_def split: option.split intro!: steady_intros)

section \<open>Routing\<close>

text \<open>The law of the applications is part of the relation, so that the frame holds for every \<open>E\<close>.\<close>

interpretation steady_frame: event_frame E c "\<lambda>w v. steady_law P E \<longrightarrow> steady P w v" "\<lambda>w. steady_law P E \<longrightarrow> hushed P c w"
  for E c P
proof unfold_locales
  fix w f assume "\<And>cl. still_view (f cl) = still_view cl"
  then show "steady_law P E \<longrightarrow> steady P w (upd_client c f w)" by (simp add: steady_upd)
qed (auto intro: steady_trans hushed_steady steady_steps steady_protocols_send steady_app)

lemma steady_evs_route:
  "steady_law P E \<Longrightarrow> hushed P c w \<Longrightarrow> steady P w (evs_route E c path cb json w)"
  using steady_frame.route_framed [of P E c w] by blast

lemma steady_raw_handle:
  "steady_law P E \<Longrightarrow> hushed P c w \<Longrightarrow> steady P w (snd (protocol_raw_handle E c event w))"
  using steady_frame.handle_framed [of P E c w] by blast

end
