(* ===== verification/Protocol_Http.thy ===== *)
theory Protocol_Http
  imports Protocol_Rfc6455 Steady
begin

text \<open>
  HTTP long polling (\<open>src/protocols_http.c\<close>): requests, surrogates and polls, the upgrade to
  WebSocket, heartbeats and closing. Responses are in \<open>Protocols_Send\<close>. Parsing a request, hashing
  and the pages are not code of the repository and are fields of \<open>env\<close>.
\<close>

section \<open>Strings\<close>

text \<open>\<open>strstr\<close>: the rest of the string from the first occurrence on.\<close>

fun strstr :: "string \<Rightarrow> string \<Rightarrow> string option" where
  "strstr [] needle = (if needle = [] then Some [] else None)"
| "strstr (c # s) needle = (if prefix needle (c # s) then Some (c # s) else strstr s needle)"

definition to_lower :: "char \<Rightarrow> char" where
  "to_lower c = (if 65 \<le> byte c \<and> byte c \<le> 90 then char_of (byte c + 32) else c)"

definition strcasestr :: "string \<Rightarrow> string \<Rightarrow> string option" where
  "strcasestr s needle = strstr (map to_lower s) (map to_lower needle)"

text \<open>The tokens \<open>strtok_r\<close> cuts a string into: separators at the front are skipped.\<close>

fun tokens_from :: "char \<Rightarrow> string \<Rightarrow> string \<Rightarrow> string list" where
  "tokens_from sep [] cur = (if cur = [] then [] else [rev cur])"
| "tokens_from sep (c # s) cur =
     (if c = sep then (if cur = [] then tokens_from sep s [] else rev cur # tokens_from sep s [])
      else tokens_from sep s (c # cur))"

definition strtok_all :: "char \<Rightarrow> string \<Rightarrow> string list" where
  "strtok_all sep s = tokens_from sep s []"

definition has_complete_header :: "cid \<Rightarrow> world \<Rightarrow> bool" where
  "has_complete_header c w =
     (let str = cstr (rbuff_of c w)
      in strstr str (CRLF @ CRLF) \<noteq> None \<or> strstr str [CHR 0x0A, CHR 0x0A] \<noteq> None)"

section \<open>Surrogates and their polls\<close>

definition surr_replace :: "env \<Rightarrow> cid \<Rightarrow> cid \<Rightarrow> world \<Rightarrow> world" where
  "surr_replace E surrogate new_poller w =
     (let old_poller = c_http_client (w_clients w surrogate);
          w1 = upd_client surrogate (\<lambda>cl. cl\<lparr>c_http_client := None\<rparr>) w;
          closing = (is_closing E (w_trace w1) surrogate \<or> is_closing E (w_trace w1) new_poller);
          w2 = (if \<not> closing
                then upd_client surrogate (\<lambda>cl. cl\<lparr>c_http_client := Some new_poller\<rparr>)
                       (emit (E_ref new_poller) w1)
                else w1);
          w3 = (if closing then snd (send_error E (Some new_poller) STATUS_403 w2) else w2)
      in case old_poller of
           None \<Rightarrow> w3
         | Some p \<Rightarrow>
             emit (E_unref (Some p))
               (snd (send_error E (Some p) (if closing then STATUS_403 else STATUS_200) w3)))"

text \<open>The \<open>ASSERT\<close> of \<open>_surr_send\<close> ends the process when its response is not sent.\<close>

definition surr_send :: "env \<Rightarrow> cid \<Rightarrow> cid \<Rightarrow> string \<Rightarrow> world \<Rightarrow> world" where
  "surr_send E surrogate new_poller msgs w =
     (let resp = build_response E STATUS_200 (Some msgs);
          (poller, w1) = steal_client surrogate w;
          (sent, w2) =
            (case poller of
               None \<Rightarrow> (False, w1)
             | Some p \<Rightarrow>
                 (let (s, a) = send_response E (Some p) STATUS_200 resp w1
                  in (s, emit (E_unref (Some p)) a)))
      in if sent then surr_replace E surrogate new_poller w2
         else
           (let (ok, w3) = send_response E (Some new_poller) STATUS_200 resp w2
            in if ok then w3 else fault w3))"

text \<open>The loop over the messages of a body: whether all were well-formed.\<close>

fun surr_messages :: "env \<Rightarrow> cid \<Rightarrow> string list \<Rightarrow> world \<Rightarrow> bool \<times> world" where
  "surr_messages E surrogate [] w = (True, w)"
| "surr_messages E surrogate (msg # msgs) w =
     (let (status, w1) = protocol_raw_handle E surrogate msg w
      in if status \<noteq> PROT_OK then (False, w1) else surr_messages E surrogate msgs w1)"

definition surr_route :: "env \<Rightarrow> cid \<Rightarrow> cid \<Rightarrow> string \<Rightarrow> world \<Rightarrow> world" where
  "surr_route E surrogate from body w =
     (let w1 = upd_client surrogate (\<lambda>cl. cl\<lparr>c_incoming := True\<rparr>) w;
          (ok, w2) = surr_messages E surrogate (strtok_all (CHR 0x0A) body) w1
      in if \<not> ok then snd (send_error E (Some from) STATUS_400 w2)
         else
           (let w3 = upd_client surrogate (\<lambda>cl. cl\<lparr>c_incoming := False\<rparr>) w2;
                msgs = surrogate_flush E (w_trace w3) surrogate;
                w4 = emit (E_flush surrogate) w3
            in case msgs of
                 None \<Rightarrow> stat_inc St_http_requests_poll (surr_replace E surrogate from w4)
               | Some m \<Rightarrow> stat_inc St_http_requests_immediate (surr_send E surrogate from m w4)))"

text \<open>\<open>_set_handshaked\<close> and \<open>protocols_new_surrogate\<close> of \<open>src/protocols.c\<close>\<close>

definition set_handshaked :: "cid \<Rightarrow> world \<Rightarrow> world" where
  "set_handshaked c w =
     emit (E_timeout_clear c)
       (upd_client c (\<lambda>cl. cl\<lparr>c_last_send := w_now w, c_handshaked := True, c_timeout := False\<rparr>) w)"

definition protocols_new_surrogate :: "env \<Rightarrow> prot \<Rightarrow> world \<Rightarrow> cid option \<times> world" where
  "protocols_new_surrogate E p w =
     (case surrogate_new E (w_trace w) of
        None \<Rightarrow> (None, w)
      | Some c \<Rightarrow>
          (Some c, set_handshaked c
             (upd_client c (\<lambda>_. qev_client_new\<lparr>c_prot := Some p\<rparr>) (emit (E_surrogate c) w))))"

definition n_clients :: nat where
  "n_clients = 64"

definition surr_find :: "env \<Rightarrow> uint128 \<Rightarrow> bool \<Rightarrow> world \<Rightarrow> cid option \<times> world" where
  "surr_find E sid or_create w =
     (let which = unat sid mod n_clients in
      case w_surrogates w (which, sid) of
        Some s \<Rightarrow> (Some s, w)
      | None \<Rightarrow>
          if \<not> or_create then (None, w)
          else
            (case protocols_new_surrogate E P_http w of
               (None, w1) \<Rightarrow> (None, w1)
             | (Some s, w1) \<Rightarrow>
                 (let w2 = upd_client s (\<lambda>cl. cl\<lparr>c_last_send := w_now w1, c_http_sid := sid,
                             c_http_tbl := which\<rparr>) w1
                  in (Some s, stat_inc St_http_surrogates_opened
                        (w2\<lparr>w_surrogates := (w_surrogates w2)((which, sid) \<mapsto> s)\<rparr>)))))"

definition is_xdigit :: "char \<Rightarrow> bool" where
  "is_xdigit c \<longleftrightarrow> is_digit c \<or> 65 \<le> byte c \<and> byte c \<le> 70 \<or> 97 \<le> byte c \<and> byte c \<le> 102"

definition xdigit_value :: "char \<Rightarrow> nat" where
  "xdigit_value c =
     (if byte c \<le> 57 then byte c - 48 else if byte c \<le> 70 then byte c - 55 else byte c - 87)"

text \<open>The loop of \<open>_get_surrogate\<close>: how many digits there were, and their value.\<close>

fun sid_digits :: "nat \<Rightarrow> string \<Rightarrow> uint128 \<Rightarrow> nat \<times> uint128" where
  "sid_digits i [] uuid = (i, uuid)"
| "sid_digits i (c # s) uuid =
     (if i < 32 \<and> is_xdigit c
      then sid_digits (Suc i) s (uuid OR push_bit (i * 4) (word_of_nat (xdigit_value c)))
      else (i, uuid))"

definition get_surrogate :: "env \<Rightarrow> string \<Rightarrow> world \<Rightarrow> cid option \<times> world" where
  "get_surrogate E url w =
     (case strstr url ''sid='' of
        None \<Rightarrow> (None, w)
      | Some s \<Rightarrow>
          (let new_client = (strstr url ''connect=true'' \<noteq> None);
               (i, uuid) = sid_digits 0 (drop 4 s) 0
           in if i \<noteq> 32 then (None, w) else surr_find E uuid new_client w))"

section \<open>Requests\<close>

text \<open>\<open>_iframe_source\<close>, as \<open>protocol_http_init\<close> fills it; \<open>html_iframe\<close> has the address in it.\<close>

definition iframe_source :: "env \<Rightarrow> string" where
  "iframe_source E = build_response_full E STATUS_200 (Some (html_iframe E)) True"

definition do_body :: "env \<Rightarrow> cid \<Rightarrow> string \<Rightarrow> world \<Rightarrow> world" where
  "do_body E c start w =
     (if cfg_public_address E = None then snd (send_error E (Some c) STATUS_501 w)
      else if c_iframe_requested (w_clients w c) then
        stat_inc St_http_requests_iframe (snd (send_response E (Some c) STATUS_200 (iframe_source E) w))
      else if \<not> c_is_post (w_clients w c) then
        stat_inc St_http_requests_invalid_method (snd (send_error E (Some c) STATUS_405 w))
      else
        (case c_http_client (w_clients w c) of
           None \<Rightarrow> snd (send_error E (Some c) STATUS_403 w)
         | Some surrogate \<Rightarrow> surr_route E surrogate c start w))"

definition do_headers_websocket ::
  "env \<Rightarrow> cid \<Rightarrow> http_request \<Rightarrow> string option \<Rightarrow> string option \<Rightarrow> world \<Rightarrow> protocol_status \<times> world" where
  "do_headers_websocket E c headers connection key w =
     (let protocol = hr_header headers ''Sec-WebSocket-Protocol'';
          upgrade = hr_header headers ''Upgrade'';
          version = hr_header headers ''Sec-WebSocket-Version''
      in if upgrade = None \<or> (case connection of None \<Rightarrow> True | Some s \<Rightarrow> strcasestr s ''Upgrade'' = None)
         then (PROT_OK, snd (send_error E (Some c) STATUS_426 (stat_inc St_http_upgrade_missing w)))
         else case key of
           Some k \<Rightarrow>
             if protocol \<noteq> Some ''quickio'' \<or> version \<noteq> Some ''13''
             then (PROT_OK, snd (send_error E (Some c) STATUS_400 (stat_inc St_http_upgrade_invalid w)))
             else (PROT_AGAIN, protocol_rfc6455_upgrade E c k w)
         | None \<Rightarrow> (PROT_OK, snd (send_error E (Some c) STATUS_400 (stat_inc St_http_upgrade_invalid w))))"

definition do_headers_http :: "env \<Rightarrow> cid \<Rightarrow> http_request \<Rightarrow> world \<Rightarrow> protocol_status \<times> world" where
  "do_headers_http E c headers w =
     (let is_post = (hr_method headers = ''POST'');
          body_len =
            (case hr_header headers HTTP_CONTENT_LENGTH of
               Some l \<Rightarrow> (case safe_strtoull E l of None \<Rightarrow> Inl w | Some n \<Rightarrow> Inr n)
             | None \<Rightarrow> if is_post then Inl (qev_close c HTTP_LENGTH_REQUIRED w) else Inr 0)
      in case body_len of
           Inl w1 \<Rightarrow> (PROT_FATAL, w1)
         | Inr n \<Rightarrow>
             (let (surrogate, w1) = get_surrogate E (hr_url headers) w;
                  w2 = (case surrogate of
                          None \<Rightarrow> w1
                        | Some s \<Rightarrow>
                            if \<not> is_closing E (w_trace w1) s \<and> \<not> is_closing E (w_trace w1) c
                            then upd_client c (\<lambda>cl. cl\<lparr>c_http_client := Some s\<rparr>) (emit (E_ref s) w1)
                            else w1)
              in (PROT_OK, upd_client c (\<lambda>cl. cl\<lparr>c_http_body_len := n, c_is_post := is_post,
                    c_iframe_requested := prefix ''/iframe'' (hr_url headers)\<rparr>) w2)))"

definition protocol_http_handles :: "cid \<Rightarrow> world \<Rightarrow> protocol_handles" where
  "protocol_http_handles c w =
     (if \<not> has_complete_header c w then PROT_MAYBE
      else if list_ex (\<lambda>p. prefix p (cstr (rbuff_of c w)))
        [''GET /'', ''POST /'', ''OPTIONS /'', ''PUT /'', ''HEAD /'', ''DELETE /'']
      then PROT_YES else PROT_NO)"

definition request_keep_alive :: "http_request \<Rightarrow> bool" where
  "request_keep_alive headers =
     (let keep_alive = (hr_version headers = 1) in
      case hr_header headers ''Connection'' of
        None \<Rightarrow> keep_alive
      | Some s \<Rightarrow>
          if keep_alive then strcasestr s ''close'' = None else strcasestr s ''keep-alive'' \<noteq> None)"

text \<open>The second half of \<open>protocol_http_route\<close>: the body, once all of it is there.\<close>

definition http_route_body ::
  "env \<Rightarrow> cid \<Rightarrow> protocol_status \<Rightarrow> nat \<Rightarrow> world \<Rightarrow> protocol_status \<times> nat \<times> world" where
  "http_route_body E c status used w =
     (if c_prot (w_clients w c) = Some P_http \<and> status = PROT_OK then
        (let body_len = c_http_body_len (w_clients w c) in
         case safe_uadd E body_len (word_of_nat used) of
           None \<Rightarrow> (PROT_FATAL, used, w)
         | Some len \<Rightarrow>
             if length (rbuff_of c w) < unat len then (PROT_AGAIN, used, w)
             else
               (let start = cstr (take (unat body_len) (drop used (rbuff_of c w)));
                    w1 = do_body E c start w
                in (PROT_OK, used + unat (c_http_body_len (w_clients w1 c)),
                    upd_client c (\<lambda>cl. cl\<lparr>c_http_body_len := 0\<rparr>) w1)))
      else (status, used, w))"

definition protocol_http_route ::
  "env \<Rightarrow> cid \<Rightarrow> nat \<Rightarrow> world \<Rightarrow> protocol_status \<times> nat \<times> world" where
  "protocol_http_route E c used w =
     (let w0 = touch_send c w in
      if c_http_body_len (w_clients w0 c) = 0 then
        (let headers = http_parse E (cstr (drop used (rbuff_of c w0))) in
         if \<not> hr_ok headers \<and> hr_incomplete headers then (PROT_AGAIN, used, w0)
         else
           (let w1 = snd (send_error E (Some c) STATUS_200 w0);
                w2 = upd_client c (\<lambda>cl. cl\<lparr>c_in_request := True,
                       c_keep_alive := request_keep_alive headers\<rparr>) w1;
                (status, used1, w3) =
                  (if \<not> hr_ok headers then (PROT_FATAL, used, w2)
                   else case hr_header headers ''Sec-WebSocket-Key'' of
                     Some key \<Rightarrow>
                       (let (s, a) = do_headers_websocket E c headers (hr_header headers ''Connection'')
                                       (Some key) w2
                        in (s, length (rbuff_of c a), a))
                   | None \<Rightarrow>
                       (let (s, a) = do_headers_http E c headers w2 in (s, used + hr_body headers, a)));
                w4 = (if status = PROT_FATAL then qev_close c HTTP_BAD_REQUEST w3 else w3)
            in http_route_body E c status used1 w4))
      else http_route_body E c PROT_OK used w0)"

definition protocol_http_heartbeat :: "env \<Rightarrow> cid \<Rightarrow> heartbeat \<Rightarrow> world \<Rightarrow> world" where
  "protocol_http_heartbeat E c hb w =
     (let cl = w_clients w c in
      if is_surrogate E c then
        if c_http_client cl = None \<and> c_last_send cl < hb_timeout hb
        then qev_close c RAW_HEARTATTACK w else w
      else if c_http_client cl = None then
        if c_last_send cl < hb_heartbeat hb then qev_close c RAW_HEARTATTACK w else w
      else if c_last_send cl < hb_poll hb then snd (send_error E (Some c) STATUS_200 w) else w)"

definition protocol_http_close :: "env \<Rightarrow> cid \<Rightarrow> close_reason \<Rightarrow> world \<Rightarrow> world" where
  "protocol_http_close E c reason w =
     (if is_surrogate E c then
        (let cl = w_clients w c;
             w1 = w\<lparr>w_surrogates := (w_surrogates w)((c_http_tbl cl, c_http_sid cl) := None)\<rparr>;
             (client, w2) = steal_client c w1;
             w3 = snd (send_error E client STATUS_403 w2)
         in stat_inc St_http_surrogates_closed (emit (E_unref client) w3))
      else
        (let (surrogate, w1) = steal_client c w;
             w2 = (case reason of
                     HTTP_BAD_REQUEST \<Rightarrow> snd (send_error E (Some c) STATUS_400 w1)
                   | HTTP_LENGTH_REQUIRED \<Rightarrow> snd (send_error E (Some c) STATUS_411 w1)
                   | QEV_CLOSE_OUT_OF_MEM \<Rightarrow> snd (send_error E (Some c) STATUS_413 w1)
                   | _ \<Rightarrow> w1)
         in case surrogate of
              None \<Rightarrow> w2
            | Some s \<Rightarrow> emit (E_unref (Some s)) (qev_close s HTTP_DONE w2)))"

section \<open>References\<close>

lemma surr_replace_bal:
  assumes "fin_links w"
  shows "fin_links (surr_replace E s p w)" "bal (surr_replace E s p w) = bal w"
proof -
  let ?old = "c_http_client (w_clients w s)"
  let ?w1 = "upd_client s (\<lambda>cl. cl\<lparr>c_http_client := None\<rparr>) w"
  let ?w2 = "upd_client s (\<lambda>cl. cl\<lparr>c_http_client := Some p\<rparr>) (emit (E_ref p) ?w1)"
  have f: "fin_links ?w1" "fin_links ?w2" using assms by simp_all
  have b1: "bal ?w1 d = bal w d + owed ?old d" for d using assms by (simp add: bal_upd)
  have b2: "bal ?w2 = bal ?w1" using f(1) by (simp add: fun_eq_iff bal_upd bal_ref)
  have e: "fin_links (snd (send_error E q st u)) \<and> bal (snd (send_error E q st u)) = bal u"
    if "fin_links u" for q st u using send_error_bal [OF that] by blast
  show "fin_links (surr_replace E s p w)"
    using f e by (auto simp: surr_replace_def Let_def split: option.split)
  show "bal (surr_replace E s p w) = bal w"
  proof
    fix d
    show "bal (surr_replace E s p w) d = bal w d"
      using f e b1 [of d] b2
      by (cases ?old) (auto simp: surr_replace_def Let_def bal_unref)
  qed
qed

lemma surr_send_bal:
  assumes "fin_links w"
  shows "fin_links (surr_send E s p m w) \<and> bal (surr_send E s p m w) = bal w"
proof -
  obtain q w1 where st: "steal_client s w = (q, w1)" by (cases "steal_client s w")
  note b = steal_bal [OF st assms]
  let ?resp = "build_response E STATUS_200 (Some m)"
  have r: "fin_links (snd (send_response E d STATUS_200 ?resp u)) \<and>
      bal (snd (send_response E d STATUS_200 ?resp u)) = bal u" if "fin_links u" for d u
    using send_response_bal [OF that] by blast
  have fa: "fin_links (fault u) = fin_links u" "bal (fault u) = bal u" for u
    by (simp_all add: fin_links_def linkers_def bal_def fun_eq_iff)
  show ?thesis
  proof (cases q)
    case None
    with b r [OF b(1), of "Some p"] fa show ?thesis
      by (auto simp: surr_send_def st Let_def case_prod_beta fun_eq_iff)
  next
    case (Some d)
    let ?a = "snd (send_response E (Some d) STATUS_200 ?resp w1)"
    have a: "fin_links (emit (E_unref (Some d)) ?a)" "bal (emit (E_unref (Some d)) ?a) = bal w"
      using r [OF b(1), of "Some d"] b(2) Some by (simp_all add: fun_eq_iff bal_unref)
    from surr_replace_bal [OF a(1)] r [OF a(1), of "Some p"] a(2) fa Some show ?thesis
      by (simp add: surr_send_def st Let_def case_prod_beta)
  qed
qed

lemma http_close_bal:
  assumes "fin_links w"
  shows "fin_links (protocol_http_close E c r w) \<and> bal (protocol_http_close E c r w) = bal w"
proof -
  have e: "fin_links (snd (send_error E q st u)) \<and> bal (snd (send_error E q st u)) = bal u"
    if "fin_links u" for q st u using send_error_bal [OF that] by blast
  show ?thesis
  proof (cases "is_surrogate E c")
    case True
    let ?w1 = "w\<lparr>w_surrogates := (w_surrogates w)
      ((c_http_tbl (w_clients w c), c_http_sid (w_clients w c)) := None)\<rparr>"
    have f: "fin_links ?w1" "bal ?w1 = bal w"
      using assms by (simp_all add: fin_links_def linkers_def bal_def fun_eq_iff)
    obtain q w2 where st: "steal_client c ?w1 = (q, w2)" by (cases "steal_client c ?w1")
    note b = steal_bal [OF st f(1)]
    from True e [OF b(1), of q STATUS_403] b(2) f(2) show ?thesis
      by (simp add: protocol_http_close_def st Let_def fun_eq_iff bal_unref)
  next
    case False
    obtain q w1 where st: "steal_client c w = (q, w1)" by (cases "steal_client c w")
    note b = steal_bal [OF st assms]
    let ?w2 = "case r of HTTP_BAD_REQUEST \<Rightarrow> snd (send_error E (Some c) STATUS_400 w1)
      | HTTP_LENGTH_REQUIRED \<Rightarrow> snd (send_error E (Some c) STATUS_411 w1)
      | QEV_CLOSE_OUT_OF_MEM \<Rightarrow> snd (send_error E (Some c) STATUS_413 w1) | _ \<Rightarrow> w1"
    have "fin_links ?w2 \<and> bal ?w2 = bal w1"
      using e [OF b(1)] b(1) by (simp split: close_reason.split)
    with b(2) False show ?thesis
      by (simp add: protocol_http_close_def st Let_def qev_close_def fun_eq_iff bal_unref split: option.split)
  qed
qed

lemma http_heartbeat_bal:
  assumes "fin_links w"
  shows "fin_links (protocol_http_heartbeat E c hb w) \<and> bal (protocol_http_heartbeat E c hb w) = bal w"
  using assms send_error_bal [OF assms, of E "Some c" STATUS_200]
  by (simp add: protocol_http_heartbeat_def Let_def qev_close_def)

text \<open>A pointer quick-event hands out for a new surrogate is not in use.\<close>

definition surrogate_law :: "env \<Rightarrow> world \<Rightarrow> bool" where
  "surrogate_law E w \<longleftrightarrow> (\<forall>tr s. surrogate_new E tr = Some s \<longrightarrow> w_clients w s = qev_client_new)"

lemma get_surrogate_bal:
  assumes "fin_links w" "surrogate_law E w"
  shows "fin_links (snd (get_surrogate E url w)) \<and> bal (snd (get_surrogate E url w)) = bal w"
proof -
  have n: "fin_links (snd (surr_find E sid oc w)) \<and> bal (snd (surr_find E sid oc w)) = bal w" for sid oc
  proof (cases "w_surrogates w (unat sid mod n_clients, sid) = None \<and> oc \<and> surrogate_new E (w_trace w) \<noteq> None")
    case False
    with assms(1) show ?thesis
      by (auto simp: surr_find_def Let_def protocols_new_surrogate_def split: option.split)
  next
    case True
    then obtain s where s: "surrogate_new E (w_trace w) = Some s" by auto
    let ?u = "upd_client s (\<lambda>_. qev_client_new\<lparr>c_prot := Some P_http\<rparr>) (emit (E_surrogate s) w)"
    have d: "c_http_client (w_clients w s) = None"
      using assms(2) s by (auto simp: surrogate_law_def qev_client_new_def)
    have u: "fin_links ?u" "bal ?u = bal w"
      using assms(1) d by (simp_all add: bal_upd fun_eq_iff bal_emit ref_delta_def qev_client_new_def)
    have h: "fin_links (set_handshaked s ?u)" "bal (set_handshaked s ?u) = bal w"
      using u by (simp_all add: set_handshaked_def fun_eq_iff bal_emit ref_delta_def)
    have t: "fin_links (v\<lparr>w_surrogates := x\<rparr>) = fin_links v" "bal (v\<lparr>w_surrogates := x\<rparr>) = bal v" for v x
      by (simp_all add: fin_links_def linkers_def bal_def fun_eq_iff)
    from True s h show ?thesis by (simp add: surr_find_def Let_def protocols_new_surrogate_def t)
  qed
  show ?thesis
    using n assms(1) by (auto simp: get_surrogate_def Let_def split: option.split prod.split)
qed

lemma get_surrogate_link:
  assumes "surrogate_law E w"
  shows "c_http_client (w_clients (snd (get_surrogate E url w)) c) = c_http_client (w_clients w c)"
proof -
  have "surrogate_new E tr = Some s \<Longrightarrow> c_http_client (w_clients w s) = None" for tr s
    using assms by (auto simp: surrogate_law_def qev_client_new_def)
  then show ?thesis
    by (auto simp: get_surrogate_def surr_find_def protocols_new_surrogate_def set_handshaked_def Let_def
        qev_client_new_def split: option.split prod.split)
qed

lemma do_headers_http_bal:
  assumes "fin_links w" "surrogate_law E w" "c_http_client (w_clients w c) = None"
  shows "fin_links (snd (do_headers_http E c h w)) \<and> bal (snd (do_headers_http E c h w)) = bal w"
proof -
  obtain sg w1 where g: "get_surrogate E (hr_url h) w = (sg, w1)" by (cases "get_surrogate E (hr_url h) w")
  have w1: "fin_links w1" "bal w1 = bal w" "c_http_client (w_clients w1 c) = None"
    using get_surrogate_bal [OF assms(1,2), of "hr_url h"] get_surrogate_link [OF assms(2), of "hr_url h" c]
      assms(3) by (simp_all add: g)
  have l: "bal (upd_client c (\<lambda>cl. cl\<lparr>c_http_client := Some s\<rparr>) (emit (E_ref s) w1)) = bal w" for s
    using w1 by (simp add: fun_eq_iff bal_upd bal_ref)
  have k: "fin_links v \<Longrightarrow> bal (upd_client c (\<lambda>cl. cl\<lparr>c_http_body_len := n, c_is_post := q,
      c_iframe_requested := i\<rparr>) v) = bal v" for v n q i by simp
  show ?thesis
    using w1 l k assms(1)
    by (auto simp: do_headers_http_def g Let_def qev_close_def split: option.split sum.split)
qed

section \<open>Polls\<close>

lemma send_response_links:
  "c_http_client (w_clients (snd (send_response E (Some c) st resp w)) d) =
     (if d = c \<or> c_http_client (w_clients w c) = Some d \<and> c_http_client (w_clients w d) = Some c then None
      else c_http_client (w_clients w d))"
  by (auto simp: send_response_eq steal_client_def respond_def touch_send_def surr_release_client_def Let_def
      split: option.split)

lemma send_response_request:
  "c_in_request (w_clients (snd (send_response E (Some c) st resp w)) d) =
     (d \<noteq> c \<and> c_in_request (w_clients w d))"
  "fst (send_response E (Some c) st resp w) = c_in_request (w_clients w c)"
  using send_response_spec [OF prod.collapse [symmetric], where E = E and c = c and st = st and resp = resp and w = w]
  by simp_all

lemma send_response_fault [simp]: "w_fault (snd (send_response E d st resp w)) = w_fault w"
  using same_core_send_response [of w E d st resp] by (simp add: same_core_def subs_view_def)

lemma send_error_facts:
  "c_http_client (w_clients (snd (send_error E (Some c) st w)) d) =
     (if d = c \<or> c_http_client (w_clients w c) = Some d \<and> c_http_client (w_clients w d) = Some c then None
      else c_http_client (w_clients w d))"
  "c_in_request (w_clients (snd (send_error E (Some c) st w)) d) = (d \<noteq> c \<and> c_in_request (w_clients w d))"
  "w_fault (snd (send_error E q st w)) = w_fault w"
  unfolding send_error_def by (rule send_response_links send_response_request send_response_fault)+

text \<open>A request is answered, or its connection waits as the poller of its surrogate.\<close>

definition answered_or_waiting :: "cid \<Rightarrow> cid \<Rightarrow> world \<Rightarrow> bool" where
  "answered_or_waiting s c v \<longleftrightarrow>
     \<not> c_in_request (w_clients v c) \<or>
     c_http_client (w_clients v s) = Some c \<and> c_http_client (w_clients v c) = Some s"

definition old_poller_done :: "cid \<Rightarrow> world \<Rightarrow> world \<Rightarrow> bool" where
  "old_poller_done s w v \<longleftrightarrow>
     (case c_http_client (w_clients w s) of None \<Rightarrow> True | Some p \<Rightarrow> \<not> c_in_request (w_clients v p))"

text \<open>\<open>s\<close> is the surrogate of the request of \<open>c\<close>, and serves an older poll, if any.\<close>

definition polls :: "cid \<Rightarrow> cid \<Rightarrow> world \<Rightarrow> bool" where
  "polls s c w \<longleftrightarrow>
     s \<noteq> c \<and> c_http_client (w_clients w c) = Some s \<and>
     c_http_client (w_clients w s) \<noteq> Some c \<and> c_http_client (w_clients w s) \<noteq> Some s"

lemma surr_replace_answers:
  assumes "polls s c w"
  shows "answered_or_waiting s c (surr_replace E s c w)" "old_poller_done s w (surr_replace E s c w)"
    "w_fault (surr_replace E s c w) = w_fault w"
  using assms
  by (auto simp: surr_replace_def polls_def answered_or_waiting_def old_poller_done_def Let_def
      send_error_facts split: option.split)

lemma surr_send_answers:
  assumes "polls s c w" "c_in_request (w_clients w c)"
  shows "answered_or_waiting s c (surr_send E s c m w)" "old_poller_done s w (surr_send E s c m w)"
    "w_fault (surr_send E s c m w) = w_fault w"
proof -
  let ?resp = "build_response E STATUS_200 (Some m)"
  let ?w1 = "upd_client s (\<lambda>cl. cl\<lparr>c_http_client := None\<rparr>) w"
  have "answered_or_waiting s c (surr_send E s c m w) \<and> old_poller_done s w (surr_send E s c m w) \<and>
      w_fault (surr_send E s c m w) = w_fault w"
  proof (cases "c_http_client (w_clients w s)")
    case None
    with assms show ?thesis
      by (auto simp: surr_send_def steal_client_def Let_def case_prod_beta send_response_request
          answered_or_waiting_def old_poller_done_def polls_def)
  next
    case (Some p)
    let ?w2 = "emit (E_unref (Some p)) (snd (send_response E (Some p) STATUS_200 ?resp ?w1))"
    have p: "p \<noteq> c" "p \<noteq> s" using assms(1) Some by (auto simp: polls_def)
    have w2: "polls s c ?w2" "c_in_request (w_clients ?w2 c)" "\<not> c_in_request (w_clients ?w2 p)"
      "w_fault ?w2 = w_fault w"
      using assms p by (auto simp: polls_def send_response_links send_response_request)
    have link: "c_http_client (w_clients ?w2 s) = None" using p by (simp add: send_response_links)
    have out: "\<not> c_in_request (w_clients (surr_replace E s c ?w2) p)"
      using w2(3) link p by (auto simp: surr_replace_def Let_def send_error_facts)
    from surr_replace_answers [OF w2(1), of E] w2 out Some p assms show ?thesis
      by (simp add: surr_send_def steal_client_def Let_def case_prod_beta send_response_request
          old_poller_done_def answered_or_waiting_def)
  qed
  then show "answered_or_waiting s c (surr_send E s c m w)" "old_poller_done s w (surr_send E s c m w)"
    "w_fault (surr_send E s c m w) = w_fault w" by blast+
qed

lemma steady_surr_messages:
  assumes "steady_law P E"
  shows "hushed P s w \<Longrightarrow> steady P w (snd (surr_messages E s msgs w))"
proof (induction msgs arbitrary: w)
  case (Cons m ms)
  obtain st w1 where h: "protocol_raw_handle E s m w = (st, w1)" by (cases "protocol_raw_handle E s m w")
  have "steady P w w1" using steady_raw_handle [OF assms Cons.prems, of m] by (simp add: h)
  with Cons.IH [OF hushed_steady [OF this Cons.prems]] show ?case
    by (auto simp: h intro: steady_trans)
qed simp

lemma surr_route_answers:
  assumes "steady_law {c, s} E" "polls s c w" "c_in_request (w_clients w c)"
    and "(ok, u) = surr_messages E s (strtok_all (CHR 0x0A) body) (upd_client s (\<lambda>cl. cl\<lparr>c_incoming := True\<rparr>) w)"
  shows "answered_or_waiting s c (surr_route E s c body w)"
    "ok \<Longrightarrow> old_poller_done s w (surr_route E s c body w)"
    "w_fault (surr_route E s c body w) = w_fault u"
proof -
  let ?w1 = "upd_client s (\<lambda>cl. cl\<lparr>c_incoming := True\<rparr>) w"
  have "hushed {c, s} s ?w1" by (simp add: hushed_def)
  from steady_surr_messages [OF assms(1) this, of "strtok_all (CHR 0x0A) body"] have u: "steady {c, s} ?w1 u"
    unfolding assms(4) [symmetric] by simp
  have sc: "s \<noteq> c" using assms(2) by (simp add: polls_def)
  have l: "c_http_client (w_clients u c) = c_http_client (w_clients w c)"
    "c_http_client (w_clients u s) = c_http_client (w_clients w s)"
    "c_in_request (w_clients u c) = c_in_request (w_clients w c)"
    using steadyD(6,7) [OF u] sc by simp_all
  let ?w4 = "emit (E_flush s) (upd_client s (\<lambda>cl. cl\<lparr>c_incoming := False\<rparr>) u)"
  have w4: "polls s c ?w4" "c_in_request (w_clients ?w4 c)" "w_fault ?w4 = w_fault u"
    using assms(2,3) l sc by (simp_all add: polls_def)
  have o: "old_poller_done s w v = old_poller_done s ?w4 v" for v by (simp add: old_poller_done_def l)
  note r = surr_replace_answers [OF w4(1), of E] surr_send_answers [OF w4(1,2), of E]
  have st: "answered_or_waiting s c (stat_inc x v) = answered_or_waiting s c v"
    "old_poller_done s z (stat_inc x v) = old_poller_done s z v" for x v z
    by (simp_all add: answered_or_waiting_def old_poller_done_def split: option.split)
  show "answered_or_waiting s c (surr_route E s c body w)"
    using r by (simp add: surr_route_def Let_def st send_error_facts assms(4) [symmetric]
        split: option.split) (simp add: answered_or_waiting_def send_error_facts)
  show "ok \<Longrightarrow> old_poller_done s w (surr_route E s c body w)"
    using r by (simp add: surr_route_def Let_def st o assms(4) [symmetric] split: option.split)
  show "w_fault (surr_route E s c body w) = w_fault u"
    using r w4(3) by (simp add: surr_route_def Let_def send_error_facts assms(4) [symmetric] split: option.split)
qed

section \<open>Session ids\<close>

text \<open>The 32 digits of an id, the lowest first.\<close>

definition xdigit :: "nat \<Rightarrow> char" where
  "xdigit n = char_of (if n < 10 then 48 + n else 87 + n)"

definition nibble :: "uint128 \<Rightarrow> nat \<Rightarrow> nat" where
  "nibble u i = unat (take_bit 4 (drop_bit (i * 4) u))"

definition sid_str :: "uint128 \<Rightarrow> string" where
  "sid_str u = map (\<lambda>i. xdigit (nibble u i)) [0..<32]"

lemma xdigit_facts: "n < 16 \<Longrightarrow> is_xdigit (xdigit n) \<and> xdigit_value (xdigit n) = n"
  by (auto simp: xdigit_def is_xdigit_def xdigit_value_def is_digit_def)

lemma nibble_less: "nibble u i < 16"
  using take_bit_nat_less_exp [of 4 "unat (drop_bit (i * 4) u)"]
  by (simp add: nibble_def unsigned_take_bit_eq)

lemma nibble_join:
  "take_bit (i * 4) u OR push_bit (i * 4) (word_of_nat (nibble u i)) = take_bit (Suc i * 4) (u :: uint128)"
proof -
  have n: "word_of_nat (nibble u i) = take_bit 4 (drop_bit (i * 4) u)" by (simp add: nibble_def)
  show ?thesis
    unfolding n by (rule bit_eqI) (auto simp: bit_or_iff bit_take_bit_iff bit_push_bit_iff bit_drop_bit_eq)
qed

lemma sid_digits_str:
  "k + i = 32 \<Longrightarrow>
   sid_digits i (map (\<lambda>i. xdigit (nibble u i)) [i..<32] @ rest) (take_bit (i * 4) u) =
     sid_digits 32 rest u"
proof (induction k arbitrary: i)
  case 0
  then show ?case by (simp add: take_bit_word_eq_self)
next
  case (Suc k)
  then have i: "[i..<32] = i # [Suc i..<32]" by (simp add: upt_conv_Cons)
  have "sid_digits (Suc i) (map (\<lambda>i. xdigit (nibble u i)) [Suc i..<32] @ rest) (take_bit (Suc i * 4) u) =
      sid_digits 32 rest u" by (rule Suc.IH) (use Suc.prems in simp)
  then show ?case
    using Suc.prems xdigit_facts [OF nibble_less [of u i]] nibble_join [of i u] by (simp add: i)
qed

lemma sid_digits_32: "sid_digits 32 s u = (32, u)"
  by (cases s) simp_all

lemma sid_roundtrip: "sid_digits 0 (sid_str u @ rest) 0 = (32, u)"
  using sid_digits_str [of 32 0 u rest] by (simp add: sid_str_def sid_digits_32)

lemma get_surrogate_find:
  assumes "strstr url ''sid='' = Some (''sid='' @ sid_str u @ rest)"
  shows "get_surrogate E url w = surr_find E u (strstr url ''connect=true'' \<noteq> None) w"
  using sid_roundtrip [of u rest] by (simp add: get_surrogate_def assms)

lemma http_close_unlinks:
  shows "c_http_client (w_clients (protocol_http_close E c r w) c) = None"
    and "is_surrogate E c \<Longrightarrow>
      w_surrogates (protocol_http_close E c r w) (c_http_tbl (w_clients w c), c_http_sid (w_clients w c)) = None"
proof -
  have e: "c_http_client (w_clients (snd (send_error E q st u)) c) = None" if "c_http_client (w_clients u c) = None" for q st u
    using that by (cases q) (simp_all add: send_error_facts(1), simp add: send_error_def)
  have s: "w_surrogates (snd (send_error E q st u)) = w_surrogates u" for q st u
    using same_core_send_error [of u E q st] by (simp add: same_core_def)
  show "c_http_client (w_clients (protocol_http_close E c r w) c) = None"
    by (auto simp: protocol_http_close_def steal_client_def Let_def qev_close_def e
        split: option.split close_reason.split)
  show "is_surrogate E c \<Longrightarrow>
      w_surrogates (protocol_http_close E c r w) (c_http_tbl (w_clients w c), c_http_sid (w_clients w c)) = None"
    by (simp add: protocol_http_close_def steal_client_def Let_def s)
qed

section \<open>Properties\<close>


definition sample_poll_env :: env where
  "sample_poll_env = sample_env\<lparr>cfg_public_address := Some ''localhost''\<rparr>"

definition sample_poll_world :: world where
  "sample_poll_world = init_world\<lparr>w_clients := (\<lambda>c.
     if c = 1 then qev_client_new\<lparr>c_handshaked := True, c_prot := Some P_http, c_http_client := Some 2\<rparr>
     else qev_client_new\<lparr>c_handshaked := True, c_prot := Some P_http, c_in_request := True,
       c_is_post := True, c_http_client := Some 1\<rparr>)\<rparr>"


text \<open>
  Surrogates and pollers are counted: replacing a poll, answering with buffered events,
  reading the headers of a request, heartbeats and closing all keep the references that
  were taken equal to the links that are stored, for every client. After closing, the client has
  no link left, and a surrogate is no longer found.
\<close>

theorem http_references_balanced:
  assumes "fin_links w" "surrogate_law E w"
  shows "bal (surr_replace E s p w) = bal w \<and> bal (surr_send E s p m w) = bal w \<and>
    (c_http_client (w_clients w c) = None \<longrightarrow> bal (snd (do_headers_http E c h w)) = bal w) \<and>
    bal (protocol_http_heartbeat E c hb w) = bal w \<and> bal (protocol_http_close E c r w) = bal w \<and>
    c_http_client (w_clients (protocol_http_close E c r w) c) = None \<and>
    (is_surrogate E c \<longrightarrow>
      w_surrogates (protocol_http_close E c r w) (c_http_tbl (w_clients w c), c_http_sid (w_clients w c)) = None)"
  using surr_replace_bal [OF assms(1), of E s p] surr_send_bal [OF assms(1), of E s p m]
    do_headers_http_bal [OF assms, of c h] http_heartbeat_bal [OF assms(1), of E c hb]
    http_close_bal [OF assms(1), of E c r] http_close_unlinks [of E c r w]
  by blast

lemma http_references_balanced_witness:
  "bal (surr_replace sample_env 1 2 init_world) = bal init_world"
proof -
  have "fin_links init_world" by (simp add: fin_links_def linkers_def init_world_def qev_client_new_def)
  moreover have "surrogate_law sample_env init_world" by (simp add: surrogate_law_def sample_env_def)
  ultimately show ?thesis using http_references_balanced by blast
qed

text \<open>
  Session ids: each of the 2^128 ids is written with 32 hexadecimal digits and read back
  by a request for it, wherever the \<open>sid=\<close> stands in the address; with \<open>connect=true\<close> the
  request finds the surrogate of the id or opens one that every later request with the id finds.
  A string with fewer digits names no surrogate.
\<close>

theorem get_surrogate_sessions:
  assumes "strstr url ''sid='' = Some (''sid='' @ sid_str u @ rest)"
    and "strstr url' ''sid='' = Some (''sid='' @ sid_str u @ rest')"
    and "get_surrogate E url w = (r, v)" "key = (unat u mod n_clients, u)"
  shows "(case r of
      Some s \<Rightarrow> get_surrogate E url' v = (Some s, v) \<and> w_surrogates v = (w_surrogates w)(key \<mapsto> s) \<and>
        (w_surrogates w key = Some s \<and> v = w \<or>
         w_surrogates w key = None \<and> strstr url ''connect=true'' \<noteq> None \<and>
         c_http_sid (w_clients v s) = u \<and> c_prot (w_clients v s) = Some P_http \<and> c_handshaked (w_clients v s))
    | None \<Rightarrow> v = w \<and> w_surrogates w key = None \<and>
        (strstr url ''connect=true'' = None \<or> surrogate_new E (w_trace w) = None)) \<and>
    (\<forall>bad d. strstr bad ''sid='' = Some d \<and> fst (sid_digits 0 (drop 4 d) 0) \<noteq> 32 \<longrightarrow>
       get_surrogate E bad w = (None, w))"
proof -
  note g = get_surrogate_find [OF assms(1)] get_surrogate_find [OF assms(2)]
  have bad: "get_surrogate E x w = (None, w)"
    if "strstr x ''sid='' = Some d" "fst (sid_digits 0 (drop 4 d) 0) \<noteq> 32" for x d
    using that by (auto simp: get_surrogate_def Let_def split: prod.split)
  have "case r of
      Some s \<Rightarrow> get_surrogate E url' v = (Some s, v) \<and> w_surrogates v = (w_surrogates w)(key \<mapsto> s) \<and>
        (w_surrogates w key = Some s \<and> v = w \<or>
         w_surrogates w key = None \<and> strstr url ''connect=true'' \<noteq> None \<and>
         c_http_sid (w_clients v s) = u \<and> c_prot (w_clients v s) = Some P_http \<and> c_handshaked (w_clients v s))
    | None \<Rightarrow> v = w \<and> w_surrogates w key = None \<and>
        (strstr url ''connect=true'' = None \<or> surrogate_new E (w_trace w) = None)"
    using assms(3) unfolding g assms(4)
    by (auto simp: surr_find_def protocols_new_surrogate_def set_handshaked_def Let_def map_upd_triv
        split: option.splits if_splits prod.splits)
  with bad show ?thesis by blast
qed

lemma get_surrogate_sessions_witness:
  "get_surrogate sample_env (''/?sid='' @ sid_str 77) init_world = (None, init_world)"
proof -
  have s: "strstr (''/?sid='' @ sid_str 77) ''sid='' = Some (''sid='' @ sid_str 77 @ [])" by simp
  obtain r v where g: "get_surrogate sample_env (''/?sid='' @ sid_str 77) init_world = (r, v)"
    by (cases "get_surrogate sample_env (''/?sid='' @ sid_str 77) init_world")
  have "w_surrogates init_world k = None" for k by (simp add: init_world_def)
  moreover have "strstr (''/?sid='' @ sid_str 77) ''connect=true'' = None" by (simp add: sid_str_def) code_simp
  ultimately show ?thesis
    using get_surrogate_sessions [OF s s g refl] g by (cases r) auto
qed

end
