(* ===== verification/Polls.thy ===== *)
theory Polls
  imports Protocol_Http
begin

text \<open>
  The graph of polls. A surrogate and the connection that polls it point to each other; the
  connection of a request whose body is not complete points to its surrogate only. What routing
  an event and sending one do to this graph, and to the clients that may be subscribed, is the
  relation \<open>civil\<close>; it is an instance of \<open>event_frame\<close>, so that routing keeps the graph.
\<close>

section \<open>Clients\<close>

abbreviation link :: "world \<Rightarrow> cid \<Rightarrow> cid option" where
  "link w c \<equiv> c_http_client (w_clients w c)"

text \<open>The surrogates that have been opened; a pointer that is in use, among the pointers \<open>C\<close>.\<close>

definition opened :: "world \<Rightarrow> cid set" where
  "opened w = {s. E_surrogate s \<in> set (w_trace w)}"

definition live :: "env \<Rightarrow> cid set \<Rightarrow> world \<Rightarrow> cid \<Rightarrow> bool" where
  "live E C w c \<longleftrightarrow> c \<in> C \<and> (is_surrogate E c \<longrightarrow> c \<in> opened w)"

text \<open>A client that events come from and go to: not the connection of a long poll.\<close>

definition proper :: "env \<Rightarrow> cid set \<Rightarrow> world \<Rightarrow> cid \<Rightarrow> bool" where
  "proper E C w c \<longleftrightarrow>
     live E C w c \<and> c_prot (w_clients w c) \<noteq> None \<and>
     (is_surrogate E c \<or> c_prot (w_clients w c) \<noteq> Some P_http)"

definition limits :: "env \<Rightarrow> cid set \<Rightarrow> nat \<Rightarrow> world \<Rightarrow> bool" where
  "limits E C N w \<longleftrightarrow>
     (\<forall>c. c_subs (w_clients w c) \<noteq> None \<longrightarrow> proper E C w c) \<and> length (w_broadcasts w) \<le> N"

lemma opened_frame [simp]:
  "opened (upd_client c f w) = opened w" "opened (stat_inc x w) = opened w" "opened (stat_dec x w) = opened w"
  "opened (fault w) = opened w" "\<not> opens e \<Longrightarrow> opened (emit e w) = opened w"
  by (auto simp: opened_def opens_def)

section \<open>The graph\<close>

text \<open>\<open>D\<close> are the clients that have been closed, \<open>B\<close> those whose request body is being handled.\<close>

definition polls_wf :: "env \<Rightarrow> cid set \<Rightarrow> cid set \<Rightarrow> world \<Rightarrow> bool" where
  "polls_wf E B D w \<longleftrightarrow>
     (\<forall>s p. is_surrogate E s \<longrightarrow> link w s = Some p \<longrightarrow> \<not> is_surrogate E p \<and>
        (p \<in> D \<or> link w p = Some s \<and> (p \<in> B \<or> c_http_body_len (w_clients w p) = 0))) \<and>
     (\<forall>c s. \<not> is_surrogate E c \<longrightarrow> link w c = Some s \<longrightarrow> is_surrogate E s \<and> c \<notin> D \<and>
        c_in_request (w_clients w c) \<and> c_prot (w_clients w c) = Some P_http)"

text \<open>The request of \<open>c\<close> is being handled and cannot be answered by an event.\<close>

definition unpolled :: "env \<Rightarrow> cid \<Rightarrow> world \<Rightarrow> bool" where
  "unpolled E c w \<longleftrightarrow> (\<forall>d. is_surrogate E d \<longrightarrow> link w d \<noteq> Some c)"

definition sheltered :: "env \<Rightarrow> cid \<Rightarrow> cid \<Rightarrow> world \<Rightarrow> bool" where
  "sheltered E s c w \<longleftrightarrow> \<not> is_surrogate E c \<and> link w c = Some s \<and> unpolled E c w"

lemma polls_wfD:
  assumes "polls_wf E B D w"
  shows "is_surrogate E s \<Longrightarrow> link w s = Some p \<Longrightarrow> \<not> is_surrogate E p"
    "is_surrogate E s \<Longrightarrow> link w s = Some p \<Longrightarrow> p \<notin> D \<Longrightarrow> link w p = Some s"
    "is_surrogate E s \<Longrightarrow> link w s = Some p \<Longrightarrow> p \<notin> D \<Longrightarrow> p \<in> B \<or> c_http_body_len (w_clients w p) = 0"
    "\<not> is_surrogate E c \<Longrightarrow> link w c = Some s \<Longrightarrow> is_surrogate E s"
    "\<not> is_surrogate E c \<Longrightarrow> link w c = Some s \<Longrightarrow> c \<notin> D"
    "\<not> is_surrogate E c \<Longrightarrow> link w c = Some s \<Longrightarrow> c_in_request (w_clients w c)"
    "\<not> is_surrogate E c \<Longrightarrow> link w c = Some s \<Longrightarrow> c_prot (w_clients w c) = Some P_http"
  using assms unfolding polls_wf_def by blast+

text \<open>What the graph is made of.\<close>

definition poll_view :: "client \<Rightarrow> cid option \<times> bool \<times> prot option \<times> guint64" where
  "poll_view cl = (c_http_client cl, c_in_request cl, c_prot cl, c_http_body_len cl)"

lemma polls_wf_cong: "(\<And>c. poll_view (w_clients v c) = poll_view (w_clients w c)) \<Longrightarrow> polls_wf E B D v = polls_wf E B D w"
  by (simp add: polls_wf_def poll_view_def)

lemma sheltered_cong: "(\<And>c. poll_view (w_clients v c) = poll_view (w_clients w c)) \<Longrightarrow> sheltered E s c v = sheltered E s c w"
  by (simp add: sheltered_def unpolled_def poll_view_def)

text \<open>The requests of \<open>X\<close> are answered: they and the surrogates they poll let go of each other.\<close>

definition answers :: "env \<Rightarrow> cid set \<Rightarrow> cid set \<Rightarrow> world \<Rightarrow> world \<Rightarrow> bool" where
  "answers E D X w v \<longleftrightarrow>
     (\<forall>c. c_prot (w_clients v c) = c_prot (w_clients w c) \<and>
        c_http_body_len (w_clients v c) = c_http_body_len (w_clients w c) \<and>
        (if is_surrogate E c then link v c = None \<or> link v c = link w c \<and> (\<forall>p \<in> X - D. link w c \<noteq> Some p)
         else if c \<in> X then link v c = None
         else link v c = link w c \<and> c_in_request (w_clients v c) = c_in_request (w_clients w c)))"

lemma answersD:
  assumes "answers E D X w v"
  shows "c_prot (w_clients v c) = c_prot (w_clients w c)"
    "c_http_body_len (w_clients v c) = c_http_body_len (w_clients w c)"
    "is_surrogate E c \<Longrightarrow> link v c = Some p \<Longrightarrow> link w c = Some p \<and> p \<notin> X - D"
    "\<not> is_surrogate E c \<Longrightarrow> link v c = Some p \<Longrightarrow> c \<notin> X"
    "\<not> is_surrogate E c \<Longrightarrow> c \<notin> X \<Longrightarrow> link v c = link w c"
    "\<not> is_surrogate E c \<Longrightarrow> c \<notin> X \<Longrightarrow> c_in_request (w_clients v c) = c_in_request (w_clients w c)"
  using assms unfolding answers_def by (metis option.distinct(1))+

lemma answers_polls:
  assumes "polls_wf E B D w" "answers E D X w v"
  shows "polls_wf E B D v"
proof -
  note a = answersD [OF assms(2)] and g = polls_wfD [OF assms(1)]
  have "\<not> is_surrogate E p \<and> (p \<in> D \<or> link v p = Some s \<and> (p \<in> B \<or> c_http_body_len (w_clients v p) = 0))"
    if s: "is_surrogate E s" "link v s = Some p" for s p
  proof -
    have p: "link w s = Some p" "p \<notin> X - D" using a(3) [OF s] by blast+
    from g(1) [OF s(1) p(1)] g(2,3) [OF s(1) p(1)] p(2) show ?thesis by (auto simp: a(2) a(5))
  qed
  moreover have "is_surrogate E s \<and> c \<notin> D \<and> c_in_request (w_clients v c) \<and> c_prot (w_clients v c) = Some P_http"
    if c: "\<not> is_surrogate E c" "link v c = Some s" for c s
  proof -
    have x: "c \<notin> X" by (rule a(4) [OF c])
    then have "link w c = Some s" using a(5) [OF c(1)] c(2) by simp
    with g(4-7) [OF c(1) this] a(6) [OF c(1) x] show ?thesis by (simp add: a(1))
  qed
  ultimately show ?thesis unfolding polls_wf_def by blast
qed

lemma answers_sheltered:
  assumes "answers E D X w v" "sheltered E s c w" "c \<notin> X"
  shows "sheltered E s c v"
  using assms answersD(3) [OF assms(1)] answersD(5) [OF assms(1)] unfolding sheltered_def unpolled_def by metis

lemma answers_links: "answers E D X w v \<Longrightarrow> link v c = None \<or> link v c = link w c"
  unfolding answers_def by metis

lemma answers_same: "(\<And>c. poll_view (w_clients v c) = poll_view (w_clients w c)) \<Longrightarrow> answers E D {} w v"
  by (simp add: answers_def poll_view_def)

lemma answers_cong: "(\<And>c. poll_view (w_clients u c) = poll_view (w_clients w c)) \<Longrightarrow> answers E D X u v = answers E D X w v"
  by (simp add: answers_def poll_view_def)

text \<open>A response to a connection answers its request.\<close>

lemma same_core_poll:
  assumes "same_core w v"
  shows "c_prot (w_clients v c) = c_prot (w_clients w c)"
    "c_http_body_len (w_clients v c) = c_http_body_len (w_clients w c)"
proof -
  have "quiet (w_clients v c) = quiet (w_clients w c)" using assms by (simp add: same_core_def)
  from arg_cong [OF this, of c_prot] arg_cong [OF this, of c_http_body_len]
  show "c_prot (w_clients v c) = c_prot (w_clients w c)"
    "c_http_body_len (w_clients v c) = c_http_body_len (w_clients w c)" by (simp_all add: quiet_def)
qed

lemma response_answers:
  assumes "polls_wf E B D w" "\<not> is_surrogate E p"
  shows "answers E D {p} w (snd (send_response E (Some p) st resp w))"
proof -
  let ?v = "snd (send_response E (Some p) st resp w)"
  have "link ?v c = None \<or> link ?v c = link w c \<and> (\<forall>q \<in> {p} - D. link w c \<noteq> Some q)" if "is_surrogate E c" for c
    using polls_wfD(2) [OF assms(1) that, of p] by (cases "p \<in> D") (auto simp: send_response_links)
  moreover have "link ?v c = link w c" if "\<not> is_surrogate E c" "c \<noteq> p" for c
    using polls_wfD(4) [OF assms, of c] that by (auto simp: send_response_links)
  moreover have "link ?v p = None" by (simp add: send_response_links)
  ultimately show ?thesis
    unfolding answers_def
    by (simp add: same_core_poll [OF same_core_send_response] send_response_request)
qed

lemma http_send_answers:
  assumes "polls_wf E B D w" "is_surrogate E s"
  shows "answers E D (case link w s of None \<Rightarrow> {} | Some p \<Rightarrow> if c_incoming (w_clients w s) then {} else {p}) w
    (protocol_http_send E s fr w)"
proof -
  note g = polls_wfD [OF assms(1)]
  have e: "answers E D X w (emit e v) = answers E D X w v" for X e v by (simp add: answers_def)
  show ?thesis
  proof (cases "c_incoming (w_clients w s) \<or> link w s = None")
    case True
    then show ?thesis
      by (auto simp: protocol_http_send_def steal_client_def Let_def answers_def split: option.split)
  next
    case False
    then obtain p where p: "link w s = Some p" by blast
    let ?a = "upd_client s (\<lambda>cl. cl\<lparr>c_http_client := None\<rparr>) w"
    obtain sent b where b: "send_response E (Some p) STATUS_200 (the (fr_def fr)) ?a = (sent, b)" by (cases "send_response E (Some p) STATUS_200 (the (fr_def fr)) ?a")
    have q: "\<not> is_surrogate E p" by (rule g(1) [OF assms(2) p])
    then have ps: "p \<noteq> s" using assms(2) by blast
    have l: "link b d = (if d = p \<or> d = s then None else link w d)" for d
    proof -
      have "link b d = (if d = p \<or> link ?a p = Some d \<and> link ?a d = Some p then None else link ?a d)"
        using send_response_links [of E p STATUS_200 "the (fr_def fr)" ?a d] b by simp
      moreover have "d = s" if "link w p = Some d" "link w d = Some p"
        using g(2) [OF assms(2) p g(5) [OF q that(1)]] that(1) by simp
      ultimately show ?thesis using ps by auto
    qed
    have r: "c_in_request (w_clients b d) = (d \<noteq> p \<and> c_in_request (w_clients w d))" for d
      using send_response_request(1) [of E p STATUS_200 "the (fr_def fr)" ?a d] b by simp
    have k: "c_prot (w_clients b d) = c_prot (w_clients w d)" "c_http_body_len (w_clients b d) = c_http_body_len (w_clients w d)" for d
      using same_core_poll [OF same_core_send_response [of ?a E "Some p" STATUS_200 "the (fr_def fr)"], of d] b by simp_all
    have "link w d \<noteq> Some p \<or> p \<in> D" if "is_surrogate E d" "d \<noteq> s" for d
      using g(2) [OF that(1), of p] g(2) [OF assms(2) p] that(2) by auto
    then have "answers E D {p} w b" using assms(2) q by (auto simp: answers_def l r k)
    then show ?thesis using False p b by (simp add: protocol_http_send_def steal_client_def Let_def e)
  qed
qed

section \<open>What an event may change\<close>

definition civil :: "env \<Rightarrow> cid set \<Rightarrow> nat \<Rightarrow> world \<Rightarrow> world \<Rightarrow> bool" where
  "civil E C N w v \<longleftrightarrow>
     (\<forall>c. shell (w_clients v c) = shell (w_clients w c)) \<and> w_surrogates v = w_surrogates w \<and> opened v = opened w \<and>
     (wf_trie (w_events w) \<longrightarrow> wf_trie (w_events v)) \<and> (limits E C N w \<longrightarrow> limits E C N v) \<and>
     (\<forall>B D. polls_wf E B D w \<longrightarrow> polls_wf E B D v \<and> (\<forall>s c. sheltered E s c w \<longrightarrow> sheltered E s c v) \<and>
        (\<forall>c. link v c = None \<or> link v c = link w c))"

text \<open>
  What is asked of applications: called for a client that events may come from, they keep to the
  interface of the server, which has no function that breaks this relation, and do not let
  the queue of broadcasts grow beyond \<open>N\<close>.
\<close>

definition civil_law :: "env \<Rightarrow> cid set \<Rightarrow> nat \<Rightarrow> bool" where
  "civil_law E C N \<longleftrightarrow>
     (\<forall>n c x cb j w. proper E C w c \<longrightarrow> civil E C N w (snd (app_handler E n c x cb j w))) \<and>
     (\<forall>n info w. proper E C w (oi_client info) \<longrightarrow> civil E C N w (snd (app_on E n info w))) \<and>
     (\<forall>n c x w. proper E C w c \<longrightarrow> civil E C N w (app_off E n c x w)) \<and>
     (\<forall>n c d cb j w. proper E C w c \<longrightarrow> civil E C N w (snd (app_cb E n c d cb j w)))"

lemma civil_refl [simp]: "civil E C N w w"
  by (simp add: civil_def)

lemma civil_trans: "civil E C N u v \<Longrightarrow> civil E C N v w \<Longrightarrow> civil E C N u w"
  unfolding civil_def by metis

lemma civilD:
  assumes "civil E C N w v"
  shows "shell (w_clients v c) = shell (w_clients w c)" "w_surrogates v = w_surrogates w" "opened v = opened w"
    "wf_trie (w_events w) \<Longrightarrow> wf_trie (w_events v)" "limits E C N w \<Longrightarrow> limits E C N v"
    "polls_wf E B D w \<Longrightarrow> polls_wf E B D v" "polls_wf E B D w \<Longrightarrow> sheltered E s c w \<Longrightarrow> sheltered E s c v"
    "polls_wf E B D w \<Longrightarrow> link v c = None \<or> link v c = link w c"
  using assms unfolding civil_def by blast+

lemma civil_fields:
  assumes "civil E C N w v"
  shows "c_prot (w_clients v c) = c_prot (w_clients w c)" "c_handshaked (w_clients v c) = c_handshaked (w_clients w c)"
    "c_rbuff (w_clients v c) = c_rbuff (w_clients w c)" "c_http_body_len (w_clients v c) = c_http_body_len (w_clients w c)"
    "proper E C v c = proper E C w c" "live E C v c = live E C w c"
  using shell_fields [OF civilD(1) [OF assms, of c]] civilD(3) [OF assms]
  by (simp_all add: proper_def live_def)

text \<open>Steps that leave the graph alone.\<close>

lemma limits_cong:
  assumes "\<And>c. c_subs (w_clients v c) = c_subs (w_clients w c)" "\<And>c. c_prot (w_clients v c) = c_prot (w_clients w c)"
    "opened v = opened w" "w_broadcasts v = w_broadcasts w"
  shows "limits E C N v = limits E C N w"
  using assms by (simp add: limits_def proper_def live_def)

lemma poll_view_still: "still_view a = still_view b \<Longrightarrow> poll_view a = poll_view b"
  using shell_fields(1,5) [of a b] still_fields [of a b] by (simp add: poll_view_def shell_def)

lemma civil_core:
  assumes "w_clients v = w_clients w" "w_surrogates v = w_surrogates w" "opened v = opened w"
    "w_events v = w_events w" "w_broadcasts v = w_broadcasts w"
  shows "civil E C N w v"
proof -
  have "limits E C N v = limits E C N w" by (rule limits_cong) (simp_all add: assms)
  moreover have "polls_wf E B D v = polls_wf E B D w" "sheltered E s c v = sheltered E s c w" for B D s c
    by (rule polls_wf_cong sheltered_cong, simp add: assms(1))+
  ultimately show ?thesis by (simp add: civil_def assms)
qed

lemma civil_upd:
  assumes "proper E C w c" "\<And>cl. still_view (f cl) = still_view cl"
  shows "civil E C N w (upd_client c f w)"
proof -
  have v: "still_view (w_clients (upd_client c f w) d) = still_view (w_clients w d)" for d by (simp add: assms(2))
  have p: "c_prot (w_clients (upd_client c f w) d) = c_prot (w_clients w d)" for d
    using poll_view_still [OF v [of d]] by (simp add: poll_view_def)
  have "limits E C N w \<Longrightarrow> limits E C N (upd_client c f w)"
    using assms(1) unfolding limits_def proper_def live_def p by auto
  moreover have "polls_wf E B D (upd_client c f w) = polls_wf E B D w"
    "sheltered E s d (upd_client c f w) = sheltered E s d w" for B D s d
    by (rule polls_wf_cong sheltered_cong, rule poll_view_still [OF v])+
  moreover have "shell (w_clients (upd_client c f w) d) = shell (w_clients w d)" for d by (simp only: shell_def v)
  moreover have "link (upd_client c f w) d = link w d" for d using still_fields(2) [OF v [of d]] .
  ultimately show ?thesis unfolding civil_def by simp
qed

text \<open>Sending opens no surrogate.\<close>

lemma opened_send_response [simp]: "opened (snd (send_response E d st resp w)) = opened w"
  by (auto simp: send_response_def steal_client_def surr_release_client_def touch_send_def Let_def
      split: option.split)

lemma opened_http_send [simp]: "opened (protocol_http_send E s fr w) = opened w"
  by (auto simp: protocol_http_send_def steal_client_def Let_def case_prod_beta)

lemma opened_send_frames [simp]: "opened (send_frames E c fr w) = opened w"
  by (auto simp: send_frames_def touch_send_def Let_def split: option.split prot.split)

lemma civil_same_core:
  assumes "same_core w v" "opened v = opened w"
    and "\<And>B D. polls_wf E B D w \<Longrightarrow> \<exists>X. answers E D X w v \<and> (\<forall>s. \<forall>c \<in> X. \<not> sheltered E s c w)"
  shows "civil E C N w v"
proof -
  have "shell (w_clients v c) = shell (w_clients w c)" for c
    using steady_same_core [OF assms(1)] by (simp add: steady_def)
  moreover have "limits E C N v = limits E C N w"
    using assms(1) subs_view_eqD [of v w] same_core_poll [OF assms(1)]
    by (intro limits_cong) (simp_all add: assms(2) same_core_def)
  moreover have "polls_wf E B D v \<and> (\<forall>s c. sheltered E s c w \<longrightarrow> sheltered E s c v) \<and>
      (\<forall>c. link v c = None \<or> link v c = link w c)" if "polls_wf E B D w" for B D
    using assms(3) [OF that] answers_polls [OF that] answers_sheltered answers_links by metis
  ultimately show ?thesis using assms by (simp add: civil_def same_core_def)
qed

lemma civil_send_frames:
  assumes "proper E C w c"
  shows "civil E C N w (send_frames E c fr w)"
proof (rule civil_same_core)
  obtain p where p: "c_prot (w_clients w c) = Some p" using assms by (auto simp: proper_def)
  show "same_core w (send_frames E c fr w)" by (rule same_core_send_frames) (simp add: p)
  fix B D assume g: "polls_wf E B D w"
  let ?t = "touch_send c w" let ?v = "send_frames E c fr w"
  have t: "poll_view (w_clients ?t d) = poll_view (w_clients w d)" for d by (simp add: touch_send_def poll_view_def)
  note gt = polls_wf_cong [OF t] sheltered_cong [OF t] answers_cong [OF t]
  show "\<exists>X. answers E D X w ?v \<and> (\<forall>s. \<forall>d \<in> X. \<not> sheltered E s d w)"
  proof (cases "p = P_http")
    case True
    then have s: "is_surrogate E c" using assms p by (simp add: proper_def)
    let ?X = "case link ?t c of None \<Rightarrow> {} | Some q \<Rightarrow> if c_incoming (w_clients ?t c) then {} else {q}"
    have a: "answers E D ?X ?t (protocol_http_send E c fr ?t)" by (rule http_send_answers [where B = B, OF _ s]) (simp add: gt g)
    have x: "d \<notin> ?X" if "sheltered E t d ?t" for t d
      using that s by (auto simp: sheltered_def unpolled_def split: option.split)
    from True p a x show ?thesis by (intro exI [of _ ?X]) (auto simp: send_frames_eq gt)
  next
    case False
    have "poll_view (w_clients ?v d) = poll_view (w_clients w d)" for d
      using t False p by (simp add: send_frames_eq split: option.split)
    from answers_same [OF this] show ?thesis by blast
  qed
qed simp

lemma civil_protocols_send: "proper E C w c \<Longrightarrow> civil E C N w (protocols_send E c path x cb json w)"
  using civil_send_frames [of E C w c N]
  by (auto simp: protocols_send_def Let_def split: option.split intro: civil_core)

lemma sub_get_opened: "opened (snd (sub_get ev x cr w)) = opened w" "opened (sub_unref sub w) = opened w" "opened (sub_ref sub w) = opened w"
  unfolding opened_def
  by (simp_all add: frame_simps) (auto simp: sub_unref_def Let_def split: option.split)

interpretation civil_frame: event_frame E c "\<lambda>w v. civil_law E C N \<longrightarrow> civil E C N w v"
  "\<lambda>w. civil_law E C N \<longrightarrow> proper E C w c" for E c C N
proof (unfold_locales, goal_cases)
  case (2 u v w)
  then show ?case by (blast intro: civil_trans)
next
  case (3 w v)
  then show ?case using civil_fields(5) [of E C N w v c] by blast
next
  case (11 w f)
  then show ?case by (simp add: civil_upd)
next
  case (12 w path ex cb json)
  then show ?case by (simp add: civil_protocols_send)
qed (auto simp: civil_law_def sub_get_opened frame_simps intro!: civil_core)

lemma civil_route:
  "civil_law E C N \<Longrightarrow> proper E C w c \<Longrightarrow> civil E C N w (evs_route E c path cb json w)"
  using civil_frame.route_framed [of E C N w c] by blast

lemma civil_handle:
  "civil_law E C N \<Longrightarrow> proper E C w c \<Longrightarrow> civil E C N w (snd (protocol_raw_handle E c event w))"
  using civil_frame.handle_framed [of E C N w c] by blast

end
