(* ===== verification/Evs_Broadcast.thy ===== *)
theory Evs_Broadcast
  imports Evs_Subs
begin

text \<open>
  Broadcasting to all subscribers (\<open>src/evs.c\<close>: \<open>evs_broadcast\<close>, \<open>evs_broadcast_path\<close>,
  \<open>evs_broadcast_tick\<close>). A queued broadcast owns a reference to its subscription.
\<close>

section \<open>Operations\<close>

definition evs_broadcast :: "event \<Rightarrow> string option \<Rightarrow> string option \<Rightarrow> world \<Rightarrow> world" where
  "evs_broadcast ev ev_extra json w =
     (case sub_get ev ev_extra False w of
        (None, w1) \<Rightarrow> w1
      | (Some sub, w1) \<Rightarrow> w1\<lparr>w_broadcasts := w_broadcasts w1 @ [(sub, json_or_null json)]\<rparr>)"

definition evs_broadcast_path :: "string \<Rightarrow> string option \<Rightarrow> world \<Rightarrow> world" where
  "evs_broadcast_path path json w =
     (case evs_query (w_events w) path of
        Q_oob \<Rightarrow> fault w
      | Q_null \<Rightarrow> w
      | Q_found ev ev_extra \<Rightarrow> evs_broadcast ev (Some ev_extra) json w)"

text \<open>\<open>_broadcast\<close>, for one client of the list.\<close>

definition broadcast_client :: "env \<Rightarrow> (prot \<Rightarrow> frames) \<Rightarrow> cid \<Rightarrow> world \<Rightarrow> world" where
  "broadcast_client E frs c w = stat_inc St_evs_broadcasts_events (protocols_bcast_write E c frs w)"

text \<open>The body of the loop of \<open>evs_broadcast_tick\<close>, for a broadcast taken from the queue.\<close>

definition broadcast_one :: "env \<Rightarrow> sid \<times> string \<Rightarrow> world \<Rightarrow> world" where
  "broadcast_one E b w =
     (case w_sub_heap w (fst b) of
        None \<Rightarrow> fault w
      | Some s \<Rightarrow>
          (let frs = protocols_bcast E (ev_path (sub_ev s) @ sub_ev_extra s) (snd b);
               w1 = fold (broadcast_client E frs) (list_items E (w_trace w) (fst b)) w
           in stat_inc St_evs_broadcasts_unique (sub_unref (fst b) w1)))"

lemma http_send_broadcasts [simp]: "w_broadcasts (protocol_http_send E s fr w) = w_broadcasts w"
  using same_core_http_send [of w E s fr] subs_view_eqD(4) [of "protocol_http_send E s fr w" w]
  by (simp add: same_core_def)

lemma touch_broadcasts [simp]: "w_broadcasts (touch_send c w) = w_broadcasts w"
  by (simp add: touch_send_def)

lemma bcast_write_broadcasts [simp]: "w_broadcasts (protocols_bcast_write E c frs w) = w_broadcasts w"
  by (auto simp: protocols_bcast_write_def send_frames_eq split: option.split)

lemma fold_broadcasts [simp]: "w_broadcasts (fold (broadcast_client E frs) l w) = w_broadcasts w"
  by (induction l arbitrary: w) (simp_all add: broadcast_client_def)

lemma broadcast_one_queue [simp]: "w_broadcasts (broadcast_one E b w) = w_broadcasts w"
  by (simp add: broadcast_one_def Let_def frame_simps split: option.split)

function evs_broadcast_tick :: "env \<Rightarrow> world \<Rightarrow> world" where
  "evs_broadcast_tick E w =
     (case w_broadcasts w of
        [] \<Rightarrow> w
      | b # bs \<Rightarrow> evs_broadcast_tick E (broadcast_one E b (w\<lparr>w_broadcasts := bs\<rparr>)))"
  by pat_completeness auto
termination by (relation "measure (\<lambda>(E, w). length (w_broadcasts w))") simp_all

declare evs_broadcast_tick.simps [simp del]

section \<open>The invariant\<close>

text \<open>What \<open>qev_list_foreach\<close> promises: it visits every member of the list as often as it was added.\<close>

definition items_law :: "env \<Rightarrow> bool" where
  "items_law E \<longleftrightarrow> (\<forall>tr sub c. count_list (list_items E tr sub) c = listed tr (sub, c))"

lemma push_inv:
  assumes "subs_inv (L(sub := Suc (L sub))) w"
  shows "subs_inv L (w\<lparr>w_broadcasts := w_broadcasts w @ [(sub, j)]\<rparr>)"
proof -
  let ?v = "w\<lparr>w_broadcasts := w_broadcasts w @ [(sub, j)]\<rparr>"
  have h: "client_holds ?v t = client_holds w t" for t by (simp add: client_holds_def client_subs_def)
  have "subs_wf L ?v"
    by (rule subs_wf_rebalance [OF subs_invD(1) [OF assms]])
      (use subs_wfD(4,5) [OF subs_invD(1) [OF assms]] in
        \<open>simp_all add: held_def h bcast_refs_def tables_ok_def client_subs_def\<close>)
  moreover have "lists_ok ?v" "clients_ok ?v"
    using assms by (simp_all add: subs_inv_def lists_ok_def clients_ok_def csub_get_def)
  ultimately show ?thesis by (simp add: subs_inv_def)
qed

lemma pop_inv:
  assumes "subs_inv L w" "w_broadcasts w = (sub, j) # bs"
  shows "subs_inv (L(sub := Suc (L sub))) (w\<lparr>w_broadcasts := bs\<rparr>)"
proof -
  let ?v = "w\<lparr>w_broadcasts := bs\<rparr>"
  have h: "client_holds ?v t = client_holds w t" for t by (simp add: client_holds_def client_subs_def)
  have "subs_wf (L(sub := Suc (L sub))) ?v"
    by (rule subs_wf_rebalance [OF subs_invD(1) [OF assms(1)]])
      (use subs_wfD(4,5) [OF subs_invD(1) [OF assms(1)]] assms(2) in
        \<open>simp_all add: held_def h bcast_refs_def tables_ok_def client_subs_def\<close>)
  moreover have "lists_ok ?v" "clients_ok ?v"
    using assms by (simp_all add: subs_inv_def lists_ok_def clients_ok_def csub_get_def)
  ultimately show ?thesis by (simp add: subs_inv_def)
qed

lemma broadcast_inv:
  assumes "subs_inv L w" "sub_room 1 w"
  shows "subs_inv L (evs_broadcast ev extra json w)"
proof (cases "sub_get ev extra False w")
  case (Pair r w1)
  show ?thesis
  proof (cases r)
    case None
    with sub_get_None_same [OF subs_invD(1) [OF assms(1)] assms(2)] Pair assms(1) show ?thesis
      by (auto simp: evs_broadcast_def)
  next
    case (Some sub)
    with Pair push_inv [OF sub_get_inv [OF assms, of ev extra False sub w1]] show ?thesis
      by (simp add: evs_broadcast_def)
  qed
qed

text \<open>Everyone in the list of subscribers has a protocol.\<close>

lemma items_subscribed:
  assumes "items_law E" "subs_inv L w" "c \<in> set (list_items E (w_trace w) sub)"
  shows "sub_state w c sub = CLIENT_SUB_ACTIVE" "c_prot (w_clients w c) \<noteq> None"
proof -
  have "count_list (list_items E (w_trace w) sub) c \<noteq> 0" using assms(3) by (simp add: count_list_0_iff)
  then have "listed (w_trace w) (sub, c) \<noteq> 0" using assms(1) by (simp add: items_law_def)
  then have "listed_as (csub_get c sub w) \<noteq> 0" using subs_invD(3) [OF assms(2), of sub c] by simp
  then show s: "sub_state w c sub = CLIENT_SUB_ACTIVE"
    by (auto simp: listed_as_def sub_state_def split: option.splits if_splits)
  then have "c_subs (w_clients w c) \<noteq> None" by (auto simp: sub_state_simps csub_get_def split: option.splits)
  with clients_okD(4) [OF subs_invD(2) [OF assms(2)]] show "c_prot (w_clients w c) \<noteq> None" by blast
qed

lemma same_core_fold:
  "\<forall>c \<in> set l. c_prot (w_clients w c) \<noteq> None \<Longrightarrow> same_core w (fold (broadcast_client E frs) l w)"
proof (induction l arbitrary: w)
  case Nil
  then show ?case by simp
next
  case (Cons c l)
  have s: "same_core w (broadcast_client E frs c w)"
    unfolding broadcast_client_def
    by (rule same_core_steps(3)) (use Cons.prems in \<open>auto intro: same_core_bcast_write\<close>)
  then have "quiet (w_clients (broadcast_client E frs c w) d) = quiet (w_clients w d)" for d
    by (simp add: same_core_def)
  note f = quiet_fields(3) [OF this]
  have "\<forall>d \<in> set l. c_prot (w_clients (broadcast_client E frs c w) d) \<noteq> None"
    using Cons.prems by (simp add: f)
  with Cons.IH have "same_core (broadcast_client E frs c w) (fold (broadcast_client E frs) l (broadcast_client E frs c w))"
    by simp
  with s show ?case by (simp add: same_core_trans)
qed

lemma broadcast_one_inv:
  assumes "items_law E" "subs_inv (L(fst b := Suc (L (fst b)))) w"
  shows "subs_inv L (broadcast_one E b w)"
proof -
  let ?L = "L(fst b := Suc (L (fst b)))"
  obtain s where s: "w_sub_heap w (fst b) = Some s"
    using subs_wfD(3) [OF subs_invD(1) [OF assms(2)], of "fst b"] by (cases "w_sub_heap w (fst b)") auto
  let ?w1 = "fold (broadcast_client E (protocols_bcast E (ev_path (sub_ev s) @ sub_ev_extra s) (snd b)))
      (list_items E (w_trace w) (fst b)) w"
  have "\<forall>c \<in> set (list_items E (w_trace w) (fst b)). c_prot (w_clients w c) \<noteq> None"
    using items_subscribed(2) [OF assms] by blast
  then have "calm w ?w1" by (rule calm_same_core [OF same_core_fold])
  then have "subs_inv ?L ?w1" by (rule calm_inv [OF _ assms(2)])
  from sub_unref_inv [OF this, of "fst b"] have "subs_inv L (sub_unref (fst b) ?w1)" by simp
  then have "subs_inv L (stat_inc St_evs_broadcasts_unique (sub_unref (fst b) ?w1))"
    by (rule calm_inv [OF calm_stat(1)])
  then show ?thesis by (simp add: broadcast_one_def s Let_def)
qed

lemma tick_inv:
  "items_law E \<Longrightarrow> subs_inv L w \<Longrightarrow>
   subs_inv L (evs_broadcast_tick E w) \<and> w_broadcasts (evs_broadcast_tick E w) = []"
proof (induction E w rule: evs_broadcast_tick.induct)
  case (1 E w)
  show ?case
  proof (cases "w_broadcasts w")
    case Nil
    with 1 show ?thesis by (simp add: evs_broadcast_tick.simps [of E w])
  next
    case (Cons b bs)
    obtain sub j where b: "b = (sub, j)" by (cases b)
    have "subs_inv L (broadcast_one E b (w\<lparr>w_broadcasts := bs\<rparr>))"
      using broadcast_one_inv [OF 1(2), of L b] pop_inv [OF 1(3)] Cons b by simp
    with 1(1) [OF Cons 1(2)] Cons show ?thesis by (simp add: evs_broadcast_tick.simps [of E w])
  qed
qed

section \<open>What is delivered\<close>

text \<open>One message for each handshaked client of the list, in order.\<close>

definition carries :: "string \<Rightarrow> world \<Rightarrow> cid \<Rightarrow> cid \<times> string \<Rightarrow> bool" where
  "carries raw w c m \<longleftrightarrow>
     sublist raw (snd m) \<and> (c_prot (w_clients w c) \<noteq> Some P_http \<longrightarrow> fst m = c)"

lemma bcast_write_eq_send:
  assumes "prot_ok (w_clients w c)" "c_handshaked (w_clients w c)"
  shows "protocols_bcast_write E c (protocols_bcast E path json) w =
    protocols_send E c path (Some []) EVS_NO_CALLBACK json w"
  using assms by (auto simp: protocols_bcast_write_def protocols_bcast_def protocols_send_def prot_ok_def
      prot_frame_def Let_def)

lemma fold_delivers:
  "\<forall>c \<in> set l. c_prot (w_clients w c) \<noteq> None \<and> prot_ok (w_clients w c) \<Longrightarrow>
   \<exists>ms. writes (w_trace (fold (broadcast_client E (protocols_bcast E path json)) l w)) = writes (w_trace w) @ ms \<and>
     list_all2 (carries (protocol_raw_format E path [] EVS_NO_CALLBACK json) w)
       (filter (\<lambda>c. c_handshaked (w_clients w c)) l) ms"
proof (induction l arbitrary: w)
  case Nil
  then show ?case by simp
next
  case (Cons c l)
  let ?raw = "protocol_raw_format E path [] EVS_NO_CALLBACK json"
  let ?v = "broadcast_client E (protocols_bcast E path json) c w"
  have pc: "c_prot (w_clients w c) \<noteq> None" "prot_ok (w_clients w c)" using Cons.prems by simp_all
  have s: "same_core w ?v"
    unfolding broadcast_client_def by (rule same_core_steps(3)) (simp_all add: same_core_bcast_write pc)
  then have q: "quiet (w_clients ?v d) = quiet (w_clients w d)" for d by (simp add: same_core_def)
  note f = quiet_fields(3,4) [OF q] prot_ok_quiet [OF q]
  obtain ms where ms: "writes (w_trace (fold (broadcast_client E (protocols_bcast E path json)) l ?v)) = writes (w_trace ?v) @ ms"
    "list_all2 (carries ?raw ?v) (filter (\<lambda>c. c_handshaked (w_clients ?v c)) l) ms"
    using Cons.IH [of ?v] Cons.prems by (auto simp: f)
  have cw: "carries ?raw ?v = carries ?raw w" by (simp add: carries_def fun_eq_iff f)
  show ?case
  proof (cases "c_handshaked (w_clients w c)")
    case True
    have v: "?v = stat_inc St_evs_broadcasts_events (protocols_send E c path (Some []) EVS_NO_CALLBACK json w)"
      using bcast_write_eq_send [OF pc(2) True] by (simp add: broadcast_client_def)
    have tv: "w_trace ?v = w_trace (protocols_send E c path (Some []) EVS_NO_CALLBACK json w)"
      by (simp only: v stat_inc_frame)
    obtain dst bytes where d: "writes (w_trace ?v) = writes (w_trace w) @ [(dst, bytes)]" "sublist ?raw bytes"
      "c_prot (w_clients w c) \<noteq> Some P_http \<longrightarrow> dst = c"
      unfolding tv using protocols_send_carries [OF pc(2) True, where E = E and path = path and extra = "[]"
          and cb = EVS_NO_CALLBACK and json = json] by blast
    then have "carries ?raw w c (dst, bytes)" by (simp add: carries_def)
    with True ms d(1) show ?thesis by (intro exI [of _ "(dst, bytes) # ms"]) (simp add: f cw)
  next
    case False
    have "?v = stat_inc St_evs_broadcasts_events w"
      using pc False by (auto simp: broadcast_client_def protocols_bcast_write_def)
    then have "w_trace ?v = w_trace w" by simp
    with False ms show ?thesis by (auto simp: f cw)
  qed
qed

lemma distinct_count_le: "\<forall>c. count_list l c \<le> 1 \<Longrightarrow> distinct l"
proof (induction l)
  case Nil
  then show ?case by simp
next
  case (Cons a l)
  have "count_list l c \<le> 1" for c using Cons.prems [rule_format, of c] by (simp split: if_splits)
  moreover have "count_list l a = 0" using Cons.prems [rule_format, of a] by simp
  ultimately show ?case using Cons.IH by (simp add: count_list_0_iff)
qed

text \<open>A list of subscribers that keeps the promise, for the witnesses.\<close>

definition list_model :: "effect list \<Rightarrow> sid \<Rightarrow> cid list" where
  "list_model tr sub = fold (\<lambda>e l. case e of
       E_list_add s c ok \<Rightarrow> if ok \<and> s = sub then c # l else l
     | E_list_remove s c \<Rightarrow> if s = sub then remove1 c l else l
     | _ \<Rightarrow> l) tr []"

lemma count_list_remove1: "count_list (remove1 a l) c = (if c = a then count_list l c - 1 else count_list l c)"
  by (induction l) auto

lemma items_law_sample: "items_law (sample_env\<lparr>list_items := list_model\<rparr>)"
proof -
  have "count_list (list_model tr sub) c = listed tr (sub, c)" for tr sub c
  proof (induction tr rule: rev_induct)
    case Nil
    then show ?case by (simp add: list_model_def)
  next
    case (snoc e tr)
    then show ?case by (cases e) (auto simp: list_model_def list_step_def count_list_remove1)
  qed
  then show ?thesis by (simp add: items_law_def)
qed

section \<open>Properties\<close>



text \<open>
  A tick sends every queued broadcast and ends with an empty queue; all references the
  queue held are given back, and queueing a broadcast keeps the invariant too.
\<close>

theorem broadcast_tick_drains:
  assumes "items_law E" "subs_inv L w" "sub_room 1 w"
  shows "w_broadcasts (evs_broadcast_tick E w) = [] \<and> subs_inv L (evs_broadcast_tick E w) \<and>
    subs_inv L (evs_broadcast ev extra json w)"
  using tick_inv [OF assms(1,2)] broadcast_inv [OF assms(2,3)] by blast

lemma broadcast_tick_drains_witness:
  "w_broadcasts (evs_broadcast_tick (sample_env\<lparr>list_items := list_model\<rparr>)
     (evs_broadcast (sample_event ''/e'' True) None None sample_subs_world)) = []"
proof -
  have i: "subs_inv (\<lambda>sub. if sub = 0 then 1 else 0) (evs_broadcast (sample_event ''/e'' True) None None sample_subs_world)"
    by (rule broadcast_inv [OF sample_subs_inv sample_subs_facts(1)])
  have "sub_room 2 sample_subs_world"
    by (auto simp: sample_subs_world_def sub_get_def get_if_exists_def new_sub_def init_world_def Let_def
        sub_room_def)
  then have "sub_room 1 (evs_broadcast (sample_event ''/e'' True) None None sample_subs_world)"
    using sub_get_room [OF subs_invD(1) [OF sample_subs_inv], of "sample_event ''/e'' True" None False]
    by (cases "sub_get (sample_event ''/e'' True) None False sample_subs_world")
      (auto simp: evs_broadcast_def sub_room_def split: option.split)
  from broadcast_tick_drains [OF items_law_sample i this, of "sample_event ''/e'' True" None None] show ?thesis
    by blast
qed

end
