(* ===== verification/Protocols.thy ===== *)
theory Protocols
  imports Protocol_Http Evs_Broadcast
begin

text \<open>
  The dispatch over protocols (\<open>src/protocols.c\<close>), the flash policy (\<open>src/protocols_flash.c\<close>),
  periodic work (\<open>src/periodic.c\<close>) and what quick-event calls (\<open>src/qev.c\<close>). The read loop runs on
  fuel; one more than the length of the read buffer is enough, as \<open>Read_Loop\<close> shows.
\<close>

section \<open>Flash policy\<close>

definition FLASH_POLICY_REQUEST :: string where
  "FLASH_POLICY_REQUEST = ''<policy-file-request/>''"

definition FLASH_POLICY_RESPONSE :: string where
  "FLASH_POLICY_RESPONSE =
     ''<cross-domain-policy>'' @
       ''<allow-access-from domain=\"*\" to-ports=\"*\" />'' @
     ''</cross-domain-policy>''"

definition protocol_flash_handles :: "cid \<Rightarrow> world \<Rightarrow> protocol_handles" where
  "protocol_flash_handles c w =
     (let str = cstr (rbuff_of c w)
      in if str = FLASH_POLICY_REQUEST then PROT_YES
         else if str \<noteq> [] \<and> hd str = CHR ''<'' then PROT_MAYBE
         else PROT_NO)"

definition protocol_flash_handshake :: "cid \<Rightarrow> world \<Rightarrow> protocol_status \<times> world" where
  "protocol_flash_handshake c w =
     (PROT_FATAL, stat_inc St_flash_handshakes
        (qev_close c QIO_CLOSE_DONE (emit (E_write c FLASH_POLICY_RESPONSE) (set_rbuff c [] w))))"

section \<open>The table of protocols\<close>

text \<open>The columns of \<open>_protocols[]\<close> that \<open>Protocols_Send\<close> does not have; \<open>None\<close> is a NULL entry.\<close>

definition protocols_order :: "prot list" where
  "protocols_order = [P_http, P_flash, P_raw, P_rfc6455]"

definition prot_handles :: "prot \<Rightarrow> cid \<Rightarrow> world \<Rightarrow> protocol_handles" where
  "prot_handles p =
     (case p of
        P_http \<Rightarrow> protocol_http_handles
      | P_flash \<Rightarrow> protocol_flash_handles
      | P_raw \<Rightarrow> protocol_raw_handles
      | P_rfc6455 \<Rightarrow> protocol_rfc6455_handles)"

definition prot_handshake :: "env \<Rightarrow> prot \<Rightarrow> (cid \<Rightarrow> world \<Rightarrow> protocol_status \<times> world) option" where
  "prot_handshake E p =
     (case p of
        P_http \<Rightarrow> None
      | P_flash \<Rightarrow> Some protocol_flash_handshake
      | P_raw \<Rightarrow> Some protocol_raw_handshake
      | P_rfc6455 \<Rightarrow> Some (protocol_rfc6455_handshake E))"

definition prot_route ::
  "env \<Rightarrow> prot \<Rightarrow> (cid \<Rightarrow> nat \<Rightarrow> world \<Rightarrow> protocol_status \<times> nat \<times> world) option" where
  "prot_route E p =
     (case p of
        P_http \<Rightarrow> Some (protocol_http_route E)
      | P_flash \<Rightarrow> None
      | P_raw \<Rightarrow> Some (protocol_raw_route E)
      | P_rfc6455 \<Rightarrow> Some (protocol_rfc6455_route E))"

definition prot_heartbeat :: "env \<Rightarrow> prot \<Rightarrow> (cid \<Rightarrow> heartbeat \<Rightarrow> world \<Rightarrow> world) option" where
  "prot_heartbeat E p =
     (case p of
        P_http \<Rightarrow> Some (protocol_http_heartbeat E)
      | P_flash \<Rightarrow> None
      | P_raw \<Rightarrow> Some (protocol_raw_heartbeat E)
      | P_rfc6455 \<Rightarrow> Some (protocol_rfc6455_heartbeat E))"

definition prot_close :: "env \<Rightarrow> prot \<Rightarrow> (cid \<Rightarrow> close_reason \<Rightarrow> world \<Rightarrow> world) option" where
  "prot_close E p =
     (case p of
        P_http \<Rightarrow> Some (protocol_http_close E)
      | P_flash \<Rightarrow> None
      | P_raw \<Rightarrow> None
      | P_rfc6455 \<Rightarrow> Some protocol_rfc6455_close)"

section \<open>Dispatch\<close>

text \<open>The loop of \<open>_find_handler\<close>, with the flag \<open>supported\<close>.\<close>

fun find_handler_loop :: "cid \<Rightarrow> prot list \<Rightarrow> bool \<Rightarrow> world \<Rightarrow> bool \<times> world" where
  "find_handler_loop c [] supported w =
     (False, if supported then w else qev_close c QIO_CLOSE_NOT_SUPPORTED w)"
| "find_handler_loop c (p # ps) supported w =
     (case prot_handles p c w of
        PROT_YES \<Rightarrow> (True, upd_client c (\<lambda>cl. cl\<lparr>c_prot := Some p\<rparr>) w)
      | PROT_MAYBE \<Rightarrow> find_handler_loop c ps True w
      | PROT_NO \<Rightarrow> find_handler_loop c ps supported w)"

definition find_handler :: "cid \<Rightarrow> world \<Rightarrow> bool \<times> world" where
  "find_handler c w = find_handler_loop c protocols_order False w"

definition handshake ::
  "(cid \<Rightarrow> world \<Rightarrow> protocol_status \<times> world) \<Rightarrow> cid \<Rightarrow> world \<Rightarrow> world" where
  "handshake hs c w =
     (case hs c w of
        (PROT_OK, w1) \<Rightarrow> set_handshaked c w1
      | (PROT_AGAIN, w1) \<Rightarrow> w1
      | (PROT_FATAL, w1) \<Rightarrow> qev_close c QIO_CLOSE_NOT_SUPPORTED w1)"

text \<open>The case \<open>PROT_OK\<close> of \<open>_route\<close>.\<close>

definition note_recv :: "cid \<Rightarrow> world \<Rightarrow> world" where
  "note_recv c w =
     (let w1 = upd_client c (\<lambda>cl. cl\<lparr>c_last_recv := w_now w\<rparr>) w
      in if c_timeout (w_clients w1 c)
         then emit (E_timeout_clear c) (upd_client c (\<lambda>cl. cl\<lparr>c_timeout := False\<rparr>) w1) else w1)"

definition start_timeout :: "cid \<Rightarrow> world \<Rightarrow> world" where
  "start_timeout c w = emit (E_timeout c) (upd_client c (\<lambda>cl. cl\<lparr>c_timeout := True\<rparr>) w)"

text \<open>The loop of \<open>_route\<close>: how many bytes were used. Without fuel there is no result.\<close>

fun route_loop ::
  "env \<Rightarrow> cid \<Rightarrow> nat \<Rightarrow> protocol_status \<Rightarrow> nat \<Rightarrow> world \<Rightarrow> (nat \<times> world) option" where
  "route_loop E c 0 status used w = None"
| "route_loop E c (Suc fuel) status used w =
     (case c_prot (w_clients w c) of
        None \<Rightarrow> Some (used, fault w)
      | Some p \<Rightarrow>
          (case (case prot_route E p of None \<Rightarrow> (status, used, w) | Some route \<Rightarrow> route c used w) of
             (PROT_OK, used1, w1) \<Rightarrow>
               (let w2 = note_recv c w1 in
                if used1 < length (rbuff_of c w2) then route_loop E c fuel PROT_OK used1 w2
                else Some (used1, w2))
           | (PROT_AGAIN, used1, w1) \<Rightarrow> Some (used1, start_timeout c w1)
           | (PROT_FATAL, used1, w1) \<Rightarrow> Some (used1, qev_close c QIO_CLOSE_UNKNOWN_ERROR w1)))"

definition route_fuel :: "cid \<Rightarrow> world \<Rightarrow> nat" where
  "route_fuel c w = Suc (length (rbuff_of c w))"

definition route :: "env \<Rightarrow> cid \<Rightarrow> world \<Rightarrow> world option" where
  "route E c w =
     (case route_loop E c (route_fuel c w) PROT_FATAL 0 w of
        None \<Rightarrow> None
      | Some (used, w1) \<Rightarrow> Some (set_rbuff c (drop used (rbuff_of c w1)) w1))"

definition protocols_route :: "env \<Rightarrow> cid \<Rightarrow> world \<Rightarrow> world option" where
  "protocols_route E c w =
     (let w1 = upd_client c (\<lambda>cl. cl\<lparr>c_last_recv := w_now w\<rparr>) w;
          (go, w2) = (if c_prot (w_clients w1 c) = None then find_handler c w1 else (True, w1))
      in if \<not> go then Some w2
         else if \<not> c_handshaked (w_clients w2 c) then
           (case c_prot (w_clients w2 c) of
              None \<Rightarrow> Some (fault w2)
            | Some p \<Rightarrow>
                (case prot_handshake E p of
                   None \<Rightarrow> route E c (set_handshaked c w2)
                 | Some hs \<Rightarrow> Some (handshake hs c w2)))
         else route E c w2)"

definition protocols_closed :: "env \<Rightarrow> cid \<Rightarrow> close_reason \<Rightarrow> world \<Rightarrow> world" where
  "protocols_closed E c reason w =
     (case c_prot (w_clients w c) of
        None \<Rightarrow> w
      | Some p \<Rightarrow> (case prot_close E p of None \<Rightarrow> w | Some close \<Rightarrow> close c reason w))"

definition protocols_heartbeat :: "env \<Rightarrow> cid \<Rightarrow> heartbeat \<Rightarrow> world \<Rightarrow> world" where
  "protocols_heartbeat E c hb w =
     (if c_handshaked (w_clients w c) then
        (case c_prot (w_clients w c) of
           None \<Rightarrow> fault w
         | Some p \<Rightarrow> (case prot_heartbeat E p of None \<Rightarrow> w | Some beat \<Rightarrow> beat c hb w))
      else w)"

text \<open>Microseconds.\<close>

definition HEARTBEAT_POLL :: int where "HEARTBEAT_POLL = 55 * 1000000"
definition HEARTBEAT_INTERVAL :: int where "HEARTBEAT_INTERVAL = 61 * 1000000"
definition HEARTBEAT_CHALLENGE_INTERVAL :: int where "HEARTBEAT_CHALLENGE_INTERVAL = (60 * 15) * 1000000"
definition HEARTBEAT_DEAD :: int where "HEARTBEAT_DEAD = HEARTBEAT_CHALLENGE_INTERVAL + 60 * 1000000"

definition PERIODIC_INTERVAL_USEC :: int where "PERIODIC_INTERVAL_USEC = 10 * 1000000"

lemmas interval_defs = HEARTBEAT_POLL_def HEARTBEAT_INTERVAL_def HEARTBEAT_CHALLENGE_INTERVAL_def
  HEARTBEAT_DEAD_def PERIODIC_INTERVAL_USEC_def

definition protocols_heartbeat_get_intervals :: "env \<Rightarrow> world \<Rightarrow> heartbeat" where
  "protocols_heartbeat_get_intervals E w =
     (let now = w_now w
      in \<lparr>hb_timeout = now - cfg_timeout E * 1000,
          hb_poll = now - HEARTBEAT_POLL + PERIODIC_INTERVAL_USEC,
          hb_heartbeat = now - HEARTBEAT_INTERVAL + PERIODIC_INTERVAL_USEC,
          hb_challenge = now - HEARTBEAT_CHALLENGE_INTERVAL,
          hb_dead = now - HEARTBEAT_DEAD\<rparr>)"

section \<open>Periodic work\<close>

definition periodic_foreach :: "env \<Rightarrow> heartbeat \<Rightarrow> int \<Rightarrow> cid \<Rightarrow> world \<Rightarrow> world" where
  "periodic_foreach E hb cb c w = client_cb_prune c cb (protocols_heartbeat E c hb w)"

text \<open>\<open>cs\<close> are the clients that \<open>qev_foreach\<close> goes through.\<close>

definition periodic_run :: "env \<Rightarrow> cid list \<Rightarrow> world \<Rightarrow> world" where
  "periodic_run E cs w =
     fold (periodic_foreach E (protocols_heartbeat_get_intervals E w) (client_cb_prune_get_before E w)) cs w"

section \<open>What quick-event calls\<close>

definition qev_on_open :: "env \<Rightarrow> cid \<Rightarrow> world \<Rightarrow> world" where
  "qev_on_open E c w = (if \<not> is_surrogate E c then start_timeout c w else w)"

definition qev_on_close :: "env \<Rightarrow> cid \<Rightarrow> close_reason \<Rightarrow> world \<Rightarrow> world" where
  "qev_on_close E c reason w =
     (let w1 = emit (E_timeout_clear c) (upd_client c (\<lambda>cl. cl\<lparr>c_timeout := False\<rparr>) w)
      in client_closed E c (protocols_closed E c reason w1))"

definition qev_on_read :: "env \<Rightarrow> cid \<Rightarrow> world \<Rightarrow> world option" where
  "qev_on_read E c w = protocols_route E c w"

definition qev_client_free :: "cid \<Rightarrow> world \<Rightarrow> world" where
  "qev_client_free c w = client_free_all c w"

end
