(* ===== verification/Read_Loop.thy ===== *)
theory Read_Loop
  imports Protocols
begin

text \<open>
  The way from bytes to events (\<open>_find_handler\<close>, \<open>_route\<close> and \<open>protocols_route\<close> of
  \<open>src/protocols.c\<close>): the first bytes decide the protocol, reading always ends, and a buffer of frames
  is routed event by event. What a protocol has to provide for the latter is the locale
  \<open>stream_reader\<close>, which the raw protocol and WebSocket are instances of.
\<close>

section \<open>The read loop ends\<close>

text \<open>What a step of a protocol may not change of the client it reads from.\<close>

definition reads_on :: "cid \<Rightarrow> world \<Rightarrow> world \<Rightarrow> bool" where
  "reads_on c w v \<longleftrightarrow>
     length (rbuff_of c v) = length (rbuff_of c w) \<and> c_prot (w_clients v c) = c_prot (w_clients w c)"

lemma reads_on_refl [simp]: "reads_on c w w"
  by (simp add: reads_on_def)

lemma reads_on_trans: "reads_on c u v \<Longrightarrow> reads_on c v w \<Longrightarrow> reads_on c u w"
  by (simp add: reads_on_def)

lemma reads_on_steady: "steady P w v \<Longrightarrow> reads_on c w v"
  using steadyD(1,3) [of P w v c] by (simp add: reads_on_def rbuff_of_def)

lemma reads_on_set: "length b = length (rbuff_of c w) \<Longrightarrow> reads_on c w (set_rbuff c b w)"
  by (simp add: reads_on_def) (simp add: set_rbuff_def)

lemma hushed_empty [simp]: "hushed {} c w"
  by (simp add: hushed_def)

lemma reads_on_handle: "steady_law {} E \<Longrightarrow> reads_on d w (snd (protocol_raw_handle E c event w))"
  by (rule reads_on_steady [OF steady_raw_handle [OF _ hushed_empty]])

text \<open>A successful step uses bytes, at most as many as there are.\<close>

definition progress_step :: "cid \<Rightarrow> nat \<Rightarrow> world \<Rightarrow> protocol_status \<times> nat \<times> world \<Rightarrow> bool" where
  "progress_step c used w r \<longleftrightarrow>
     (case r of (status, used1, v) \<Rightarrow>
        length (rbuff_of c v) = length (rbuff_of c w) \<and>
        c_prot (w_clients v c) \<in> {c_prot (w_clients w c), Some P_rfc6455} \<and> used \<le> used1 \<and> used1 \<le> length (rbuff_of c w) \<and>
        (status = PROT_OK \<longrightarrow> used < used1 \<or> used1 = length (rbuff_of c w)))"

lemma raw_route_progress:
  assumes "safe_uadd_law (safe_uadd E)" "steady_law {} E" "used \<le> length (rbuff_of c w)"
  shows "progress_step c used w (protocol_raw_route E c used w)"
proof -
  let ?b = "rbuff_of c w"
  let ?len = "word_of_nat (be_value (take 8 (drop used ?b))) :: guint64"
  have u: "unat t = unat ?len + 8" if "safe_uadd E ?len 8 = Some t" for t
    using that assms(1) checked_uadd_Some [of ?len 8 t] by (simp add: safe_uadd_law_def)
  have h: "reads_on c w (snd (protocol_raw_handle E c ev (set_rbuff c b w)))"
    if "length b = length ?b" for ev b
    by (rule reads_on_trans [OF reads_on_set [OF that] reads_on_handle [OF assms(2)]])
  have m: "length ((memmove used (used + 8) n ?b)[used + n := NUL]) = length ?b"
    if "used + n + 8 \<le> length ?b" for n using that by (simp add: memmove_def)
  show ?thesis
  proof (cases "safe_uadd E ?len 8")
    case None
    then show ?thesis using assms(3) by (simp add: progress_step_def protocol_raw_route_def Let_def)
  next
    case (Some t)
    then show ?thesis
      using u [OF Some] h [OF m] assms(3)
      by (auto simp: progress_step_def protocol_raw_route_def Let_def case_prod_beta reads_on_def)
  qed
qed

lemma ws_payload_progress:
  assumes "safe_uadd_law (safe_uadd E)" "used \<le> length (rbuff_of c w)" "h = p + 4" "p < 16"
    and "ws_payload E c used h l (take 4 (drop (used + p) (rbuff_of c w))) w = (st, len, n, v)"
  shows "reads_on c w v \<and> (st = PROT_OK \<longrightarrow> 0 < n \<and> used + n \<le> length (rbuff_of c w))"
proof -
  let ?b = "rbuff_of c w"
  have h: "unat (word_of_nat h :: guint64) = h" by (rule unat_small) (use assms(3,4) in simp)
  have tot: "unat t = h + unat l" if "safe_uadd E (word_of_nat h) l = Some t" for t
    using that assms(1) checked_uadd_Some [of "word_of_nat h" l t] h by (simp add: safe_uadd_law_def)
  have len: "length (unmask_in_place (take 4 (drop (used + p) ?b)) (used + h) used (unat l) ?b) = length ?b"
    if "used + h + unat l \<le> length ?b"
    using that assms(3) unmask_in_place_eq [of "take 4 (drop (used + p) ?b)" used h "unat l" ?b]
    by (simp add: length_progress)
  have c: "reads_on c w (qev_close c r (set_rbuff c b w)) = (length b = length ?b)"
    "reads_on c w (set_rbuff c b w) = (length b = length ?b)" for r b
    by (simp_all add: reads_on_def qev_close_def rbuff_of_def set_rbuff_def)
  show ?thesis
  proof (cases "safe_uadd E (word_of_nat h) l")
    case None
    with assms(5) show ?thesis by (simp add: ws_payload_def)
  next
    case (Some t)
    note u = tot [OF Some]
    show ?thesis
    proof (cases "length ?b - used < unat t")
      case True
      with assms(5) Some show ?thesis by (simp add: ws_payload_def)
    next
      case False
      then have "used + h + unat l \<le> length ?b" using u assms(2) by simp
      with len assms(3,5) Some False u show ?thesis
        by (auto simp: ws_payload_def Let_def c split: if_splits)
    qed
  qed
qed

lemma ws_decode_progress:
  assumes "safe_uadd_law (safe_uadd E)" "used \<le> length (rbuff_of c w)" "ws_decode E c used w = (st, len, n, v)"
  shows "reads_on c w v \<and> (st = PROT_OK \<longrightarrow> 0 < n \<and> used + n \<le> length (rbuff_of c w))"
proof -
  have c: "reads_on c w (qev_close c r w)" for r by (simp add: reads_on_def qev_close_def rbuff_of_def)
  note p = ws_payload_progress [OF assms(1,2)]
  show ?thesis
    using assms(3) p [of 6 2] p [of 8 4] p [of 14 10]
    by (auto simp: ws_decode_def Let_def c split: if_splits)
qed

lemma ws_route_progress:
  assumes "safe_uadd_law (safe_uadd E)" "steady_law {} E" "used \<le> length (rbuff_of c w)"
  shows "progress_step c used w (protocol_rfc6455_route E c used w)"
proof -
  obtain st len n v where d: "ws_decode E c used w = (st, len, n, v)" by (metis prod_cases4)
  have p: "reads_on c w v" "st = PROT_OK \<Longrightarrow> 0 < n \<and> used + n \<le> length (rbuff_of c w)"
    using ws_decode_progress [OF assms(1,3) d] by blast+
  have "reads_on c v (snd (protocol_raw_handle E c ev (set_rbuff c b v)))"
    if "length b = length (rbuff_of c v)" for ev b
    by (rule reads_on_trans [OF reads_on_set [OF that] reads_on_handle [OF assms(2)]])
  from reads_on_trans [OF p(1) this] have h: "reads_on c w (snd (protocol_raw_handle E c ev
      (set_rbuff c ((rbuff_of c v)[i := x]) v)))" for ev i x by simp
  show ?thesis
    using p h assms(3)
    by (auto simp: protocol_rfc6455_route_def d progress_step_def Let_def case_prod_beta reads_on_def)
qed

section \<open>The read loop of HTTP\<close>

text \<open>What reading a request leaves alone, for every client.\<close>

definition io_same :: "world \<Rightarrow> world \<Rightarrow> bool" where
  "io_same w v \<longleftrightarrow> (\<forall>c. c_rbuff (w_clients v c) = c_rbuff (w_clients w c) \<and>
     c_http_body_len (w_clients v c) = c_http_body_len (w_clients w c) \<and>
     c_prot (w_clients v c) = c_prot (w_clients w c))"

lemma io_same_trans: "io_same u v \<Longrightarrow> io_same v w \<Longrightarrow> io_same u w"
  by (simp add: io_same_def)

lemma io_same_steady: "steady {} w v \<Longrightarrow> io_same w v"
  using steadyD(1,3,5) [of "{}" w v] by (simp add: io_same_def)

lemma io_same_send:
  "io_same w (snd (send_response E d st resp w))" "io_same w (snd (send_error E d st w))"
  by (rule io_same_steady [OF steady_same_core [OF same_core_send_response]],
      rule io_same_steady [OF steady_same_core [OF same_core_send_error]])

lemma io_same_steps:
  "io_same u w \<Longrightarrow> io_same u (emit e w)" "io_same u w \<Longrightarrow> io_same u (stat_inc s w)"
  "io_same u w \<Longrightarrow> io_same u (fault w)"
  "io_same u w \<Longrightarrow> c_rbuff (f (w_clients w c)) = c_rbuff (w_clients w c) \<Longrightarrow>
     c_http_body_len (f (w_clients w c)) = c_http_body_len (w_clients w c) \<Longrightarrow>
     c_prot (f (w_clients w c)) = c_prot (w_clients w c) \<Longrightarrow> io_same u (upd_client c f w)"
  "io_same u w \<Longrightarrow> io_same u (snd (send_response E d st resp w))"
  "io_same u w \<Longrightarrow> io_same u (snd (send_error E d st w))"
  using io_same_send [where w = w] by (auto simp: io_same_def)

lemma io_same_refl [simp]: "io_same w w"
  by (simp add: io_same_def)

lemma io_same_replace: "io_same u w \<Longrightarrow> io_same u (surr_replace E s p w)"
  by (auto simp: surr_replace_def Let_def split: option.split intro!: io_same_steps)

lemma io_same_surr_send: "io_same u w \<Longrightarrow> io_same u (surr_send E s p m w)"
  by (auto simp: surr_send_def steal_client_def Let_def case_prod_beta split: option.split
      intro!: io_same_steps io_same_replace)

lemma io_same_do_body:
  assumes "steady_law {} E"
  shows "io_same w (do_body E c body w)"
proof -
  have "io_same w (snd (surr_messages E s ms (upd_client s (\<lambda>cl. cl\<lparr>c_incoming := True\<rparr>) w)))" for s ms
    by (rule io_same_trans [OF _ io_same_steady [OF steady_surr_messages [OF assms hushed_empty]]])
      (auto intro!: io_same_steps)
  then have "io_same w (surr_route E s c body w)" for s
    by (auto simp: surr_route_def Let_def case_prod_beta split: option.split
        intro!: io_same_steps io_same_replace io_same_surr_send)
  then show ?thesis by (auto simp: do_body_def split: option.split intro!: io_same_steps)
qed

text \<open>
  What is relied on of quick-event's parser: a request it accepts is not empty and not longer
  than the text it was given.
\<close>

definition http_parse_law :: "env \<Rightarrow> bool" where
  "http_parse_law E \<longleftrightarrow>
     (\<forall>s. hr_ok (http_parse E s) \<longrightarrow> 0 < hr_body (http_parse E s) \<and> hr_body (http_parse E s) \<le> length s)"

text \<open>A new surrogate is not the client that asks for it.\<close>

definition not_surrogate :: "env \<Rightarrow> cid \<Rightarrow> bool" where
  "not_surrogate E c \<longleftrightarrow> (\<forall>tr. surrogate_new E tr \<noteq> Some c)"

lemma rbuff_get_surrogate:
  "not_surrogate E c \<Longrightarrow> rbuff_of c (snd (get_surrogate E url w)) = rbuff_of c w"
  "not_surrogate E c \<Longrightarrow> c_prot (w_clients (snd (get_surrogate E url w)) c) = c_prot (w_clients w c)"
  by (auto simp: get_surrogate_def surr_find_def protocols_new_surrogate_def set_handshaked_def Let_def
      not_surrogate_def rbuff_of_def split: option.split prod.split)

lemma rbuff_do_headers_http:
  assumes "not_surrogate E c"
  shows "rbuff_of c (snd (do_headers_http E c h w)) = rbuff_of c w"
    "c_prot (w_clients (snd (do_headers_http E c h w)) c) = c_prot (w_clients w c)"
  using rbuff_get_surrogate [OF assms, of "hr_url h" w]
  by (auto simp: do_headers_http_def Let_def case_prod_beta qev_close_def rbuff_of_def
      split: option.split sum.split)

lemma io_same_rbuff: "io_same w v \<Longrightarrow> rbuff_of c v = rbuff_of c w"
  by (simp add: io_same_def rbuff_of_def)

lemma do_headers_websocket_io:
  "rbuff_of c (snd (do_headers_websocket E c h con key w)) = rbuff_of c w \<and>
   c_prot (w_clients (snd (do_headers_websocket E c h con key w)) c) \<in> {c_prot (w_clients w c), Some P_rfc6455}"
proof -
  have e: "io_same w (snd (send_error E (Some c) st (stat_inc x w)))" for st x
    by (intro io_same_steps io_same_refl)
  then have "rbuff_of c (snd (send_error E (Some c) st (stat_inc x w))) = rbuff_of c w"
    "c_prot (w_clients (snd (send_error E (Some c) st (stat_inc x w))) c) = c_prot (w_clients w c)" for st x
    by (simp_all add: io_same_def rbuff_of_def)
  moreover have "rbuff_of c (protocol_rfc6455_upgrade E c k w) = rbuff_of c w"
    "c_prot (w_clients (protocol_rfc6455_upgrade E c k w) c) = Some P_rfc6455" for k
    by (simp_all add: protocol_rfc6455_upgrade_def protocols_switch_def Let_def rbuff_of_def)
  ultimately show ?thesis by (auto simp: do_headers_websocket_def Let_def split: option.split)
qed

text \<open>The body: it is used up as a whole, or not at all.\<close>

lemma http_route_body_progress:
  assumes "safe_uadd_law (safe_uadd E)" "steady_law {} E" "used \<le> length (rbuff_of c w)"
    and "length (rbuff_of c w) < 2 ^ 64" "http_route_body E c st used w = (st1, used1, v)"
  shows "rbuff_of c v = rbuff_of c w" "c_prot (w_clients v c) = c_prot (w_clients w c)"
    "used \<le> used1" "used1 \<le> length (rbuff_of c w)"
    "st1 = PROT_OK \<Longrightarrow> st = PROT_OK \<and> (c_prot (w_clients w c) = Some P_http \<longrightarrow>
       used1 = used + unat (c_http_body_len (w_clients w c)))"
proof -
  let ?n = "c_http_body_len (w_clients w c)"
  have u: "unat (word_of_nat used :: guint64) = used" by (rule unat_small) (use assms(3,4) in simp)
  have t: "unat t = unat ?n + used" if "safe_uadd E ?n (word_of_nat used) = Some t" for t
    using that assms(1) checked_uadd_Some [of ?n "word_of_nat used" t] u by (simp add: safe_uadd_law_def)
  have d: "io_same w (do_body E c b w)" for b by (rule io_same_do_body [OF assms(2)])
  have b: "c_http_body_len (w_clients (do_body E c b w) c) = ?n" "rbuff_of c (do_body E c b w) = rbuff_of c w"
    "c_prot (w_clients (do_body E c b w) c) = c_prot (w_clients w c)" for b
    using d by (simp_all add: io_same_def rbuff_of_def)
  have z: "rbuff_of c (upd_client c (\<lambda>cl. cl\<lparr>c_http_body_len := 0\<rparr>) x) = rbuff_of c x" for x
    by (simp add: rbuff_of_def)
  have "rbuff_of c v = rbuff_of c w \<and> c_prot (w_clients v c) = c_prot (w_clients w c) \<and> used \<le> used1 \<and> used1 \<le> length (rbuff_of c w) \<and>
    (st1 = PROT_OK \<longrightarrow> st = PROT_OK \<and> (c_prot (w_clients w c) = Some P_http \<longrightarrow> used1 = used + unat ?n))"
    using assms(3,5) t by (auto simp: http_route_body_def Let_def b z split: if_splits option.splits)
  then show "rbuff_of c v = rbuff_of c w" "c_prot (w_clients v c) = c_prot (w_clients w c)"
    "used \<le> used1" "used1 \<le> length (rbuff_of c w)"
    "st1 = PROT_OK \<Longrightarrow> st = PROT_OK \<and> (c_prot (w_clients w c) = Some P_http \<longrightarrow> used1 = used + unat ?n)"
    by blast+
qed

lemma cstr_length: "length (cstr s) \<le> length s"
  by (simp add: cstr_def length_takeWhile_le)

text \<open>Once the headers are read, the rest is the body.\<close>

lemma http_body_step:
  assumes "safe_uadd_law (safe_uadd E)" "steady_law {} E" "length (rbuff_of c w) < 2 ^ 64"
    and "rbuff_of c u = rbuff_of c w" "c_prot (w_clients u c) \<in> {c_prot (w_clients w c), Some P_rfc6455}"
    and "used \<le> used1" "used1 \<le> length (rbuff_of c w)"
    and "st = PROT_OK \<Longrightarrow> used < used1 \<or> used1 = length (rbuff_of c w) \<or>
      c_prot (w_clients u c) = Some P_http \<and> c_http_body_len (w_clients u c) \<noteq> 0"
  shows "progress_step c used w (http_route_body E c st used1 u)"
proof -
  obtain st1 used2 v where r: "http_route_body E c st used1 u = (st1, used2, v)" by (metis prod_cases3)
  have l: "used1 \<le> length (rbuff_of c u)" "length (rbuff_of c u) < 2 ^ 64" using assms(3,4,7) by simp_all
  note p = http_route_body_progress [OF assms(1,2) l r]
  have "0 < unat (c_http_body_len (w_clients u c))" if "c_http_body_len (w_clients u c) \<noteq> 0"
    using that by (simp add: unat_gt_0)
  with p assms(4-8) show ?thesis
    by (auto simp: progress_step_def r)
qed

lemma http_route_progress:
  assumes "safe_uadd_law (safe_uadd E)" "steady_law {} E" "http_parse_law E" "not_surrogate E c"
    and "used \<le> length (rbuff_of c w)" "length (rbuff_of c w) < 2 ^ 64" "c_prot (w_clients w c) = Some P_http"
  shows "progress_step c used w (protocol_http_route E c used w)"
proof -
  let ?w0 = "touch_send c w"
  let ?P = "{c_prot (w_clients w c), Some P_rfc6455}"
  have w0: "rbuff_of c ?w0 = rbuff_of c w" "c_prot (w_clients ?w0 c) = Some P_http"
    using assms(7) by (simp_all add: rbuff_of_def touch_send_def)
  note body = http_body_step [OF assms(1,2,6)]
  show ?thesis
  proof (cases "c_http_body_len (w_clients ?w0 c) = 0")
    case False
    then have "protocol_http_route E c used w = http_route_body E c PROT_OK used ?w0"
      by (simp add: protocol_http_route_def)
    with body [OF w0(1)] w0(2) False assms(5,7) show ?thesis by simp
  next
    case True
    let ?h = "http_parse E (cstr (drop used (rbuff_of c ?w0)))"
    let ?w2 = "upd_client c (\<lambda>cl. cl\<lparr>c_in_request := True, c_keep_alive := request_keep_alive ?h\<rparr>)
      (snd (send_error E (Some c) STATUS_200 ?w0))"
    have w2: "rbuff_of c ?w2 = rbuff_of c w" "c_prot (w_clients ?w2 c) = c_prot (w_clients w c)"
      using io_same_send(2) [of ?w0 E "Some c" STATUS_200] w0 assms(7)
      by (simp_all add: rbuff_of_def io_same_def)
    have cl: "rbuff_of c (qev_close c r x) = rbuff_of c x"
      "c_prot (w_clients (qev_close c r x) c) = c_prot (w_clients x c)" for r x
      by (simp_all add: rbuff_of_def qev_close_def)
    have ok: "hr_ok ?h \<Longrightarrow> 0 < hr_body ?h \<and> used + hr_body ?h \<le> length (rbuff_of c w)"
      using assms(3,5) cstr_length [of "drop used (rbuff_of c w)"] w0(1)
      by (fastforce simp: http_parse_law_def)
    have no: "progress_step c used w (http_route_body E c PROT_FATAL used (qev_close c HTTP_BAD_REQUEST ?w2))"
      using body [of "qev_close c HTTP_BAD_REQUEST ?w2" used used PROT_FATAL] w2 cl assms(5) by simp
    have ws: "progress_step c used w (http_route_body E c st (length (rbuff_of c w)) x)"
      if "rbuff_of c x = rbuff_of c w" "c_prot (w_clients x c) \<in> ?P" for st x
      using body [OF that] assms(5) by simp
    have ht: "hr_ok ?h \<Longrightarrow> progress_step c used w (http_route_body E c st (used + hr_body ?h) x)"
      if "rbuff_of c x = rbuff_of c w" "c_prot (w_clients x c) \<in> ?P" for st x
      using body [OF that] ok by simp
    have rw: "rbuff_of c (snd (do_headers_websocket E c ?h con key ?w2)) = rbuff_of c w"
      "c_prot (w_clients (snd (do_headers_websocket E c ?h con key ?w2)) c) \<in> ?P" for con key
      using do_headers_websocket_io [of c E ?h con key ?w2] w2 by simp_all
    have rh: "rbuff_of c (snd (do_headers_http E c ?h ?w2)) = rbuff_of c w"
      "c_prot (w_clients (snd (do_headers_http E c ?h ?w2)) c) \<in> ?P"
      using rbuff_do_headers_http [OF assms(4), of ?h ?w2] w2 by simp_all
    show ?thesis
    proof (cases "\<not> hr_ok ?h \<and> hr_incomplete ?h")
      case t: True
      have "protocol_http_route E c used w = (PROT_AGAIN, used, ?w0)"
        using t True by (simp add: protocol_http_route_def Let_def)
      with w0 assms(5,7) show ?thesis by (simp add: progress_step_def)
    next
      case f: False
      then show ?thesis
        using True no ws ht rw rh cl
        by (auto simp: protocol_http_route_def Let_def case_prod_beta split: option.split)
    qed
  qed
qed

section \<open>The loop\<close>

text \<open>Everything the read loop relies on of code that is not in the repository.\<close>

definition read_laws :: "env \<Rightarrow> cid \<Rightarrow> bool" where
  "read_laws E c \<longleftrightarrow>
     safe_uadd_law (safe_uadd E) \<and> steady_law {} E \<and> http_parse_law E \<and> not_surrogate E c"

lemma read_laws_sample: "read_laws sample_env c"
  by (simp add: read_laws_def safe_uadd_law_def steady_law_sample)
    (simp add: http_parse_law_def not_surrogate_def sample_env_def)

lemma prot_route_progress:
  assumes "read_laws E c" "used \<le> length (rbuff_of c w)" "length (rbuff_of c w) < 2 ^ 64"
    and "c_prot (w_clients w c) = Some p" "prot_route E p = Some r"
  shows "progress_step c used w (r c used w)"
  using assms raw_route_progress [of E used c w] ws_route_progress [of E used c w]
    http_route_progress [of E c used w]
  by (cases p) (auto simp: read_laws_def prot_route_def)

lemma loop_frame [simp]:
  "rbuff_of d (note_recv c w) = rbuff_of d w" "rbuff_of d (start_timeout c w) = rbuff_of d w"
  "rbuff_of d (qev_close c r w) = rbuff_of d w"
  "c_prot (w_clients (note_recv c w) d) = c_prot (w_clients w d)"
  by (simp_all add: note_recv_def start_timeout_def qev_close_def rbuff_of_def Let_def)

lemma route_loop_ends:
  assumes "read_laws E c" "length (rbuff_of c w) - used < fuel" "used \<le> length (rbuff_of c w)"
    and "length (rbuff_of c w) < 2 ^ 64" "c_prot (w_clients w c) \<noteq> None"
    and "c_prot (w_clients w c) = Some P_flash \<longrightarrow> status \<noteq> PROT_OK"
  shows "\<exists>used1 v. route_loop E c fuel status used w = Some (used1, v) \<and>
    used1 \<le> length (rbuff_of c w) \<and> length (rbuff_of c v) = length (rbuff_of c w)"
  using assms(2-)
proof (induction fuel arbitrary: status used w)
  case (Suc fuel)
  from Suc.prems(4) obtain p where p: "c_prot (w_clients w c) = Some p" by auto
  show ?case
  proof (cases "prot_route E p")
    case None
    then have "p = P_flash" by (cases p) (simp_all add: prot_route_def)
    with None p Suc.prems show ?thesis by (cases status) simp_all
  next
    case (Some r)
    obtain st used1 v where r: "r c used w = (st, used1, v)" by (metis prod_cases3)
    from prot_route_progress [OF assms(1) Suc.prems(2,3) p Some]
    have v: "length (rbuff_of c v) = length (rbuff_of c w)" "c_prot (w_clients v c) \<in> {Some p, Some P_rfc6455}"
      "used1 \<le> length (rbuff_of c w)" "st = PROT_OK \<Longrightarrow> used < used1 \<or> used1 = length (rbuff_of c w)"
      by (auto simp: r p progress_step_def)
    have nf: "p \<noteq> P_flash" using Some by (auto simp: prot_route_def)
    show ?thesis
    proof (cases "st = PROT_OK \<and> used1 < length (rbuff_of c v)")
      case True
      have "\<exists>used2 u. route_loop E c fuel PROT_OK used1 (note_recv c v) = Some (used2, u) \<and>
          used2 \<le> length (rbuff_of c (note_recv c v)) \<and>
          length (rbuff_of c u) = length (rbuff_of c (note_recv c v))"
        by (rule Suc.IH) (use True v nf Suc.prems in auto)
      with True v(1) show ?thesis by (simp add: p Some r Let_def)
    next
      case False
      with v show ?thesis by (cases st) (simp_all add: p Some r Let_def)
    qed
  qed
qed simp

section \<open>Streams of frames\<close>

text \<open>An event as a client writes it: path, callback id, JSON.\<close>

type_synonym sent_event = "string \<times> guint64 \<times> string"

definition event_text :: "env \<Rightarrow> sent_event \<Rightarrow> string" where
  "event_text E ev = (case ev of (path, cb, json) \<Rightarrow> protocol_raw_format E path [] cb json)"

definition deliver :: "env \<Rightarrow> cid \<Rightarrow> sent_event \<Rightarrow> world \<Rightarrow> world" where
  "deliver E c ev w = (case ev of (path, cb, json) \<Rightarrow> evs_route E c path cb json w)"

text \<open>
  The events of a list are routed one after the other; in between, only the read buffer and the
  time of the last receipt change.
\<close>

inductive routed :: "env \<Rightarrow> cid \<Rightarrow> sent_event list \<Rightarrow> world \<Rightarrow> world \<Rightarrow> bool" for E c where
  none: "routed E c [] w w"
| event: "routed E c evs (note_recv c (deliver E c ev (set_rbuff c b w))) v \<Longrightarrow> routed E c (ev # evs) w v"

inductive_simps routed_simps: "routed E c [] w v" "routed E c (ev # evs) w v"

text \<open>
  The interface of a protocol that reads events out of a stream: a complete frame at the read
  position is delivered and used up, the front of one is left alone.
\<close>

locale stream_reader =
  fixes E :: env and p :: prot
    and read :: "cid \<Rightarrow> nat \<Rightarrow> world \<Rightarrow> protocol_status \<times> nat \<times> world"
    and enc :: "sent_event \<Rightarrow> string" and good :: "sent_event \<Rightarrow> bool"
  assumes reads: "prot_route E p = Some read"
    and complete: "good ev \<Longrightarrow> rbuff_of c w = pre @ enc ev @ rest \<Longrightarrow>
      \<exists>b. read c (length pre) w = (PROT_OK, length pre + length (enc ev), deliver E c ev (set_rbuff c b w)) \<and>
        drop (length pre + length (enc ev)) b = rest \<and> length b = length (rbuff_of c w)"
    and partial: "good ev \<Longrightarrow> rbuff_of c w = pre @ t \<Longrightarrow> strict_prefix t (enc ev) \<Longrightarrow>
      read c (length pre) w = (PROT_AGAIN, length pre, w)"
    and nonempty: "good ev \<Longrightarrow> enc ev \<noteq> []"
    and kept: "good ev \<Longrightarrow> rbuff_of c (deliver E c ev w) = rbuff_of c w \<and>
      c_prot (w_clients (deliver E c ev w) c) = c_prot (w_clients w c)"
begin

lemma loop_reads:
  assumes "good final" "strict_prefix t (enc final)"
  shows "\<forall>ev \<in> set evs. good ev \<Longrightarrow> c_prot (w_clients w c) = Some p \<Longrightarrow>
    rbuff_of c w = pre @ concat (map enc evs) @ t \<Longrightarrow> length (concat (map enc evs) @ t) < fuel \<Longrightarrow>
    \<exists>used u. route_loop E c fuel st (length pre) w =
        Some (used, if t = [] \<and> evs \<noteq> [] then u else start_timeout c u) \<and>
      routed E c evs w u \<and> drop used (rbuff_of c u) = t"
proof (induction evs arbitrary: w pre fuel st)
  case Nil
  then obtain n where n: "fuel = Suc n" by (cases fuel) auto
  have "read c (length pre) w = (PROT_AGAIN, length pre, w)"
    by (rule partial [OF assms(1) _ assms(2)]) (use Nil in simp)
  with Nil show ?case by (simp add: n reads routed_simps)
next
  case (Cons ev evs)
  then obtain n where n: "fuel = Suc n" by (cases fuel) auto
  let ?rest = "concat (map enc evs) @ t"
  have g: "good ev" and gs: "\<forall>ev \<in> set evs. good ev" using Cons.prems(1) by simp_all
  have "rbuff_of c w = pre @ enc ev @ ?rest" using Cons.prems(3) by simp
  from complete [OF g this] obtain b where
    b: "read c (length pre) w = (PROT_OK, length pre + length (enc ev), deliver E c ev (set_rbuff c b w))"
       "drop (length pre + length (enc ev)) b = ?rest" "length b = length (rbuff_of c w)" by blast
  let ?v = "note_recv c (deliver E c ev (set_rbuff c b w))"
  have v: "rbuff_of c ?v = b" "c_prot (w_clients ?v c) = Some p"
    using kept [OF g, of c "set_rbuff c b w"] Cons.prems(2) by simp_all (simp add: set_rbuff_def)
  let ?pre = "take (length pre + length (enc ev)) b"
  have lb: "length b = length pre + length (enc ev) + length ?rest"
    using b(3) Cons.prems(3) by simp
  have pre: "length ?pre = length pre + length (enc ev)" "rbuff_of c ?v = ?pre @ ?rest"
    using lb v(1) append_take_drop_id [of "length pre + length (enc ev)" b] b(2) by simp_all
  show ?case
  proof (cases "?rest = []")
    case True
    have "evs = []"
    proof (rule ccontr)
      assume "evs \<noteq> []"
      then obtain e es where "evs = e # es" by (cases evs) auto
      with True gs nonempty [of e] show False by simp
    qed
    with True Cons.prems b v lb show ?thesis
      by (auto simp: n reads routed_simps Let_def intro!: exI [of _ ?v])
  next
    case False
    have fuel: "length ?rest < n" using nonempty [OF g] Cons.prems(4) n by (cases "enc ev") simp_all
    from Cons.IH [OF gs v(2) pre(2) fuel, of PROT_OK] obtain used u where
      u: "route_loop E c n PROT_OK (length ?pre) ?v =
            Some (used, if t = [] \<and> evs \<noteq> [] then u else start_timeout c u)"
         "routed E c evs ?v u" "drop used (rbuff_of c u) = t" by blast
    have c: "(if t = [] \<and> evs \<noteq> [] then u else start_timeout c u) =
        (if t = [] \<and> ev # evs \<noteq> [] then u else start_timeout c u)" using False by auto
    have l: "length pre + length (enc ev) < length (rbuff_of c ?v)" using lb v(1) False by simp
    have "route_loop E c fuel st (length pre) w = route_loop E c n PROT_OK (length ?pre) ?v"
      unfolding pre(1) using Cons.prems(2) l by (simp add: n reads b(1) Let_def)
    with u c show ?thesis by (auto simp: routed_simps)
  qed
qed

lemma stream_routed:
  assumes "\<forall>ev \<in> set evs. good ev" "good final" "strict_prefix t (enc final)"
    and "c_prot (w_clients w c) = Some p" "c_handshaked (w_clients w c)"
    and "rbuff_of c w = concat (map enc evs) @ t"
    and "w0 = upd_client c (\<lambda>cl. cl\<lparr>c_last_recv := w_now w\<rparr>) w"
  shows "\<exists>u v. protocols_route E c w = Some v \<and> routed E c evs w0 u \<and> rbuff_of c v = t \<and>
    v = set_rbuff c t (if t = [] \<and> evs \<noteq> [] then u else start_timeout c u)"
proof -
  have w0: "rbuff_of c w0 = [] @ concat (map enc evs) @ t" "c_prot (w_clients w0 c) = Some p"
    "c_handshaked (w_clients w0 c)" using assms(4-7) by (simp_all add: rbuff_of_def)
  have "length (concat (map enc evs) @ t) < route_fuel c w0" using w0(1) by (simp add: route_fuel_def)
  from loop_reads [OF assms(2,3,1) w0(2,1) this, of PROT_FATAL] obtain used u where
    u: "route_loop E c (route_fuel c w0) PROT_FATAL 0 w0 =
          Some (used, if t = [] \<and> evs \<noteq> [] then u else start_timeout c u)"
       "routed E c evs w0 u" "drop used (rbuff_of c u) = t" by auto
  have "protocols_route E c w = route E c w0"
    using w0(2,3) by (simp add: protocols_route_def assms(7) [symmetric])
  with u show ?thesis by (auto simp: route_def)
qed

end

text \<open>Events that the raw protocol and WebSocket carry unchanged, under the laws of the environment.\<close>

definition raw_good :: "env \<Rightarrow> sent_event \<Rightarrow> bool" where
  "raw_good E ev \<longleftrightarrow>
     uint_str_law (uint_str E) \<and> safe_uadd_law (safe_uadd E) \<and> steady_law {} E \<and>
     length (event_text E ev) + 14 < 2 ^ 64 \<and> NUL \<notin> set (event_text E ev) \<and>
     CHR '':'' \<notin> set (fst ev) \<and> fst (snd ev) \<noteq> - 1"

definition ws_good :: "env \<Rightarrow> sent_event \<Rightarrow> bool" where
  "ws_good E ev \<longleftrightarrow> raw_good E ev \<and> utf8_validate E (event_text E ev)"

definition raw_enc :: "env \<Rightarrow> sent_event \<Rightarrow> string" where
  "raw_enc E ev = be_bytes 8 (length (event_text E ev)) @ event_text E ev"

definition ws_enc :: "env \<Rightarrow> (sent_event \<Rightarrow> nat) \<Rightarrow> sent_event \<Rightarrow> string" where
  "ws_enc E pick ev = masked_frame (be_bytes 4 (pick ev)) (event_text E ev)"

lemma deliver_kept:
  "raw_good E ev \<Longrightarrow> rbuff_of c (deliver E c ev w) = rbuff_of c w \<and>
   c_prot (w_clients (deliver E c ev w) c) = c_prot (w_clients w c)"
proof -
  assume "raw_good E ev"
  then have "steady {} w (deliver E c ev w)"
    by (cases ev) (simp add: raw_good_def deliver_def steady_evs_route)
  from steadyD(1,3) [OF this] show ?thesis by (simp add: rbuff_of_def)
qed

interpretation raw_reader: stream_reader E P_raw "protocol_raw_route E" "raw_enc E" "raw_good E" for E
proof (unfold_locales, goal_cases)
  case 1
  then show ?case by (simp add: prot_route_def)
next
  case (2 ev c w pre rest)
  obtain path cb json where ev: "ev = (path, cb, json)" by (cases ev)
  let ?m = "event_text E ev"
  have g: "uint_str_law (uint_str E)" "safe_uadd_law (safe_uadd E)" "length ?m + 8 < 2 ^ 64" "NUL \<notin> set ?m"
    "CHR '':'' \<notin> set (path @ [])" "cb \<noteq> - 1" using 2(1) by (simp_all add: raw_good_def ev)
  have m: "?m = protocol_raw_format E path [] cb json" by (simp add: event_text_def ev)
  have b: "rbuff_of c w = pre @ be_bytes 8 (length ?m) @ ?m @ rest" using 2(2) by (simp add: raw_enc_def)
  from raw_route_complete [OF g(1,2) b refl m g(3-6)] show ?case
    by (auto simp: raw_enc_def deliver_def ev add.assoc)
next
  case (3 ev c w pre t)
  have g: "safe_uadd_law (safe_uadd E)" "length (event_text E ev) + 8 < 2 ^ 64"
    using 3(1) by (simp_all add: raw_good_def)
  show ?case by (rule raw_route_partial [OF g(1) 3(2) refl 3(3) [unfolded raw_enc_def] g(2)])
next
  case (4 ev)
  have "length (raw_enc E ev) \<noteq> 0" by (simp add: raw_enc_def)
  then show ?case by (metis list.size(3))
next
  case (5 ev c w)
  then show ?case by (rule deliver_kept)
qed

interpretation ws_reader: stream_reader E P_rfc6455 "protocol_rfc6455_route E" "ws_enc E pick" "ws_good E"
  for E pick
proof (unfold_locales, goal_cases)
  case 1
  then show ?case by (simp add: prot_route_def)
next
  case (2 ev c w pre rest)
  obtain path cb json where ev: "ev = (path, cb, json)" by (cases ev)
  let ?m = "event_text E ev" let ?key = "be_bytes 4 (pick ev)"
  have g: "uint_str_law (uint_str E)" "safe_uadd_law (safe_uadd E)" "length ?m + 14 < 2 ^ 64" "NUL \<notin> set ?m"
    "CHR '':'' \<notin> set (path @ [])" "cb \<noteq> - 1" "utf8_validate E ?m"
    using 2(1) by (simp_all add: raw_good_def ws_good_def ev)
  have m: "?m = protocol_raw_format E path [] cb json" by (simp add: event_text_def ev)
  have b: "rbuff_of c w = pre @ masked_frame ?key ?m @ rest" using 2(2) by (simp add: ws_enc_def)
  from rfc6455_route_complete [OF g(1,2) b refl length_be_bytes m g(3-7)] show ?case
    by (auto simp: ws_enc_def deliver_def ev)
next
  case (3 ev c w pre t)
  then show ?case
    by (intro rfc6455_route_again [of E "be_bytes 4 (pick ev)" "event_text E ev"])
      (simp_all add: raw_good_def ws_good_def ws_enc_def)
next
  case (4 ev)
  then show ?case by (simp add: ws_enc_def masked_frame_def masked_head_def)
next
  case (5 ev c w)
  then show ?case by (simp add: ws_good_def deliver_kept)
qed

section \<open>Finding a protocol\<close>

lemma prot_all: "(\<forall>p. Q p) \<longleftrightarrow> Q P_http \<and> Q P_flash \<and> Q P_raw \<and> Q P_rfc6455"
  by (metis prot.exhaust)

lemma handles_yes_first:
  assumes "prot_handles p c w = PROT_YES"
  shows "cstr (rbuff_of c w) \<noteq> [] \<and>
    (case p of P_http \<Rightarrow> hd (cstr (rbuff_of c w)) \<in> set ''GPOHD''
     | P_flash \<Rightarrow> hd (cstr (rbuff_of c w)) = CHR ''<''
     | P_raw \<Rightarrow> hd (cstr (rbuff_of c w)) = CHR ''/''
     | P_rfc6455 \<Rightarrow> False)"
  using assms
  by (cases p; cases "cstr (rbuff_of c w)")
    (auto simp: prot_handles_def protocol_http_handles_def protocol_flash_handles_def protocol_raw_handles_def
      protocol_rfc6455_handles_def FLASH_POLICY_REQUEST_def HANDSHAKE_def Let_def split: if_splits)

lemma handles_yes_unique: "prot_handles p c w = PROT_YES \<Longrightarrow> prot_handles q c w = PROT_YES \<Longrightarrow> p = q"
  using handles_yes_first [of p c w] handles_yes_first [of q c w]
  by (cases p; cases q) auto

lemma find_handler_yes:
  assumes "prot_handles p c w = PROT_YES"
  shows "find_handler c w = (True, upd_client c (\<lambda>cl. cl\<lparr>c_prot := Some p\<rparr>) w)"
proof -
  have "prot_handles q c w \<noteq> PROT_YES" if "q \<noteq> p" for q using handles_yes_unique [OF assms, of q] that by auto
  then show ?thesis
    using assms by (cases p) (auto simp: find_handler_def protocols_order_def split: protocol_handles.split)
qed

lemma find_handler_no:
  assumes "\<And>p. prot_handles p c w \<noteq> PROT_YES"
  shows "find_handler c w =
    (False, if \<exists>p. prot_handles p c w = PROT_MAYBE then w else qev_close c QIO_CLOSE_NOT_SUPPORTED w)"
proof -
  have m: "(\<exists>p. prot_handles p c w = PROT_MAYBE) \<longleftrightarrow>
      \<not> (prot_handles P_http c w \<noteq> PROT_MAYBE \<and> prot_handles P_flash c w \<noteq> PROT_MAYBE \<and>
         prot_handles P_raw c w \<noteq> PROT_MAYBE \<and> prot_handles P_rfc6455 c w \<noteq> PROT_MAYBE)"
    using prot_all [of "\<lambda>p. prot_handles p c w \<noteq> PROT_MAYBE"] by blast
  show ?thesis
    using assms [of P_http] assms [of P_flash] assms [of P_raw] assms [of P_rfc6455]
    unfolding m by (auto simp: find_handler_def protocols_order_def split: protocol_handles.split)
qed

lemma find_handler_frame:
  assumes "find_handler c w = (go, v)"
  shows "rbuff_of c v = rbuff_of c w" "go \<Longrightarrow> c_prot (w_clients v c) \<noteq> None"
proof -
  have "rbuff_of c v = rbuff_of c w \<and> (go \<longrightarrow> c_prot (w_clients v c) \<noteq> None)"
  proof (cases "\<exists>p. prot_handles p c w = PROT_YES")
    case True
    then obtain p where "prot_handles p c w = PROT_YES" by blast
    from find_handler_yes [OF this] assms show ?thesis by (auto simp: rbuff_of_def)
  next
    case False
    with find_handler_no [of c w] assms show ?thesis by auto
  qed
  then show "rbuff_of c v = rbuff_of c w" "go \<Longrightarrow> c_prot (w_clients v c) \<noteq> None" by blast+
qed

section \<open>Reading returns\<close>

lemma route_returns:
  assumes "read_laws E c" "length (rbuff_of c w) < 2 ^ 64" "c_prot (w_clients w c) \<noteq> None"
  shows "\<exists>v. route E c w = Some v \<and> length (rbuff_of c v) \<le> length (rbuff_of c w)"
proof -
  from route_loop_ends [OF assms(1), of w 0 "route_fuel c w" PROT_FATAL] assms(2,3)
  obtain used v where "route_loop E c (route_fuel c w) PROT_FATAL 0 w = Some (used, v)"
    "length (rbuff_of c v) = length (rbuff_of c w)" by (auto simp: route_fuel_def)
  then show ?thesis by (simp add: route_def)
qed

lemma handshake_rbuff:
  assumes "safe_uadd_law (safe_uadd E)" "prot_handshake E p = Some hs"
  shows "length (rbuff_of c (handshake hs c w)) \<le> length (rbuff_of c w)"
proof -
  have h: "length (rbuff_of c (handshake hs c w)) = length (rbuff_of c (snd (hs c w)))"
    by (cases "hs c w") (auto simp: handshake_def set_handshaked_def rbuff_of_def qev_close_def
        split: protocol_status.split)
  obtain st len n v where d: "ws_decode E c 0 w = (st, len, n, v)" by (metis prod_cases4)
  have "length (rbuff_of c v) = length (rbuff_of c w)"
    using ws_decode_progress [OF assms(1) _ d] by (simp add: reads_on_def)
  then have ws: "length (rbuff_of c (snd (protocol_rfc6455_handshake E c w))) \<le> length (rbuff_of c w)"
    by (simp add: protocol_rfc6455_handshake_def d Let_def protocol_raw_check_handshake_def)
      (simp add: rbuff_of_def set_rbuff_def)
  show ?thesis
    unfolding h using assms(2) ws
    by (cases p) (auto simp: prot_handshake_def protocol_flash_handshake_def protocol_raw_handshake_def rbuff_of_def
        set_rbuff_def qev_close_def)
qed

lemma set_handshaked_frame [simp]:
  "rbuff_of d (set_handshaked c w) = rbuff_of d w" "c_prot (w_clients (set_handshaked c w) d) = c_prot (w_clients w d)"
  by (simp_all add: set_handshaked_def rbuff_of_def)

lemma protocols_route_total:
  assumes "read_laws E c" "length (rbuff_of c w) < 2 ^ 64"
  shows "\<exists>v. protocols_route E c w = Some v \<and> length (rbuff_of c v) \<le> length (rbuff_of c w)"
proof -
  let ?w1 = "upd_client c (\<lambda>cl. cl\<lparr>c_last_recv := w_now w\<rparr>) w"
  obtain go w2 where f: "(if c_prot (w_clients ?w1 c) = None then find_handler c ?w1 else (True, ?w1)) = (go, w2)"
    by (cases "if c_prot (w_clients ?w1 c) = None then find_handler c ?w1 else (True, ?w1)")
  have w1: "rbuff_of c ?w1 = rbuff_of c w" by (simp add: rbuff_of_def)
  have w2: "rbuff_of c w2 = rbuff_of c w" "go \<Longrightarrow> c_prot (w_clients w2 c) \<noteq> None"
    using f w1 find_handler_frame [of c ?w1 go w2] by (auto split: if_splits)
  have r: "\<exists>v. route E c x = Some v \<and> length (rbuff_of c v) \<le> length (rbuff_of c w)"
    if "go" "rbuff_of c x = rbuff_of c w" "c_prot (w_clients x c) = c_prot (w_clients w2 c)" for x
    using route_returns [OF assms(1), of x] assms(2) w2(2) that by simp
  have hs: "length (rbuff_of c (handshake h c w2)) \<le> length (rbuff_of c w)" if "prot_handshake E p = Some h" for p h
    using handshake_rbuff [OF _ that, of c w2] assms(1) w2(1) by (simp add: read_laws_def)
  show ?thesis
    using f w2 r [of w2] r [of "set_handshaked c w2"] hs
    by (auto simp: protocols_route_def Let_def split: option.split)
qed

section \<open>Properties\<close>

text \<open>
  The first bytes decide the protocol, whatever the order of the table: at most one
  protocol claims them, the client gets that one; if none does but one still may, nothing
  happens until more bytes arrive; and only if none can, the client is closed.
\<close>

theorem find_handler_decides:
  "(\<forall>p. prot_handles p c w = PROT_YES \<longrightarrow>
      find_handler c w = (True, upd_client c (\<lambda>cl. cl\<lparr>c_prot := Some p\<rparr>) w) \<and>
      (\<forall>q. prot_handles q c w = PROT_YES \<longrightarrow> q = p)) \<and>
   ((\<forall>p. prot_handles p c w \<noteq> PROT_YES) \<longrightarrow>
      find_handler c w =
        (False, if \<exists>p. prot_handles p c w = PROT_MAYBE then w else qev_close c QIO_CLOSE_NOT_SUPPORTED w))"
  using find_handler_yes [of _ c w] handles_yes_unique [of _ c w] find_handler_no [of c w] by blast

lemma find_handler_decides_witness:
  "find_handler 5 (set_rbuff 5 ''/qio/ohai'' init_world) =
     (True, upd_client 5 (\<lambda>cl. cl\<lparr>c_prot := Some P_raw\<rparr>) (set_rbuff 5 ''/qio/ohai'' init_world))"
proof -
  have "prot_handles P_raw 5 (set_rbuff 5 ''/qio/ohai'' init_world) = PROT_YES"
    by (simp add: prot_handles_def protocol_raw_handles_def HANDSHAKE_def cstr_def)
  with find_handler_decides [of 5 "set_rbuff 5 ''/qio/ohai'' init_world"] show ?thesis by blast
qed

text \<open>
  C15. Reading ends: whatever bytes a client sends and whichever protocol it speaks, the read
  loop comes to an end; each round uses up bytes, no more than there are, and the read buffer
  never grows.
\<close>

theorem protocols_route_returns:
  assumes "read_laws E c" "length (rbuff_of c w) < 2 ^ 64"
  shows "\<exists>v. protocols_route E c w = Some v \<and> length (rbuff_of c v) \<le> length (rbuff_of c w)"
  by (rule protocols_route_total [OF assms])

lemma protocols_route_returns_witness:
  "\<exists>v. protocols_route sample_env 5 (set_rbuff 5 ''GET / '' init_world) = Some v"
proof -
  have "length (rbuff_of 5 (set_rbuff 5 ''GET / '' init_world)) < 2 ^ 64" by simp
  from protocols_route_returns [OF read_laws_sample this] show ?thesis by blast
qed

text \<open>
  C11. Pipelining: if the read buffer of a raw or WebSocket client holds any number of complete frames and
  the front of one more, then reading routes all the events, once each and in their order, and
  keeps exactly the incomplete frame for later, with the timeout running; without one, the
  buffer is empty.
\<close>

theorem streams_routed:
  assumes "p = P_raw \<and> enc = raw_enc E \<and> good = raw_good E \<or>
      p = P_rfc6455 \<and> enc = ws_enc E pick \<and> good = ws_good E"
    and "list_all good (final # evs)" "strict_prefix t (enc final)"
    and "c_prot (w_clients w c) = Some p" "c_handshaked (w_clients w c)"
    and "rbuff_of c w = concat (map enc evs) @ t"
    and "w0 = upd_client c (\<lambda>cl. cl\<lparr>c_last_recv := w_now w\<rparr>) w"
  shows "\<exists>u v. protocols_route E c w = Some v \<and> routed E c evs w0 u \<and> rbuff_of c v = t \<and>
    v = set_rbuff c t (if t = [] \<and> evs \<noteq> [] then u else start_timeout c u)"
proof -
  have g: "\<forall>ev \<in> set evs. good ev" "good final" using assms(2) by (simp_all add: list_all_iff)
  from assms(1) show ?thesis
  proof
    assume p: "p = P_raw \<and> enc = raw_enc E \<and> good = raw_good E"
    show ?thesis
      using g assms(3-7) unfolding p [THEN conjunct1] p [THEN conjunct2, THEN conjunct1] p [THEN conjunct2, THEN conjunct2]
      by (rule raw_reader.stream_routed)
  next
    assume p: "p = P_rfc6455 \<and> enc = ws_enc E pick \<and> good = ws_good E"
    show ?thesis
      using g assms(3-7) unfolding p [THEN conjunct1] p [THEN conjunct2, THEN conjunct1] p [THEN conjunct2, THEN conjunct2]
      by (rule ws_reader.stream_routed)
  qed
qed

lemma streams_routed_witness:
  "\<exists>v. protocols_route sample_env 5
     (set_rbuff 5 (raw_enc sample_env (''/a'', 0, ''1'') @ [NUL]) handshaked_world) = Some v \<and> rbuff_of 5 v = [NUL]"
proof -
  let ?ev = "(''/a'', 0, ''1'') :: sent_event"
  have t: "event_text sample_env ?ev = ''/a:0=1''"
    by (simp add: event_text_def protocol_raw_format_def sample_env_def dec_str.simps digit_chars)
  have g: "list_all (raw_good sample_env) [?ev, ?ev]"
    using steady_law_sample [of "{}"]
    by (simp add: raw_good_def t) (simp add: uint_str_law_def safe_uadd_law_def sample_env_def)
  have p: "strict_prefix [NUL] (raw_enc sample_env ?ev)"
    by (simp add: raw_enc_def t) code_simp
  from streams_routed [OF disjI1 [OF conjI [OF refl conjI [OF refl refl]]] g p, of
      "set_rbuff 5 (raw_enc sample_env ?ev @ [NUL]) handshaked_world" 5, OF _ _ _ refl]
  show ?thesis by (auto simp: set_rbuff_def handshaked_world_def rbuff_of_def)
qed

end
