(* ===== verification/Served.thy ===== *)
theory Served
  imports Polls Read_Loop
begin

text \<open>
  The invariant of the whole server and the protocols that keep it: subscriptions and their
  references (\<open>subs_inv\<close>), the registry of events, the graph of polls, the table of surrogates.
  Every way bytes can take from a connection to a handler keeps it.
\<close>

section \<open>The invariant\<close>

definition surrogate_ok :: "env \<Rightarrow> cid set \<Rightarrow> world \<Rightarrow> cid \<Rightarrow> bool" where
  "surrogate_ok E C w s \<longleftrightarrow> is_surrogate E s \<and> live E C w s \<and> c_prot (w_clients w s) = Some P_http"

definition surrogates_ok :: "env \<Rightarrow> cid set \<Rightarrow> world \<Rightarrow> bool" where
  "surrogates_ok E C w \<longleftrightarrow>
     (\<forall>k s. w_surrogates w k = Some s \<longrightarrow> surrogate_ok E C w s) \<and>
     (\<forall>c s. \<not> is_surrogate E c \<longrightarrow> link w c = Some s \<longrightarrow> surrogate_ok E C w s)"

definition served ::
  "env \<Rightarrow> cid set \<Rightarrow> nat \<Rightarrow> (sid \<Rightarrow> nat) \<Rightarrow> cid set \<Rightarrow> cid set \<Rightarrow> world \<Rightarrow> bool" where
  "served E C N L B D w \<longleftrightarrow>
     subs_inv L w \<and> wf_trie (w_events w) \<and> limits E C N w \<and> polls_wf E B D w \<and> surrogates_ok E C w"

text \<open>
  What is asked of quick-event and of applications. A pointer quick-event hands out for a
  surrogate was not handed out before; there are too few clients and broadcasts for a counter to overflow.
\<close>

definition surrogate_new_law :: "env \<Rightarrow> cid set \<Rightarrow> bool" where
  "surrogate_new_law E C \<longleftrightarrow>
     (\<forall>tr s. surrogate_new E tr = Some s \<longrightarrow> is_surrogate E s \<and> s \<in> C \<and> E_surrogate s \<notin> set tr)"

definition roomy :: "cid set \<Rightarrow> nat \<Rightarrow> (sid \<Rightarrow> nat) \<Rightarrow> bool" where
  "roomy C N L \<longleftrightarrow> finite C \<and> (\<forall>sub. card C + N + L sub + 2 < 2 ^ 32)"

definition server_laws :: "env \<Rightarrow> cid set \<Rightarrow> nat \<Rightarrow> (sid \<Rightarrow> nat) \<Rightarrow> bool" where
  "server_laws E C N L \<longleftrightarrow>
     app_laws E \<and> items_law E \<and> civil_law E C N \<and> surrogate_new_law E C \<and> roomy C N L \<and>
     safe_uadd_law (safe_uadd E) \<and> steady_law {} E \<and> http_parse_law E"

lemma server_lawsD:
  assumes "server_laws E C N L"
  shows "app_laws E" "items_law E" "civil_law E C N" "surrogate_new_law E C" "roomy C N L"
    "\<not> is_surrogate E c \<Longrightarrow> read_laws E c"
  using assms by (auto simp: server_laws_def read_laws_def not_surrogate_def surrogate_new_law_def)

lemma servedD:
  assumes "served E C N L B D w"
  shows "subs_inv L w" "wf_trie (w_events w)" "limits E C N w" "polls_wf E B D w" "surrogates_ok E C w"
    "clients_ok w"
  using assms by (simp_all add: served_def subs_inv_def)

lemma surrogate_proper: "surrogate_ok E C w s \<Longrightarrow> proper E C w s"
  by (simp add: surrogate_ok_def proper_def)

lemma served_links:
  assumes "served E C N L B D w" "\<not> is_surrogate E c" "link w c = Some s"
  shows "surrogate_ok E C w s"
  using servedD(5) [OF assms(1)] assms(2,3) unfolding surrogates_ok_def by blast

text \<open>No reference count is near its limit.\<close>

lemma served_room:
  assumes "roomy C N L" "served E C N L B D w"
  shows "sub_room 2 w"
  unfolding sub_room_def
proof (intro allI impI)
  fix sub s assume s: "w_sub_heap w sub = Some s"
  note i = subs_invD(1) [OF servedD(1) [OF assms(2)]]
  have "c_subs (w_clients w c) \<noteq> None" if "c \<in> client_holds w sub" for c
    using that by (cases "c_subs (w_clients w c)") (simp_all add: client_holds_def client_subs_def)
  then have "client_holds w sub \<subseteq> C"
    using servedD(3) [OF assms(2)] unfolding limits_def proper_def live_def by blast
  then have "card (client_holds w sub) \<le> card C" using assms(1) by (simp add: roomy_def card_mono)
  moreover have "bcast_refs w sub \<le> N"
    using servedD(3) [OF assms(2)] length_filter_le [of "\<lambda>b. fst b = sub" "w_broadcasts w"]
    unfolding limits_def bcast_refs_def by linarith
  moreover have "unat (sub_refs s) = held w sub + L sub" using subs_wfD(2) [OF i s] by (simp add: sub_ok_def)
  moreover have "card C + N + L sub + 2 < 2 ^ 32" using assms(1) by (simp add: roomy_def)
  ultimately show "unat (sub_refs s) + 2 < 2 ^ 32" unfolding held_def by linarith
qed

section \<open>Steps that change nothing of the invariant\<close>

definition idle :: "world \<Rightarrow> world \<Rightarrow> bool" where
  "idle w v \<longleftrightarrow>
     calm w v \<and> (\<forall>c. poll_view (w_clients v c) = poll_view (w_clients w c)) \<and>
     w_surrogates v = w_surrogates w \<and> opened v = opened w"

lemma idle_refl [simp]: "idle w w"
  by (simp add: idle_def)

lemma idle_trans: "idle u v \<Longrightarrow> idle v w \<Longrightarrow> idle u w"
  by (auto simp: idle_def intro: calm_trans)

lemma idle_calm: "idle w v \<Longrightarrow> calm w v"
  by (simp add: idle_def)

lemma idle_emit: "quiet_effect e \<Longrightarrow> \<not> opens e \<Longrightarrow> idle w (emit e w)"
  by (simp add: idle_def calm_emit)

lemma idle_stat [simp]: "idle w (stat_inc s w)"
  by (simp add: idle_def)

lemma idle_upd:
  assumes "\<And>cl. poll_view (f cl) = poll_view cl" "\<And>cl. c_subs (f cl) = c_subs cl"
    "\<And>cl. c_handshaked (f cl) = c_handshaked cl" "\<And>cl. c_cbs (f cl) = c_cbs cl"
  shows "idle w (upd_client c f w)"
proof -
  have "c_prot (f cl) = c_prot cl" for cl using assms(1) [of cl] by (simp add: poll_view_def)
  then have "calm w (upd_client c f w)"
    by (intro calm_upd_client) (simp_all add: assms cbs_wf_def)
  then show ?thesis by (simp add: idle_def assms(1))
qed

lemma idle_steps:
  "idle u w \<Longrightarrow> quiet_effect e \<Longrightarrow> \<not> opens e \<Longrightarrow> idle u (emit e w)" "idle u w \<Longrightarrow> idle u (stat_inc s w)"
  "idle u w \<Longrightarrow> idle u (touch_send c w)" "idle u w \<Longrightarrow> idle u (set_rbuff c b w)" "idle u w \<Longrightarrow> idle u (qev_close c r w)"
  by (erule idle_trans, simp add: idle_emit qev_close_def touch_send_def set_rbuff_def idle_upd poll_view_def)+

lemma idle_served:
  assumes "idle w v" "served E C N L B D w"
  shows "served E C N L B D v"
proof -
  have c: "calm w v" and p: "\<And>c. poll_view (w_clients v c) = poll_view (w_clients w c)"
    and s: "w_surrogates v = w_surrogates w" "opened v = opened w"
    using assms(1) by (auto simp: idle_def)
  have f: "link v c = link w c" "c_prot (w_clients v c) = c_prot (w_clients w c)" for c
    using p [of c] by (simp_all add: poll_view_def)
  have "limits E C N v = limits E C N w"
    by (rule limits_cong) (use c subs_view_eqD(4) [of v w] in \<open>simp_all add: f s calm_subs calm_def\<close>)
  moreover have "surrogates_ok E C v = surrogates_ok E C w"
    by (simp add: surrogates_ok_def surrogate_ok_def live_def f s)
  ultimately show ?thesis
    using assms(2) calm_inv [OF c] polls_wf_cong [OF p] c by (simp add: served_def calm_def)
qed

text \<open>Answering requests.\<close>

lemma core_served:
  assumes "same_core w v" "opened v = opened w" "polls_wf E B D v" "served E C N L B' D' w"
    and "\<And>c s. \<not> is_surrogate E c \<Longrightarrow> link v c = Some s \<Longrightarrow> link w c = Some s"
  shows "served E C N L B D v"
proof -
  note c = calm_same_core [OF assms(1)] and f = same_core_poll [OF assms(1)]
  have "limits E C N v = limits E C N w"
    by (rule limits_cong) (use c subs_view_eqD(4) [of v w] in \<open>simp_all add: f assms(2) calm_subs calm_def\<close>)
  moreover have "surrogates_ok E C v"
    using servedD(5) [OF assms(4)] assms(1,5)
    unfolding surrogates_ok_def surrogate_ok_def live_def f assms(2) same_core_def by metis
  ultimately show ?thesis
    using assms(3,4) calm_inv [OF c] c by (simp add: served_def calm_def)
qed

lemma answers_served:
  assumes "same_core w v" "opened v = opened w" "answers E D X w v" "served E C N L B D w"
  shows "served E C N L B D v"
  by (rule core_served [OF assms(1,2) answers_polls [OF servedD(4) [OF assms(4)] assms(3)] assms(4)])
    (use answers_links [OF assms(3)] in \<open>metis option.distinct(1)\<close>)

lemma response_served:
  assumes "served E C N L B D w" "\<not> is_surrogate E p"
  shows "served E C N L B D (snd (send_response E (Some p) st resp w))"
  using answers_served [OF same_core_send_response opened_send_response response_answers [OF servedD(4) [OF assms(1)] assms(2)] assms(1)] .

lemma error_served:
  "served E C N L B D w \<Longrightarrow> \<not> is_surrogate E p \<Longrightarrow> served E C N L B D (snd (send_error E (Some p) st w))"
  unfolding send_error_def by (rule response_served)

text \<open>Routing an event.\<close>

lemma civil_served:
  assumes "civil E C N w v" "subs_inv L v" "served E C N L' B D w"
  shows "served E C N L B D v"
proof -
  note c = civilD [OF assms(1)] and f = civil_fields [OF assms(1)]
  have "surrogates_ok E C v"
    using servedD(5) [OF assms(3)] c(8) [OF servedD(4) [OF assms(3)]]
    unfolding surrogates_ok_def surrogate_ok_def c(2) f by (metis option.distinct(1))
  with assms(2,3) c(4-6) show ?thesis unfolding served_def by blast
qed

lemma handle_served:
  assumes "server_laws E C N L" "served E C N L B D w" "proper E C w c"
  shows "served E C N L B D (snd (protocol_raw_handle E c event w))"
    "civil E C N w (snd (protocol_raw_handle E c event w))"
proof -
  note l = server_lawsD [OF assms(1)]
  show c: "civil E C N w (snd (protocol_raw_handle E c event w))" by (rule civil_handle [OF l(3) assms(3)])
  have "ready L c w"
    using servedD(1,2) [OF assms(2)] served_room [OF l(5) assms(2)] assms(3) by (simp add: ready_def proper_def)
  from civil_served [OF c raw_handle_inv [OF l(1) this] assms(2)]
  show "served E C N L B D (snd (protocol_raw_handle E c event w))" .
qed

section \<open>The raw protocol and WebSocket\<close>

text \<open>A connection: not a surrogate, not closed.\<close>

definition conn :: "env \<Rightarrow> cid set \<Rightarrow> cid set \<Rightarrow> cid \<Rightarrow> bool" where
  "conn E C D c \<longleftrightarrow> c \<in> C \<and> \<not> is_surrogate E c \<and> c \<notin> D"

lemma conn_proper:
  "conn E C D c \<Longrightarrow> c_prot (w_clients w c) \<noteq> None \<Longrightarrow> c_prot (w_clients w c) \<noteq> Some P_http \<Longrightarrow> proper E C w c"
  by (simp add: conn_def proper_def live_def)

lemma idle_proper: "idle w v \<Longrightarrow> proper E C v c = proper E C w c"
proof -
  assume i: "idle w v"
  then have "poll_view (w_clients v c) = poll_view (w_clients w c)" by (simp add: idle_def)
  with i show ?thesis by (simp add: proper_def live_def idle_def poll_view_def)
qed

lemma raw_route_served:
  assumes "server_laws E C N L" "served E C N L B D w" "proper E C w c"
  shows "served E C N L B D (snd (snd (protocol_raw_route E c used w)))"
proof -
  have "served E C N L B D (snd (protocol_raw_handle E c ev (set_rbuff c b w)))" for ev b
    using handle_served(1) [OF assms(1) idle_served [OF idle_steps(4) [OF idle_refl] assms(2)]]
      idle_proper [OF idle_steps(4) [OF idle_refl]] assms(3) by blast
  with assms(2) show ?thesis by (auto simp: protocol_raw_route_def Let_def case_prod_beta split: option.split)
qed

lemma idle_ws_decode:
  assumes "ws_decode E c used w = (st, len, n, v)"
  shows "idle w v"
proof -
  have "idle w (snd (snd (snd (ws_payload E c used h l key w))))" for h l key
    by (auto simp: ws_payload_def Let_def split: option.split intro!: idle_steps)
  then have "idle w (snd (snd (snd (ws_decode E c used w))))"
    by (auto simp: ws_decode_def Let_def split: option.split intro!: idle_steps)
  with assms show ?thesis by simp
qed

lemma ws_route_served:
  assumes "server_laws E C N L" "served E C N L B D w" "proper E C w c"
  shows "served E C N L B D (snd (snd (protocol_rfc6455_route E c used w)))"
proof -
  obtain st len n v where d: "ws_decode E c used w = (st, len, n, v)" by (metis prod_cases4)
  note i = idle_ws_decode [OF d]
  have "served E C N L B D (snd (protocol_raw_handle E c ev (set_rbuff c b v)))" for ev b
    using handle_served(1) [OF assms(1) idle_served [OF idle_steps(4) [OF i] assms(2)]]
      idle_proper [OF idle_steps(4) [OF i]] assms(3) by blast
  with idle_served [OF i assms(2)] show ?thesis
    by (auto simp: protocol_rfc6455_route_def d Let_def case_prod_beta)
qed

lemma heartbeat_served:
  assumes "server_laws E C N L" "served E C N L B D w" "proper E C w c"
  shows "served E C N L B D (protocol_raw_do_heartbeat E c hb frame w)"
proof (rule civil_served [OF _ _ assms(2)])
  note l = server_lawsD [OF assms(1)]
  show "civil E C N w (protocol_raw_do_heartbeat E c hb frame w)"
    using civil_frame.heartbeat_framed [of E C N w c] l(3) assms(3) by blast
  have "calm w (protocol_raw_do_heartbeat E c hb frame w)"
    using calm_bruteforce [OF app_lawsD(1) [OF l(1)] servedD(6) [OF assms(2)]]
    by (auto simp: protocol_raw_do_heartbeat_def Let_def idle_calm idle_steps)
  then show "subs_inv L (protocol_raw_do_heartbeat E c hb frame w)" by (rule calm_inv [OF _ servedD(1) [OF assms(2)]])
qed

end
