(* ===== verification/Served_Http.thy ===== *)
theory Served_Http
  imports Served
begin

text \<open>
  Requests keep the invariant of the server: opening surrogates, handling the messages of a body,
  replacing and answering polls. In particular the assertion of \<open>_surr_send\<close> holds.
\<close>

section \<open>Links of surrogates\<close>

lemma same_core_link: "same_core w (upd_client s (\<lambda>cl. cl\<lparr>c_http_client := x\<rparr>) w)"
  by (rule same_core_upd) (simp_all add: quiet_def)

lemma drop_answers: "is_surrogate E s \<Longrightarrow> answers E D {} w (upd_client s (\<lambda>cl. cl\<lparr>c_http_client := None\<rparr>) w)"
  by (simp add: answers_def)

lemma drop_served:
  "served E C N L B D w \<Longrightarrow> is_surrogate E s \<Longrightarrow> served E C N L B D (upd_client s (\<lambda>cl. cl\<lparr>c_http_client := None\<rparr>) w)"
  by (rule answers_served [OF same_core_link _ drop_answers]) simp_all

lemma attach_served:
  assumes "served E C N L B D w" "is_surrogate E s" "\<not> is_surrogate E c" "link w c = Some s" "c \<in> B"
  shows "served E C N L B D (upd_client s (\<lambda>cl. cl\<lparr>c_http_client := Some c\<rparr>) w)"
proof (rule core_served [OF same_core_link _ _ assms(1)])
  let ?v = "upd_client s (\<lambda>cl. cl\<lparr>c_http_client := Some c\<rparr>) w"
  note g = polls_wfD [OF servedD(4) [OF assms(1)]]
  have l: "link ?v d = (if d = s then Some c else link w d)" for d by simp
  have r: "c_http_body_len (w_clients ?v d) = c_http_body_len (w_clients w d)" "c_prot (w_clients ?v d) = c_prot (w_clients w d)"
    "c_in_request (w_clients ?v d) = c_in_request (w_clients w d)" for d by simp_all
  have sc: "c \<noteq> s" using assms(2,3) by blast
  have "\<not> is_surrogate E p \<and> (p \<in> D \<or> link ?v p = Some d \<and> (p \<in> B \<or> c_http_body_len (w_clients ?v p) = 0))"
    if "is_surrogate E d" "link ?v d = Some p" for d p
  proof (cases "d = s")
    case True
    then show ?thesis using that assms(3-5) sc by (simp add: l)
  next
    case False
    then have p: "link w d = Some p" using that(2) by (simp add: l)
    have "p \<noteq> s" using g(1) [OF that(1) p] assms(2) by blast
    with g(1-3) [OF that(1) p] show ?thesis unfolding l r by auto
  qed
  moreover have "is_surrogate E t \<and> d \<notin> D \<and> c_in_request (w_clients ?v d) \<and> c_prot (w_clients ?v d) = Some P_http"
    if "\<not> is_surrogate E d" "link ?v d = Some t" for d t
    using that g(4-7) [OF that(1), of t] assms(2) unfolding l r by (auto split: if_splits)
  ultimately show "polls_wf E B D ?v" unfolding polls_wf_def by blast
  show "link w d = Some t" if "\<not> is_surrogate E d" "link ?v d = Some t" for d t
    using that assms(2) unfolding l by (auto split: if_splits)
qed simp

lemma effect_served:
  "served E C N L B D w \<Longrightarrow> quiet_effect e \<Longrightarrow> \<not> opens e \<Longrightarrow> served E C N L B D (emit e w)"
  by (rule idle_served [OF idle_emit])

lemma surr_replace_served:
  assumes "served E C N L B D w" "is_surrogate E s" "\<not> is_surrogate E c" "link w c = Some s" "c \<in> B"
  shows "served E C N L B D (surr_replace E s c w)"
proof -
  let ?w1 = "upd_client s (\<lambda>cl. cl\<lparr>c_http_client := None\<rparr>) w"
  let ?w2 = "upd_client s (\<lambda>cl. cl\<lparr>c_http_client := Some c\<rparr>) (emit (E_ref c) ?w1)"
  have sc: "c \<noteq> s" using assms(2,3) by blast
  have w1: "served E C N L B D ?w1" by (rule drop_served [OF assms(1,2)])
  have w2: "served E C N L B D ?w2"
    by (rule attach_served [OF effect_served [OF w1] assms(2,3) _ assms(5)]) (use sc assms(4) in simp_all)
  have e: "served E C N L B D (emit (E_unref q) (snd (send_error E (Some p) st v)))"
    if "served E C N L B D v" "\<not> is_surrogate E p" for v p q st
    by (rule effect_served [OF error_served [OF that]]) simp_all
  have p: "\<not> is_surrogate E p" if "link w s = Some p" for p
    by (rule polls_wfD(1) [OF servedD(4) [OF assms(1)] assms(2) that])
  show ?thesis
    using w1 w2 error_served [OF w1 assms(3)] p
    by (auto simp: surr_replace_def Let_def split: option.split intro!: e)
qed

lemma surr_send_served:
  assumes "served E C N L B D w" "is_surrogate E s" "sheltered E s c w" "c \<in> B"
  shows "served E C N L B D (surr_send E s c m w)"
proof -
  let ?w1 = "upd_client s (\<lambda>cl. cl\<lparr>c_http_client := None\<rparr>) w"
  let ?resp = "build_response E STATUS_200 (Some m)"
  have c: "\<not> is_surrogate E c" using assms(3) by (simp add: sheltered_def)
  have w1: "served E C N L B D ?w1" by (rule drop_served [OF assms(1,2)])
  have s1: "sheltered E s c ?w1" by (rule answers_sheltered [OF drop_answers [OF assms(2)] assms(3)]) simp
  text \<open>The response to the new poll is sent: its request is still open.\<close>
  have last: "served E C N L B D (if fst r then snd r else fault (snd r))"
    if "served E C N L B D v" "sheltered E s c v" "r = send_response E (Some c) STATUS_200 ?resp v" for v r
  proof -
    have "c_in_request (w_clients v c)"
      by (rule polls_wfD(6) [OF servedD(4) [OF that(1)] c]) (use that(2) in \<open>simp add: sheltered_def\<close>)
    then show ?thesis using response_served [OF that(1) c] that(3) by (simp add: send_response_request)
  qed
  show ?thesis
  proof (cases "link w s")
    case None
    with last [OF w1 s1 refl] show ?thesis by (simp add: surr_send_def steal_client_def Let_def case_prod_beta)
  next
    case (Some p)
    have p: "\<not> is_surrogate E p" by (rule polls_wfD(1) [OF servedD(4) [OF assms(1)] assms(2) Some])
    have pc: "p \<noteq> c" using assms(2,3) Some by (auto simp: sheltered_def unpolled_def)
    let ?a = "snd (send_response E (Some p) STATUS_200 ?resp ?w1)"
    let ?w2 = "emit (E_unref (Some p)) ?a"
    have w2: "served E C N L B D ?w2" by (rule effect_served [OF response_served [OF w1 p]]) simp_all
    have "sheltered E s c ?a"
      by (rule answers_sheltered [OF response_answers [OF servedD(4) [OF w1] p] s1]) (use pc in simp)
    then have s2: "sheltered E s c ?w2" by (simp add: sheltered_def unpolled_def)
    then have "link ?w2 c = Some s" by (simp add: sheltered_def)
    from surr_replace_served [OF w2 assms(2) c this assms(4)] last [OF w2 s2 refl] Some show ?thesis
      by (simp add: surr_send_def steal_client_def Let_def case_prod_beta)
  qed
qed

section \<open>The body of a request\<close>

lemma surr_messages_served:
  assumes "server_laws E C N L"
  shows "served E C N L B D w \<Longrightarrow> surrogate_ok E C w s \<Longrightarrow> sheltered E s c w \<Longrightarrow>
    surr_messages E s msgs w = (ok, v) \<Longrightarrow>
    served E C N L B D v \<and> surrogate_ok E C v s \<and> sheltered E s c v"
proof (induction msgs arbitrary: w)
  case (Cons m ms)
  obtain st u where h: "protocol_raw_handle E s m w = (st, u)" by (cases "protocol_raw_handle E s m w")
  from handle_served [OF assms Cons.prems(1) surrogate_proper [OF Cons.prems(2)], of m]
  have u: "served E C N L B D u" "civil E C N w u" by (simp_all add: h)
  have "surrogate_ok E C u s" using Cons.prems(2) civil_fields(1,6) [OF u(2)] by (simp add: surrogate_ok_def)
  moreover have "sheltered E s c u" by (rule civilD(7) [OF u(2) servedD(4) [OF Cons.prems(1)] Cons.prems(3)])
  ultimately show ?case using Cons.IH [OF u(1)] Cons.prems(4) u(1) by (auto simp: h split: if_splits)
qed simp

lemma sheltered_cong_idle: "idle w v \<Longrightarrow> sheltered E s c v = sheltered E s c w"
  by (rule sheltered_cong) (simp add: idle_def)

lemma idle_incoming: "idle w (upd_client s (\<lambda>cl. cl\<lparr>c_incoming := b\<rparr>) w)"
  by (rule idle_upd) (simp_all add: poll_view_def)

lemma surr_route_served:
  assumes "server_laws E C N L" "served E C N L B D w" "sheltered E s c w" "c \<in> B"
  shows "served E C N L B D (surr_route E s c body w)"
proof -
  have c: "\<not> is_surrogate E c" "link w c = Some s" using assms(3) by (simp_all add: sheltered_def)
  have sk: "surrogate_ok E C w s" by (rule served_links [OF assms(2) c])
  let ?w1 = "upd_client s (\<lambda>cl. cl\<lparr>c_incoming := True\<rparr>) w"
  obtain ok u where m: "surr_messages E s (strtok_all (CHR 0x0A) body) ?w1 = (ok, u)"
    by (cases "surr_messages E s (strtok_all (CHR 0x0A) body) ?w1")
  have w1: "served E C N L B D ?w1" "sheltered E s c ?w1" "surrogate_ok E C ?w1 s"
    using idle_served [OF idle_incoming assms(2)] sheltered_cong_idle [OF idle_incoming] assms(3) sk
    by (auto simp: surrogate_ok_def live_def)
  from surr_messages_served [OF assms(1) w1(1,3,2) m]
  have u: "served E C N L B D u" "surrogate_ok E C u s" "sheltered E s c u" by blast+
  let ?w4 = "emit (E_flush s) (upd_client s (\<lambda>cl. cl\<lparr>c_incoming := False\<rparr>) u)"
  have i: "idle u ?w4" by (rule idle_steps(1) [OF idle_incoming]) simp_all
  have w4: "served E C N L B D ?w4" "sheltered E s c ?w4" using idle_served [OF i u(1)] sheltered_cong_idle [OF i] u(3) by blast+
  have s: "is_surrogate E s" using sk by (simp add: surrogate_ok_def)
  have l: "link ?w4 c = Some s" using w4(2) by (simp add: sheltered_def)
  have "served E C N L B D (stat_inc x v)" if "served E C N L B D v" for x v
    by (rule idle_served [OF idle_stat that])
  with error_served [OF u(1) c(1)] surr_replace_served [OF w4(1) s c(1) l assms(4)]
    surr_send_served [OF w4(1) s w4(2) assms(4)] show ?thesis
    by (auto simp: surr_route_def m Let_def split: option.split)
qed

lemma do_body_served:
  assumes "server_laws E C N L" "served E C N L B D w" "\<not> is_surrogate E c" "unpolled E c w" "c \<in> B"
  shows "served E C N L B D (do_body E c body w)"
proof -
  have st: "served E C N L B D (stat_inc x v)" if "served E C N L B D v" for x v
    by (rule idle_served [OF idle_stat that])
  have "served E C N L B D (surr_route E s c body w)" if "link w c = Some s" for s
    by (rule surr_route_served [OF assms(1,2) _ assms(5)]) (use that assms(3,4) in \<open>simp add: sheltered_def\<close>)
  then show ?thesis
    using error_served [OF assms(2,3)] response_served [OF assms(2,3)]
    by (auto simp: do_body_def split: option.split intro!: st)
qed

section \<open>Opening a surrogate\<close>

lemma subs_inv_upd:
  assumes "subs_inv L w" "w_clients v = (w_clients w)(c := cl)" "c_subs cl = c_subs (w_clients w c)"
    and "cbs_wf cl" "prot_ok cl" "c_subs cl \<noteq> None \<Longrightarrow> c_prot cl \<noteq> None"
    and "w_sub_heap v = w_sub_heap w" "w_ev_subs v = w_ev_subs w" "w_broadcasts v = w_broadcasts w"
      "w_next_sid v = w_next_sid w" "w_fault v = w_fault w" "listed (w_trace v) = listed (w_trace w)"
  shows "subs_inv L v"
proof -
  have s: "(\<lambda>d. c_subs (w_clients v d)) = (\<lambda>d. c_subs (w_clients w d))" by (auto simp: assms(2,3))
  have sv: "subs_view v = subs_view w" by (simp add: subs_view_def s assms(7-11))
  moreover have "lists_ok v = lists_ok w" by (simp add: lists_ok_def assms(12) subs_view_csub_get [OF sv])
  moreover have "clients_ok v"
    using subs_invD(2) [OF assms(1)] assms(3-6) by (auto simp: clients_ok_def assms(2))
  ultimately show ?thesis using assms(1) subs_view_wf [OF sv] by (simp add: subs_inv_def)
qed

lemma new_surrogate_served:
  assumes "served E C N L B D w" "is_surrogate E s" "s \<in> C" "s \<notin> opened w"
    and v: "w_clients v = (w_clients w)(s := cl)" "w_surrogates v = (w_surrogates w)(k \<mapsto> s)" "opened v = insert s (opened w)"
      "w_events v = w_events w" "w_broadcasts v = w_broadcasts w"
      "w_sub_heap v = w_sub_heap w" "w_ev_subs v = w_ev_subs w" "w_next_sid v = w_next_sid w" "w_fault v = w_fault w"
      "listed (w_trace v) = listed (w_trace w)"
    and cl: "c_subs cl = None" "c_http_client cl = None" "c_prot cl = Some P_http" "cbs_wf cl"
  shows "served E C N L B D v" "surrogate_ok E C v s"
proof -
  have "\<not> proper E C w s" using assms(2,4) by (simp add: proper_def live_def)
  then have n: "c_subs (w_clients w s) = None" using servedD(3) [OF assms(1)] unfolding limits_def by blast
  have "subs_inv L v"
    by (rule subs_inv_upd [OF servedD(1) [OF assms(1)] v(1)])
      (simp_all add: n v cl prot_ok_def)
  moreover have "limits E C N v"
    using servedD(3) [OF assms(1)] by (auto simp: limits_def proper_def live_def v cl)
  moreover have "polls_wf E B D v"
  proof -
    note g = polls_wfD [OF servedD(4) [OF assms(1)]]
    have l: "link v d = (if d = s then None else link w d)" for d by (simp add: v(1) cl(2))
    have o: "w_clients v d = w_clients w d" if "\<not> is_surrogate E d" for d using that assms(2) by (auto simp: v(1))
    have "\<not> is_surrogate E p \<and> (p \<in> D \<or> link v p = Some d \<and> (p \<in> B \<or> c_http_body_len (w_clients v p) = 0))"
      if d: "is_surrogate E d" "link v d = Some p" for d p
    proof -
      have p: "link w d = Some p" using d(2) by (simp add: l split: if_splits)
      have np: "\<not> is_surrogate E p" by (rule g(1) [OF d(1) p])
      show ?thesis unfolding o [OF np] using np g(2,3) [OF d(1) p] by blast
    qed
    moreover have "is_surrogate E t \<and> d \<notin> D \<and> c_in_request (w_clients v d) \<and> c_prot (w_clients v d) = Some P_http"
      if d: "\<not> is_surrogate E d" "link v d = Some t" for d t
      using g(4-7) [OF d(1) d(2) [unfolded o [OF d(1)]]] unfolding o [OF d(1)] by blast
    ultimately show ?thesis unfolding polls_wf_def by blast
  qed
  moreover have ok: "surrogate_ok E C v t" if "t = s \<or> surrogate_ok E C w t" for t
    using that assms(2,3) cl(3) by (auto simp: surrogate_ok_def live_def v(1,3))
  then have "surrogates_ok E C v"
    using servedD(5) [OF assms(1)] assms(2) unfolding surrogates_ok_def v(1,2) fun_upd_apply
    by (metis option.inject)
  ultimately show "served E C N L B D v" using servedD(2) [OF assms(1)] by (simp add: served_def v(4))
  show "surrogate_ok E C v s" by (rule ok) simp
qed

lemma surr_find_served:
  assumes "surrogate_new_law E C" "served E C N L B D w" "surr_find E sid oc w = (r, v)"
  shows "served E C N L B D v \<and> (\<forall>s. r = Some s \<longrightarrow> surrogate_ok E C v s) \<and>
    (\<forall>d. \<not> is_surrogate E d \<longrightarrow> w_clients v d = w_clients w d) \<and> (\<forall>d. unpolled E d w \<longrightarrow> unpolled E d v)"
proof -
  let ?k = "(unat sid mod n_clients, sid)"
  show ?thesis
  proof (cases "w_surrogates w ?k = None \<and> oc \<and> surrogate_new E (w_trace w) \<noteq> None")
    case False
    have "surrogate_ok E C w s" if "w_surrogates w ?k = Some s" for s
      using servedD(5) [OF assms(2)] that unfolding surrogates_ok_def by blast
    with False assms(2,3) show ?thesis
      by (auto simp: surr_find_def Let_def protocols_new_surrogate_def split: option.splits if_splits)
  next
    case True
    then obtain s where s: "surrogate_new E (w_trace w) = Some s" by auto
    then have law: "is_surrogate E s" "s \<in> C" "s \<notin> opened w"
      using assms(1) by (auto simp: surrogate_new_law_def opened_def)
    let ?cl = "qev_client_new\<lparr>c_prot := Some P_http, c_last_send := w_now w, c_handshaked := True, c_timeout := False,
      c_http_sid := sid, c_http_tbl := unat sid mod n_clients\<rparr>"
    have v: "w_clients v = (w_clients w)(s := ?cl)" "w_surrogates v = (w_surrogates w)(?k \<mapsto> s)" "r = Some s"
      "w_events v = w_events w" "w_broadcasts v = w_broadcasts w" "w_sub_heap v = w_sub_heap w"
      "w_ev_subs v = w_ev_subs w" "w_next_sid v = w_next_sid w" "w_fault v = w_fault w"
      "w_trace v = w_trace w @ [E_surrogate s, E_timeout_clear s]"
      using assms(3) True s
      by (auto simp: surr_find_def protocols_new_surrogate_def set_handshaked_def Let_def qev_client_new_def)
    have o: "opened v = insert s (opened w)" "listed (w_trace v) = listed (w_trace w)"
      using listed_snoc [of "w_trace w @ [E_surrogate s]" "E_timeout_clear s"] listed_snoc [of "w_trace w" "E_surrogate s"]
      by (auto simp: opened_def v(10) list_step_def fun_eq_iff)
    have cl: "c_subs ?cl = None" "c_http_client ?cl = None" "c_prot ?cl = Some P_http" "cbs_wf ?cl"
      by (simp_all add: qev_client_new_def cbs_wf_def)
    from new_surrogate_served [OF assms(2) law v(1,2) o(1) v(4-9) o(2) cl] show ?thesis
      using law cl(2) by (auto simp: v(1,3) unpolled_def)
  qed
qed

lemma get_surrogate_served:
  assumes "surrogate_new_law E C" "served E C N L B D w" "get_surrogate E url w = (r, v)"
  shows "served E C N L B D v \<and> (\<forall>s. r = Some s \<longrightarrow> surrogate_ok E C v s) \<and>
    (\<forall>d. \<not> is_surrogate E d \<longrightarrow> w_clients v d = w_clients w d) \<and> (\<forall>d. unpolled E d w \<longrightarrow> unpolled E d v)"
  using assms(3) assms(2) surr_find_served [OF assms(1,2)]
  by (auto simp: get_surrogate_def split: option.splits prod.splits if_splits)

section \<open>Requests\<close>

text \<open>A change of the connection whose request is read.\<close>

lemma conn_upd_served:
  assumes "served E C N L B D w" "\<not> is_surrogate E c" "B \<subseteq> insert c B'"
    and cl: "cl = f (w_clients w c)" "c_subs cl = c_subs (w_clients w c)" "c_cbs cl = c_cbs (w_clients w c)" "prot_ok cl"
      "c_subs cl = None \<or> c_prot cl = c_prot (w_clients w c)"
    and here: "unpolled E c w \<or> c_http_client cl = link w c \<and>
      (c \<in> B' \<or> c_http_body_len cl = 0 \<or> c \<notin> B \<and> c_http_body_len cl = c_http_body_len (w_clients w c))"
    and there: "\<And>s. c_http_client cl = Some s \<Longrightarrow>
      surrogate_ok E C w s \<and> c \<notin> D \<and> c_in_request cl \<and> c_prot cl = Some P_http"
  shows "served E C N L B' D (upd_client c f w)"
proof -
  let ?v = "upd_client c f w"
  note g = polls_wfD [OF servedD(4) [OF assms(1)]]
  have v: "w_clients ?v = (w_clients w)(c := cl)" by (simp add: cl(1))
  have cw: "cbs_wf cl" using clients_okD(2) [OF servedD(6) [OF assms(1)], of c] cl(3) by (simp add: cbs_wf_def)
  have pn: "c_subs cl \<noteq> None \<Longrightarrow> c_prot cl \<noteq> None"
    using clients_okD(4) [OF servedD(6) [OF assms(1)], of c] cl(2,5) by auto
  have "subs_inv L ?v"
    by (rule subs_inv_upd [OF servedD(1) [OF assms(1)] v cl(2) cw cl(4) pn]) simp_all
  moreover have "limits E C N ?v"
    using servedD(3) [OF assms(1)] cl(2,5) unfolding limits_def proper_def live_def v
    by (auto simp: opened_def)
  moreover have "polls_wf E B' D ?v"
  proof -
    have "\<not> is_surrogate E p \<and> (p \<in> D \<or> link ?v p = Some d \<and> (p \<in> B' \<or> c_http_body_len (w_clients ?v p) = 0))"
      if d: "is_surrogate E d" "link ?v d = Some p" for d p
    proof -
      have "d \<noteq> c" using d(1) assms(2) by blast
      then have p: "link w d = Some p" using d(2) by (simp add: v)
      have np: "\<not> is_surrogate E p" by (rule g(1) [OF d(1) p])
      show ?thesis
      proof (cases "p = c")
        case True
        then have "\<not> unpolled E c w" using d(1) p by (auto simp: unpolled_def)
        with here True np g(2,3) [OF d(1) p] show ?thesis unfolding v by auto
      next
        case False
        with np g(2,3) [OF d(1) p] assms(3) show ?thesis unfolding v by auto
      qed
    qed
    moreover have "is_surrogate E t \<and> d \<notin> D \<and> c_in_request (w_clients ?v d) \<and> c_prot (w_clients ?v d) = Some P_http"
      if d: "\<not> is_surrogate E d" "link ?v d = Some t" for d t
      using d g(4-7) [OF d(1), of t] there [of t] unfolding v surrogate_ok_def by (cases "d = c") auto
    ultimately show ?thesis unfolding polls_wf_def by blast
  qed
  moreover have "surrogates_ok E C ?v"
  proof -
    have ok: "surrogate_ok E C ?v s = surrogate_ok E C w s" for s
      using assms(2) by (cases "s = c") (simp_all add: surrogate_ok_def live_def)
    have "surrogate_ok E C w s" if "\<not> is_surrogate E d" "link ?v d = Some s" for d s
      using that there [of s] served_links [OF assms(1) that(1), of s] unfolding v by (cases "d = c") auto
    with servedD(5) [OF assms(1)] show ?thesis unfolding surrogates_ok_def ok by simp
  qed
  ultimately show ?thesis using servedD(2) [OF assms(1)] by (simp add: served_def)
qed

lemma unpolled_unlinked:
  assumes "served E C N L B D w" "conn E C D c" "link w c = None"
  shows "unpolled E c w"
  unfolding unpolled_def
proof (intro allI impI notI)
  fix d assume d: "is_surrogate E d" "link w d = Some c"
  from polls_wfD(2) [OF servedD(4) [OF assms(1)] d] assms(2,3) show False by (simp add: conn_def)
qed

lemma unpolled_body:
  assumes "served E C N L {} D w" "conn E C D c" "c_http_body_len (w_clients w c) \<noteq> 0"
  shows "unpolled E c w"
  unfolding unpolled_def
proof (intro allI impI notI)
  fix d assume d: "is_surrogate E d" "link w d = Some c"
  from polls_wfD(3) [OF servedD(4) [OF assms(1)] d] assms(2,3) show False by (simp add: conn_def)
qed

lemma http_unsubscribed:
  assumes "served E C N L B D w" "\<not> is_surrogate E c" "c_prot (w_clients w c) = Some P_http"
  shows "c_subs (w_clients w c) = None"
proof -
  have "\<not> proper E C w c" using assms(2,3) by (simp add: proper_def)
  with servedD(3) [OF assms(1)] show ?thesis unfolding limits_def by blast
qed

text \<open>A connection that speaks HTTP and whose request nobody can answer meanwhile.\<close>

definition reading :: "env \<Rightarrow> cid set \<Rightarrow> cid set \<Rightarrow> cid \<Rightarrow> world \<Rightarrow> bool" where
  "reading E C D c w \<longleftrightarrow>
     conn E C D c \<and> c_prot (w_clients w c) = Some P_http \<and> c_in_request (w_clients w c) \<and> link w c = None"

lemma do_headers_http_served:
  assumes "surrogate_new_law E C" "served E C N L {} D w" "reading E C D c w"
    and "do_headers_http E c h w = (st, v)"
  shows "served E C N L {} D v \<and> unpolled E c v"
proof -
  have c: "conn E C D c" "c_prot (w_clients w c) = Some P_http" "c_in_request (w_clients w c)" "link w c = None"
    and nc: "\<not> is_surrogate E c" "c \<notin> D" using assms(3) by (simp_all add: reading_def conn_def)
  have un: "unpolled E c w" by (rule unpolled_unlinked [OF assms(2) c(1,4)])
  obtain r w1 where g: "get_surrogate E (hr_url h) w = (r, w1)" by (cases "get_surrogate E (hr_url h) w")
  note s = get_surrogate_served [OF assms(1,2) g]
  have w1: "served E C N L {} D w1" "w_clients w1 c = w_clients w c" "unpolled E c w1"
    "\<And>s. r = Some s \<Longrightarrow> surrogate_ok E C w1 s" using s nc un by blast+
  let ?f = "\<lambda>n cl. cl\<lparr>c_http_body_len := n, c_is_post := hr_method h = ''POST'',
      c_iframe_requested := prefix ''/iframe'' (hr_url h)\<rparr>"
  have pk: "prot_ok (w_clients u c)" if "served E C N L {} D u" for u
    using clients_okD(1) [OF servedD(6) [OF that]] .
  have up: "unpolled E c (upd_client c f u) = unpolled E c u" for f u using nc by (auto simp: unpolled_def)
  have plain: "served E C N L {} D (upd_client c (?f n) u) \<and> unpolled E c (upd_client c (?f n) u)"
    if "served E C N L {} D u" "unpolled E c u" "w_clients u c = w_clients w c \<or> link u c \<noteq> None" for n u
    unfolding up using that(2)
    by (intro conjI conn_upd_served [OF that(1) nc(1) _ refl])
      (use pk [OF that(1)] that(3) c polls_wfD(4-7) [OF servedD(4) [OF that(1)] nc(1)] served_links [OF that(1) nc(1)] in
        \<open>auto simp: prot_ok_def\<close>)
  have linked: "served E C N L {} D (upd_client c (\<lambda>cl. cl\<lparr>c_http_client := Some t\<rparr>) (emit (E_ref t) w1)) \<and>
      unpolled E c (upd_client c (\<lambda>cl. cl\<lparr>c_http_client := Some t\<rparr>) (emit (E_ref t) w1))" if "r = Some t" for t
  proof -
    have u: "served E C N L {} D (emit (E_ref t) w1)" by (rule effect_served [OF w1(1)]) simp_all
    have k: "surrogate_ok E C (emit (E_ref t) w1) t" using w1(4) [OF that] by (simp add: surrogate_ok_def live_def)
    have e: "unpolled E c (emit (E_ref t) w1)" using w1(3) by (simp add: unpolled_def)
    show ?thesis unfolding up
      by (intro conjI conn_upd_served [OF u nc(1) _ refl]) (use e k c nc pk [OF w1(1)] w1(2) in \<open>auto simp: prot_ok_def\<close>)
  qed
  have cl: "served E C N L {} D (qev_close c x w) \<and> unpolled E c (qev_close c x w)" for x
    using idle_served [OF idle_steps(5) [OF idle_refl] assms(2)] un by (auto simp: unpolled_def qev_close_def)
  show ?thesis
    using assms(4) cl linked w1 assms(2) un plain
    by (auto simp: do_headers_http_def g Let_def split: option.splits sum.splits if_splits)
qed

lemma upgrade_served:
  assumes "served E C N L {} D w" "reading E C D c w"
  shows "served E C N L {} D (protocol_rfc6455_upgrade E c key w)"
proof -
  have c: "conn E C D c" "c_prot (w_clients w c) = Some P_http" "link w c = None"
    and nc: "\<not> is_surrogate E c" using assms(2) by (simp_all add: reading_def conn_def)
  note n = http_unsubscribed [OF assms(1) nc c(2)]
  have "served E C N L {} D (upd_client c (\<lambda>cl. cl\<lparr>c_prot := Some P_rfc6455, c_handshaked := False\<rparr>) (emit (E_write c x) w))" for x
  proof -
    have "unpolled E c (emit (E_write c x) w)"
      using unpolled_unlinked [OF assms(1) c(1,3)] by (simp add: unpolled_def)
    then show ?thesis
      by (intro conn_upd_served [OF effect_served [OF assms(1)] nc _ refl]) (use c n in \<open>auto simp: prot_ok_def\<close>)
  qed
  then show ?thesis
    unfolding protocol_rfc6455_upgrade_def protocols_switch_def Let_def by (rule idle_served [OF idle_stat])
qed

lemma do_headers_websocket_served:
  assumes "served E C N L {} D w" "reading E C D c w" "do_headers_websocket E c h cn key w = (st, v)"
  shows "served E C N L {} D v \<and> unpolled E c v"
proof -
  have c: "conn E C D c" "link w c = None" and nc: "\<not> is_surrogate E c"
    using assms(2) by (simp_all add: reading_def conn_def)
  have un: "unpolled E c w" by (rule unpolled_unlinked [OF assms(1) c])
  have e: "served E C N L {} D (snd (send_error E (Some c) x (stat_inc y w)))" for x y
    by (rule error_served [OF idle_served [OF idle_stat assms(1)] nc])
  have "unpolled E c (snd (send_error E (Some c) x (stat_inc y w)))" for x y
    by (rule unpolled_unlinked [OF e c(1)]) (simp add: send_error_facts)
  moreover have "unpolled E c (protocol_rfc6455_upgrade E c k w)" for k
    using un nc by (auto simp: unpolled_def protocol_rfc6455_upgrade_def protocols_switch_def Let_def)
  ultimately show ?thesis
    using assms(3) e upgrade_served [OF assms(1,2)]
    by (auto simp: do_headers_websocket_def Let_def split: option.splits if_splits)
qed

lemma served_grow: "served E C N L {} D w \<Longrightarrow> served E C N L B D w"
  unfolding served_def polls_wf_def by blast

lemma http_route_body_served:
  assumes "server_laws E C N L" "served E C N L {} D w" "conn E C D c"
    and "status = PROT_OK \<Longrightarrow> unpolled E c w"
  shows "served E C N L {} D (snd (snd (http_route_body E c status used w)))"
proof -
  have nc: "\<not> is_surrogate E c" using assms(3) by (simp add: conn_def)
  have "served E C N L {} D (upd_client c (\<lambda>cl. cl\<lparr>c_http_body_len := 0\<rparr>) (do_body E c start w))"
    if "unpolled E c w" for start
  proof -
    have b: "served E C N L {c} D (do_body E c start w)"
      by (rule do_body_served [OF assms(1) served_grow [OF assms(2)] nc that]) simp
    show ?thesis
      by (rule conn_upd_served [OF b nc _ refl])
        (use clients_okD(1) [OF servedD(6) [OF b], of c] polls_wfD(4-7) [OF servedD(4) [OF b] nc] served_links [OF b nc]
          in \<open>auto simp: prot_ok_def\<close>)
  qed
  with assms(2,4) show ?thesis by (auto simp: http_route_body_def Let_def split: option.split)
qed

lemma http_route_served:
  assumes "server_laws E C N L" "served E C N L {} D w" "conn E C D c" "c_prot (w_clients w c) = Some P_http"
  shows "served E C N L {} D (snd (snd (protocol_http_route E c used w)))"
proof -
  note l = server_lawsD [OF assms(1)]
  have nc: "\<not> is_surrogate E c" "c \<notin> D" using assms(3) by (simp_all add: conn_def)
  let ?w0 = "touch_send c w" let ?w1 = "snd (send_error E (Some c) STATUS_200 ?w0)"
  have w0: "served E C N L {} D ?w0" by (rule idle_served [OF idle_steps(3) [OF idle_refl] assms(2)])
  have w1: "served E C N L {} D ?w1" by (rule error_served [OF w0 nc(1)])
  have l1: "link ?w1 c = None" by (simp add: send_error_facts)
  have p1: "c_prot (w_clients ?w1 c) = Some P_http"
    using same_core_poll(1) [OF same_core_send_error [of ?w0 E "Some c" STATUS_200], of c] assms(4) by (simp add: touch_send_def)
  let ?w2 = "\<lambda>k. upd_client c (\<lambda>cl. cl\<lparr>c_in_request := True, c_keep_alive := k\<rparr>) ?w1"
  have w2: "served E C N L {} D (?w2 k) \<and> reading E C D c (?w2 k)" for k
    using l1 p1 assms(3) clients_okD(1) [OF servedD(6) [OF w1], of c]
    by (auto intro!: conn_upd_served [OF w1 nc(1) _ refl] unpolled_unlinked [OF w1] simp: reading_def prot_ok_def)
  have body: "served E C N L {} D (snd (snd (http_route_body E c st u v)))"
    if "served E C N L {} D v" "st = PROT_OK \<Longrightarrow> unpolled E c v" for st u v
    using http_route_body_served [OF assms(1) that(1) assms(3)] that(2) by blast
  have cl: "served E C N L {} D (qev_close c x v)" if "served E C N L {} D v" for x v
    by (rule idle_served [OF idle_steps(5) [OF idle_refl] that])
  show ?thesis
  proof (cases "c_http_body_len (w_clients ?w0 c) = 0")
    case False
    from body [OF w0 unpolled_body [OF w0 assms(3) False]] False show ?thesis by (simp add: protocol_http_route_def Let_def)
  next
    case True
    let ?h = "http_parse E (cstr (drop used (rbuff_of c ?w0)))"
    let ?k = "request_keep_alive ?h"
    obtain s a where hw: "do_headers_websocket E c ?h (hr_header ?h ''Connection'') (hr_header ?h ''Sec-WebSocket-Key'') (?w2 ?k) = (s, a)"
      by (cases "do_headers_websocket E c ?h (hr_header ?h ''Connection'') (hr_header ?h ''Sec-WebSocket-Key'') (?w2 ?k)")
    obtain s' a' where hh: "do_headers_http E c ?h (?w2 ?k) = (s', a')" by (cases "do_headers_http E c ?h (?w2 ?k)")
    from do_headers_websocket_served [OF conjunct1 [OF w2] conjunct2 [OF w2] hw]
      do_headers_http_served [OF l(4) conjunct1 [OF w2] conjunct2 [OF w2] hh]
    have sv: "served E C N L {} D a" "unpolled E c a" "served E C N L {} D a'" "unpolled E c a'" by blast+
    show ?thesis
      using True w0 hw hh
      by (simp add: protocol_http_route_def Let_def split: option.split)
        (auto intro!: body cl sv conjunct1 [OF w2])
  qed
qed

end
