(* ===== verification/Server.thy ===== *)
theory Server
  imports Served_Http
begin

text \<open>
  The server as a state machine. Its steps are the calls quick-event makes (\<open>src/qev.c\<close>,
  \<open>src/periodic.c\<close>), the tick of broadcasts, what applications start on their own, and the time that
  passes. Every state it reaches satisfies the invariant of \<open>Served\<close>.
\<close>

section \<open>Reading\<close>

lemma find_handler_served:
  assumes "served E C N L {} D w" "conn E C D c" "c_prot (w_clients w c) = None" "find_handler c w = (go, v)"
  shows "served E C N L {} D v"
proof -
  have nc: "\<not> is_surrogate E c" using assms(2) by (simp add: conn_def)
  have l: "link w c = None" using polls_wfD(7) [OF servedD(4) [OF assms(1)] nc] assms(3) by (cases "link w c") auto
  note ok = clients_okD [OF servedD(6) [OF assms(1)], of c]
  have s: "c_subs (w_clients w c) = None" "\<not> c_handshaked (w_clients w c)" using ok(1,4) assms(3) by (cases "c_subs (w_clients w c)"; simp add: prot_ok_def)+
  have "served E C N L {} D (upd_client c (\<lambda>cl. cl\<lparr>c_prot := Some p\<rparr>) w)" for p
    by (rule conn_upd_served [OF assms(1) nc _ refl])
      (use s l unpolled_unlinked [OF assms(1,2) l] in \<open>auto simp: prot_ok_def\<close>)
  moreover have "served E C N L {} D (qev_close c r w)" for r
    by (rule idle_served [OF idle_steps(5) [OF idle_refl] assms(1)])
  ultimately show ?thesis
    using assms(1,4) find_handler_yes [of _ c w] find_handler_no [of c w]
    by (cases "\<exists>p. prot_handles p c w = PROT_YES") (auto split: if_splits)
qed

lemma handshaked_served:
  assumes "served E C N L {} D w" "conn E C D c" "c_prot (w_clients w c) \<in> {Some P_http, Some P_raw, Some P_rfc6455}"
  shows "served E C N L {} D (set_handshaked c w)"
proof -
  have nc: "\<not> is_surrogate E c" using assms(2) by (simp add: conn_def)
  have "served E C N L {} D (upd_client c (\<lambda>cl. cl\<lparr>c_last_send := w_now w, c_handshaked := True, c_timeout := False\<rparr>) w)"
    by (rule conn_upd_served [OF assms(1) nc _ refl])
      (use assms(3) polls_wfD(4-7) [OF servedD(4) [OF assms(1)] nc] served_links [OF assms(1) nc] in
        \<open>auto simp: prot_ok_def\<close>)
  then show ?thesis unfolding set_handshaked_def by (rule effect_served) simp_all
qed

lemma idle_handshake:
  assumes "prot_handshake E p = Some hs"
  shows "idle w (snd (hs c w))" "fst (hs c w) = PROT_OK \<Longrightarrow> p \<in> {P_raw, P_rfc6455}"
proof -
  obtain st len n v where d: "ws_decode E c 0 w = (st, len, n, v)" by (metis prod_cases4)
  have "idle w (snd (protocol_rfc6455_handshake E c w))"
    using idle_ws_decode [OF d]
    by (auto simp: protocol_rfc6455_handshake_def d Let_def protocol_raw_check_handshake_def intro!: idle_steps)
  with assms show "idle w (snd (hs c w))"
    by (cases p) (auto simp: prot_handshake_def protocol_flash_handshake_def protocol_raw_handshake_def intro!: idle_steps)
  show "fst (hs c w) = PROT_OK \<Longrightarrow> p \<in> {P_raw, P_rfc6455}"
    using assms by (cases p) (auto simp: prot_handshake_def protocol_flash_handshake_def)
qed

lemma handshake_served:
  assumes "served E C N L {} D w" "conn E C D c" "c_prot (w_clients w c) = Some p" "prot_handshake E p = Some hs"
  shows "served E C N L {} D (handshake hs c w)"
proof -
  obtain st v where h: "hs c w = (st, v)" by (cases "hs c w")
  have i: "idle w v" using idle_handshake(1) [OF assms(4), of w c] by (simp add: h)
  have v: "served E C N L {} D v" by (rule idle_served [OF i assms(1)])
  have "poll_view (w_clients v c) = poll_view (w_clients w c)" using i by (simp add: idle_def)
  then have p: "c_prot (w_clients v c) = Some p" using assms(3) by (simp add: poll_view_def)
  have "served E C N L {} D (set_handshaked c v)" if "st = PROT_OK"
    using idle_handshake(2) [OF assms(4), of c w] that by (intro handshaked_served [OF v assms(2)]) (auto simp: h p)
  with v idle_served [OF idle_steps(5) [OF idle_refl] v] show ?thesis
    by (auto simp: handshake_def h split: protocol_status.split)
qed

lemma idle_note_recv: "idle w (note_recv c w)" "idle w (start_timeout c w)"
proof -
  have u: "idle w (upd_client c (\<lambda>cl. cl\<lparr>c_last_recv := x\<rparr>) w)" for x by (rule idle_upd) (simp_all add: poll_view_def)
  have t: "idle w (upd_client c (\<lambda>cl. cl\<lparr>c_timeout := b\<rparr>) w)" for b w by (rule idle_upd) (simp_all add: poll_view_def)
  show "idle w (note_recv c w)"
    using u idle_trans [OF u t] by (auto simp: note_recv_def Let_def intro!: idle_steps(1))
  show "idle w (start_timeout c w)" unfolding start_timeout_def by (rule idle_steps(1) [OF t]) simp_all
qed

lemma prot_route_served:
  assumes "server_laws E C N L" "served E C N L {} D w" "conn E C D c"
    and "c_prot (w_clients w c) = Some p" "prot_route E p = Some r"
  shows "served E C N L {} D (snd (snd (r c used w)))"
proof (cases p)
  case P_http
  with assms http_route_served [OF assms(1-3)] show ?thesis by (auto simp: prot_route_def)
next
  case P_flash
  with assms(5) show ?thesis by (simp add: prot_route_def)
next
  case P_raw
  with assms raw_route_served [OF assms(1,2) conn_proper [OF assms(3)]] show ?thesis by (auto simp: prot_route_def)
next
  case P_rfc6455
  with assms ws_route_served [OF assms(1,2) conn_proper [OF assms(3)]] show ?thesis by (auto simp: prot_route_def)
qed

lemma route_loop_served:
  assumes "server_laws E C N L" "conn E C D c"
  shows "served E C N L {} D w \<Longrightarrow> used \<le> length (rbuff_of c w) \<Longrightarrow> length (rbuff_of c w) < 2 ^ 64 \<Longrightarrow>
    c_prot (w_clients w c) \<noteq> None \<Longrightarrow>
    route_loop E c fuel status used w = Some (used1, v) \<Longrightarrow> served E C N L {} D v"
proof (induction fuel arbitrary: status used w)
  case (Suc fuel)
  have rl: "read_laws E c" using server_lawsD(6) [OF assms(1)] assms(2) by (simp add: conn_def)
  from Suc.prems(4) obtain p where p: "c_prot (w_clients w c) = Some p" by auto
  obtain st u x where r: "(case prot_route E p of None \<Rightarrow> (status, used, w) | Some f \<Rightarrow> f c used w) = (st, u, x)"
    by (metis prod_cases3)
  have x: "served E C N L {} D x \<and> length (rbuff_of c x) = length (rbuff_of c w) \<and> u \<le> length (rbuff_of c w) \<and>
      c_prot (w_clients x c) \<noteq> None"
  proof (cases "prot_route E p")
    case None
    with r Suc.prems show ?thesis by simp
  next
    case (Some f)
    with r prot_route_served [OF assms(1) Suc.prems(1) assms(2) p Some, of used]
      prot_route_progress [OF rl Suc.prems(2,3) p Some] p show ?thesis by (auto simp: progress_step_def)
  qed
  let ?n = "note_recv c x"
  have n: "served E C N L {} D ?n" "served E C N L {} D (start_timeout c x)" "served E C N L {} D (qev_close c k x)" for k
    by (rule idle_served [OF idle_note_recv(1) conjunct1 [OF x]] idle_served [OF idle_note_recv(2) conjunct1 [OF x]]
        idle_served [OF idle_steps(5) [OF idle_refl] conjunct1 [OF x]])+
  have nf: "rbuff_of c ?n = rbuff_of c x" "c_prot (w_clients ?n c) = c_prot (w_clients x c)"
    by (simp_all add: note_recv_def Let_def rbuff_of_def)
  have "served E C N L {} D v" if "st = PROT_OK" "u < length (rbuff_of c ?n)" "route_loop E c fuel PROT_OK u ?n = Some (used1, v)"
    using Suc.IH [OF n(1) _ _ _ that(3)] that(2) x Suc.prems(3) by (simp add: nf)
  with Suc.prems(5) p r n show ?case
    by (auto simp: Let_def split: protocol_status.splits if_splits)
qed simp

lemma protocols_route_served:
  assumes "server_laws E C N L" "served E C N L {} D w" "conn E C D c" "length (rbuff_of c w) < 2 ^ 64"
    and "protocols_route E c w = Some v"
  shows "served E C N L {} D v"
proof -
  let ?w1 = "upd_client c (\<lambda>cl. cl\<lparr>c_last_recv := w_now w\<rparr>) w"
  have i1: "idle w ?w1" by (rule idle_upd) (simp_all add: poll_view_def)
  have w1: "served E C N L {} D ?w1" "rbuff_of c ?w1 = rbuff_of c w" by (rule idle_served [OF i1 assms(2)]) (simp add: rbuff_of_def)
  obtain go w2 where f: "(if c_prot (w_clients ?w1 c) = None then find_handler c ?w1 else (True, ?w1)) = (go, w2)"
    by (cases "if c_prot (w_clients ?w1 c) = None then find_handler c ?w1 else (True, ?w1)")
  have w2: "served E C N L {} D w2" "rbuff_of c w2 = rbuff_of c w" "go \<Longrightarrow> c_prot (w_clients w2 c) \<noteq> None"
    using f w1 find_handler_frame [of c ?w1 go w2] find_handler_served [OF w1(1) assms(3)] by (auto split: if_splits)
  have route: "served E C N L {} D v"
    if "served E C N L {} D x" "rbuff_of c x = rbuff_of c w" "c_prot (w_clients x c) \<noteq> None" "route E c x = Some v" for x
  proof -
    from that(4) obtain used y where y: "route_loop E c (route_fuel c x) PROT_FATAL 0 x = Some (used, y)"
      "v = set_rbuff c (drop used (rbuff_of c y)) y" by (auto simp: route_def split: option.splits)
    have "served E C N L {} D y"
      by (rule route_loop_served [OF assms(1,3) that(1) _ _ that(3) y(1)]) (use that(2) assms(4) in simp_all)
    then show ?thesis unfolding y(2) by (rule idle_served [OF idle_steps(4) [OF idle_refl]])
  qed
  have hs: "served E C N L {} D (set_handshaked c w2)" if "c_prot (w_clients w2 c) = Some p" "prot_handshake E p = None" for p
    by (rule handshaked_served [OF w2(1) assms(3)]) (use that in \<open>cases p; simp add: prot_handshake_def\<close>)
  show ?thesis
    using assms(5) f w2 route [OF w2(1,2)] route [OF hs] handshake_served [OF w2(1) assms(3)]
    by (auto simp: protocols_route_def Let_def split: if_splits option.splits)
qed

section \<open>Heartbeats and old callbacks\<close>

lemma protocols_heartbeat_served:
  assumes "server_laws E C N L" "served E C N L {} D w" "live E C w c"
  shows "served E C N L {} D (protocols_heartbeat E c hb w)"
proof (cases "c_handshaked (w_clients w c)")
  case False
  with assms(2) show ?thesis by (simp add: protocols_heartbeat_def)
next
  case True
  have p: "c_prot (w_clients w c) \<in> {Some P_http, Some P_raw, Some P_rfc6455}"
    using clients_okD(1) [OF servedD(6) [OF assms(2)], of c] True by (simp add: prot_ok_def)
  have cl: "served E C N L {} D (qev_close c r w)" for r by (rule idle_served [OF idle_steps(5) [OF idle_refl] assms(2)])
  have "served E C N L {} D (protocol_http_heartbeat E c hb w)"
    using assms(2) cl error_served [OF assms(2), of c STATUS_200] by (auto simp: protocol_http_heartbeat_def Let_def)
  moreover have "served E C N L {} D (protocol_raw_do_heartbeat E c hb frame w)" if "c_prot (w_clients w c) \<noteq> Some P_http" for frame
    by (rule heartbeat_served [OF assms(1,2)]) (use p that assms(3) in \<open>auto simp: proper_def\<close>)
  ultimately show ?thesis
    using True p by (auto simp: protocols_heartbeat_def prot_heartbeat_def protocol_raw_heartbeat_def protocol_rfc6455_heartbeat_def)
qed

lemma idle_free_slots: "idle w (fold (free_slot_if P c) l w)"
proof -
  have d: "opened (cb_data_free d f v) = opened v" "w_surrogates (cb_data_free d f v) = w_surrogates v" for d f v
    by (simp_all add: cb_data_free_def split: option.split)
  have "idle w (cb_free c i w)" if "c_cbs (w_clients w c) ! i \<noteq> None" for i w
    using calm_cb_free [OF that] that by (auto simp: idle_def cb_free_def cb_remove_def poll_view_def d split: if_splits)
  then have "idle w (free_slot_if P c i w)" for i w by (simp add: free_slot_if_def slots_def split: option.split)
  then show ?thesis by (induction l arbitrary: w) (auto intro: idle_trans)
qed

lemma idle_prune: "idle w (client_cb_prune c b w)"
  unfolding client_cb_prune_def cb_prune_slot_eq by (rule idle_free_slots)

lemma idle_free_all: "idle w (client_free_all c w)"
proof -
  let ?u = "fold (cb_free_slot c) [0..<n_cbs] w"
  have "idle v (upd_client c (\<lambda>cl. cl\<lparr>c_data := None\<rparr>) v)" for v by (rule idle_upd) (simp_all add: poll_view_def)
  moreover have "idle w ?u" unfolding cb_free_slot_eq by (rule idle_free_slots)
  ultimately show ?thesis unfolding client_free_all_def Let_def by (auto intro: idle_trans)
qed

lemma heartbeat_opened:
  assumes "server_laws E C N L" "served E C N L {} D w" "live E C w c"
  shows "opened (protocols_heartbeat E c hb w) = opened w"
proof -
  have "opened (protocol_raw_do_heartbeat E c hb frame w) = opened w" if "proper E C w c" for frame
    using civil_frame.heartbeat_framed [of E C N w c hb frame] server_lawsD(3) [OF assms(1)] that civilD(3) by blast
  moreover have "opened (protocol_http_heartbeat E c hb w) = opened w"
    by (simp add: protocol_http_heartbeat_def Let_def send_error_def qev_close_def)
  moreover have "proper E C w c" if "c_prot (w_clients w c) = Some p" "p \<noteq> P_http" for p
    using that assms(3) by (simp add: proper_def)
  ultimately show ?thesis
    by (auto simp: protocols_heartbeat_def prot_heartbeat_def protocol_raw_heartbeat_def protocol_rfc6455_heartbeat_def
        split: option.split prot.split)
qed

lemma periodic_served:
  assumes "server_laws E C N L"
  shows "served E C N L {} D w \<Longrightarrow> list_all (live E C w) cs \<Longrightarrow> served E C N L {} D (fold (periodic_foreach E hb b) cs w)"
proof (induction cs arbitrary: w)
  case (Cons c cs)
  have l: "live E C w c" using Cons.prems(2) by simp
  let ?h = "protocols_heartbeat E c hb w" let ?v = "periodic_foreach E hb b c w"
  have h: "served E C N L {} D ?h" by (rule protocols_heartbeat_served [OF assms Cons.prems(1) l])
  have "opened ?v = opened w"
    using heartbeat_opened [OF assms Cons.prems(1) l, of hb] idle_prune [of ?h c b] by (simp add: periodic_foreach_def idle_def)
  then have "live E C ?v = live E C w" by (simp add: live_def fun_eq_iff)
  with Cons.IH [of ?v] Cons.prems(2) idle_served [OF idle_prune h] show ?case by (simp add: periodic_foreach_def)
qed simp

section \<open>Closing\<close>

lemma closed_grow:
  assumes "served E C N L B D w" "\<not> is_surrogate E c \<Longrightarrow> link w c = None"
  shows "served E C N L B (insert c D) w"
proof -
  have "polls_wf E B (insert c D) w"
    using servedD(4) [OF assms(1)] assms(2) unfolding polls_wf_def by (metis insert_iff option.distinct(1))
  with assms(1) show ?thesis by (simp add: served_def)
qed

lemma unlink_served:
  assumes "served E C N L {} D w" "\<not> is_surrogate E c"
  shows "served E C N L {} (insert c D) (upd_client c (\<lambda>cl. cl\<lparr>c_http_client := None\<rparr>) w)"
proof (rule core_served [OF same_core_link _ _ assms(1)])
  let ?v = "upd_client c (\<lambda>cl. cl\<lparr>c_http_client := None\<rparr>) w"
  note g = polls_wfD [OF servedD(4) [OF assms(1)]]
  have "\<not> is_surrogate E p \<and> (p \<in> insert c D \<or> link ?v p = Some d \<and> (p \<in> {} \<or> c_http_body_len (w_clients ?v p) = 0))"
    if d: "is_surrogate E d" "link ?v d = Some p" for d p
  proof -
    have p: "link w d = Some p" using d(2) by (simp split: if_splits)
    from g(1-3) [OF d(1) p] show ?thesis by (cases "p = c"; cases "p \<in> D") simp_all
  qed
  moreover have "is_surrogate E s \<and> d \<notin> insert c D \<and> c_in_request (w_clients ?v d) \<and> c_prot (w_clients ?v d) = Some P_http"
    if d: "\<not> is_surrogate E d" "link ?v d = Some s" for d s
    using d g(4-7) [OF d(1), of s] by (cases "d = c") simp_all
  ultimately show "polls_wf E {} (insert c D) ?v" unfolding polls_wf_def by blast
  show "\<And>d s. link ?v d = Some s \<Longrightarrow> link w d = Some s" by (simp split: if_splits)
qed simp

lemma surrogate_gone_served:
  "served E C N L B D w \<Longrightarrow> served E C N L B D (w\<lparr>w_surrogates := (w_surrogates w)(k := None)\<rparr>)"
proof -
  assume s: "served E C N L B D w"
  let ?v = "w\<lparr>w_surrogates := (w_surrogates w)(k := None)\<rparr>"
  have "calm w ?v" by (simp add: calm_def subs_view_def)
  moreover have "limits E C N ?v = limits E C N w" by (rule limits_cong) (simp_all add: opened_def)
  moreover have "polls_wf E B D ?v = polls_wf E B D w" by (rule polls_wf_cong) simp
  moreover have "surrogates_ok E C ?v"
    using servedD(5) [OF s] by (auto simp: surrogates_ok_def surrogate_ok_def live_def opened_def)
  ultimately show ?thesis using s calm_inv [of w ?v L] by (simp add: served_def)
qed

lemma http_close_served:
  assumes "served E C N L {} D w"
  shows "served E C N L {} (insert c D) (protocol_http_close E c r w)"
proof (cases "is_surrogate E c")
  case True
  let ?w1 = "w\<lparr>w_surrogates := (w_surrogates w)((c_http_tbl (w_clients w c), c_http_sid (w_clients w c)) := None)\<rparr>"
  have p: "\<not> is_surrogate E p" if "link w c = Some p" for p by (rule polls_wfD(1) [OF servedD(4) [OF assms] True that])
  have w2: "served E C N L {} D (upd_client c (\<lambda>cl. cl\<lparr>c_http_client := None\<rparr>) ?w1)"
    by (rule drop_served [OF surrogate_gone_served [OF assms] True])
  then have "served E C N L {} D (snd (send_error E (link w c) STATUS_403 (upd_client c (\<lambda>cl. cl\<lparr>c_http_client := None\<rparr>) ?w1)))"
    using p by (cases "link w c") (simp_all add: error_served, simp add: send_error_def)
  then have "served E C N L {} D (protocol_http_close E c r w)"
    using True by (auto simp: protocol_http_close_def steal_client_def Let_def intro!: effect_served idle_served [OF idle_stat])
  with True show ?thesis by (intro closed_grow) simp_all
next
  case False
  let ?w1 = "upd_client c (\<lambda>cl. cl\<lparr>c_http_client := None\<rparr>) w"
  have w1: "served E C N L {} (insert c D) ?w1" by (rule unlink_served [OF assms False])
  have fin: "served E C N L {} (insert c D) (emit (E_unref (Some s)) (qev_close s HTTP_DONE v))"
    if "served E C N L {} (insert c D) v" for s v
    by (rule effect_served [OF idle_served [OF idle_steps(5) [OF idle_refl] that]]) simp_all
  show ?thesis
    using False w1 error_served [OF w1 False]
    by (auto simp: protocol_http_close_def steal_client_def Let_def intro!: fin split: option.split close_reason.split)
qed

lemma protocols_closed_served:
  assumes "served E C N L {} D w"
  shows "served E C N L {} (insert c D) (protocols_closed E c r w)"
proof (cases "c_prot (w_clients w c) = Some P_http")
  case True
  then show ?thesis using http_close_served [OF assms] by (simp add: protocols_closed_def prot_close_def)
next
  case False
  have "link w c = None" if "\<not> is_surrogate E c"
    using polls_wfD(7) [OF servedD(4) [OF assms] that] False by (cases "link w c") auto
  then have "served E C N L {} (insert c D) w" by (rule closed_grow [OF assms])
  with False show ?thesis
    by (auto simp: protocols_closed_def prot_close_def protocol_rfc6455_close_def split: option.split prot.split
        intro!: effect_served)
qed

lemma client_closed_served:
  assumes "server_laws E C N L" "served E C N L B D w"
  shows "served E C N L B D (client_closed E c w)"
proof (cases "c_subs (w_clients w c)")
  case None
  with assms(2) show ?thesis by (simp add: client_closed_def)
next
  case (Some l)
  then have "proper E C w c" using servedD(3) [OF assms(2)] by (simp add: limits_def)
  then have "civil E C N w (client_closed E c w)"
    using civil_frame.closed_framed [of E C N w c] server_lawsD(3) [OF assms(1)] by blast
  moreover have "subs_inv L (client_closed E c w)"
    using client_closed_props [OF app_lawsD(2) [OF server_lawsD(1) [OF assms(1)]] servedD(1) [OF assms(2)]] by blast
  ultimately show ?thesis by (rule civil_served [OF _ _ assms(2)])
qed

lemma on_close_served:
  assumes "server_laws E C N L" "served E C N L {} D w"
  shows "served E C N L {} (insert c D) (qev_on_close E c r w)"
proof -
  have "idle w (upd_client c (\<lambda>cl. cl\<lparr>c_timeout := False\<rparr>) w)" by (rule idle_upd) (simp_all add: poll_view_def)
  then have "served E C N L {} D (emit (E_timeout_clear c) (upd_client c (\<lambda>cl. cl\<lparr>c_timeout := False\<rparr>) w))"
    by (intro effect_served idle_served [OF _ assms(2)]) simp_all
  then show ?thesis
    unfolding qev_on_close_def Let_def by (intro client_closed_served [OF assms(1)] protocols_closed_served)
qed

section \<open>Broadcasts and handlers\<close>

lemma civil_broadcast_client:
  assumes "proper E C w c"
  shows "civil E C N w (broadcast_client E frs c w)"
proof -
  obtain p where "c_prot (w_clients w c) = Some p" using assms by (auto simp: proper_def)
  then have "civil E C N w (protocols_bcast_write E c frs w)"
    using civil_send_frames [OF assms] by (simp add: protocols_bcast_write_def)
  then show ?thesis unfolding broadcast_client_def by (rule civil_trans) (rule civil_core, simp_all)
qed

lemma civil_broadcast_fold:
  "\<forall>c \<in> set l. proper E C w c \<Longrightarrow> civil E C N w (fold (broadcast_client E frs) l w)"
proof (induction l arbitrary: w)
  case (Cons c l)
  have c: "civil E C N w (broadcast_client E frs c w)" by (rule civil_broadcast_client) (use Cons.prems in simp)
  have "\<forall>d \<in> set l. proper E C (broadcast_client E frs c w) d" using Cons.prems by (simp add: civil_fields(5) [OF c])
  from civil_trans [OF c Cons.IH [OF this]] show ?case by simp
qed simp

lemma broadcast_one_civil:
  assumes "items_law E" "served E C N (L(fst b := Suc (L (fst b)))) B D w"
  shows "civil E C N w (broadcast_one E b w)"
proof -
  note i = servedD(1) [OF assms(2)]
  have "\<forall>c \<in> set (list_items E (w_trace w) (fst b)). proper E C w c"
  proof
    fix c assume "c \<in> set (list_items E (w_trace w) (fst b))"
    then have "sub_state w c (fst b) = CLIENT_SUB_ACTIVE" by (rule items_subscribed [OF assms(1) i])
    then have "c_subs (w_clients w c) \<noteq> None" by (auto simp: sub_state_simps csub_get_def split: option.splits)
    with servedD(3) [OF assms(2)] show "proper E C w c" unfolding limits_def by blast
  qed
  note f = civil_broadcast_fold [OF this]
  have u: "civil E C N v (stat_inc x (sub_unref s v))" for v x s
    by (rule civil_core) (simp_all add: frame_simps sub_get_opened)
  obtain s where "w_sub_heap w (fst b) = Some s"
    using subs_wfD(3) [OF subs_invD(1) [OF i], of "fst b"] by (cases "w_sub_heap w (fst b)") auto
  then show ?thesis unfolding broadcast_one_def by (simp add: Let_def civil_trans [OF f u])
qed

lemma broadcast_one_served:
  assumes "items_law E" "served E C N (L(fst b := Suc (L (fst b)))) B D w"
  shows "served E C N L B D (broadcast_one E b w)"
  by (rule civil_served [OF broadcast_one_civil [OF assms] broadcast_one_inv [OF assms(1) servedD(1) [OF assms(2)]] assms(2)])

lemma queue_served:
  assumes "served E C N L B D w" "subs_inv M (w\<lparr>w_broadcasts := bs\<rparr>)" "length bs \<le> N"
  shows "served E C N M B D (w\<lparr>w_broadcasts := bs\<rparr>)"
proof -
  let ?v = "w\<lparr>w_broadcasts := bs\<rparr>"
  have o: "opened ?v = opened w" by (simp add: opened_def)
  have "limits E C N ?v" using servedD(3) [OF assms(1)] assms(3) by (simp add: limits_def proper_def live_def o)
  moreover have "polls_wf E B D ?v = polls_wf E B D w" by (rule polls_wf_cong) simp
  moreover have "surrogates_ok E C ?v = surrogates_ok E C w" by (simp add: surrogates_ok_def surrogate_ok_def live_def o)
  ultimately show ?thesis using assms(1,2) by (simp add: served_def)
qed

lemma tick_served:
  "items_law E \<Longrightarrow> served E C N L B D w \<Longrightarrow> served E C N L B D (evs_broadcast_tick E w)"
proof (induction E w rule: evs_broadcast_tick.induct)
  case (1 E w)
  show ?case
  proof (cases "w_broadcasts w")
    case Nil
    with 1 show ?thesis by (simp add: evs_broadcast_tick.simps [of E w])
  next
    case (Cons b bs)
    obtain sub j where b: "b = (sub, j)" by (cases b)
    have "length bs \<le> N" using servedD(3) [OF 1(3)] Cons by (simp add: limits_def)
    with pop_inv [OF servedD(1) [OF 1(3)], of sub j bs] Cons b
    have "served E C N (L(sub := Suc (L sub))) B D (w\<lparr>w_broadcasts := bs\<rparr>)" by (intro queue_served [OF 1(3)]) simp_all
    then have "served E C N L B D (broadcast_one E b (w\<lparr>w_broadcasts := bs\<rparr>))"
      by (intro broadcast_one_served [OF 1(2)]) (simp add: b)
    with 1(1) [OF Cons 1(2)] Cons show ?thesis by (simp add: evs_broadcast_tick.simps [of E w])
  qed
qed

lemma evs_broadcast_served:
  assumes "roomy C N L" "served E C N L B D w" "length (w_broadcasts w) < N"
  shows "served E C N L B D (evs_broadcast ev x json w)"
proof -
  have r: "sub_room 1 w" using sub_room_mono [OF served_room [OF assms(1,2)], of 1] by simp
  obtain q u where g: "sub_get ev x False w = (q, u)" by (cases "sub_get ev x False w")
  have f: "w_clients u = w_clients w" "w_events u = w_events w" "w_broadcasts u = w_broadcasts w" "w_surrogates u = w_surrogates w"
    "opened u = opened w" using sub_get_frame [of ev x False w] sub_get_opened(1) [of ev x False w] by (simp_all add: g)
  have inv: "subs_inv L (evs_broadcast ev x json w)" by (rule broadcast_inv [OF servedD(1) [OF assms(2)] r])
  show ?thesis
  proof (cases q)
    case None
    with sub_get_None_same [OF subs_invD(1) [OF servedD(1) [OF assms(2)]] r, of ev x False u] g assms(2) show ?thesis
      by (simp add: evs_broadcast_def)
  next
    case (Some sub)
    have "civil E C N w u" by (rule civil_core) (simp_all add: f)
    from civil_served [OF this sub_get_inv [OF servedD(1) [OF assms(2)] r g [unfolded Some]] assms(2)]
    have u: "served E C N (L(sub := Suc (L sub))) B D u" .
    have e: "evs_broadcast ev x json w = u\<lparr>w_broadcasts := w_broadcasts u @ [(sub, json_or_null json)]\<rparr>"
      by (simp add: evs_broadcast_def g Some)
    show ?thesis
      unfolding e by (rule queue_served [OF u inv [unfolded e]]) (use assms(3) in \<open>simp add: f\<close>)
  qed
qed

lemma add_handler_served:
  assumes "served E C N L B D w"
  shows "served E C N L B D (snd (evs_add_handler pre path h on off ch w))"
proof -
  note i = evs_query_insert_clean [OF servedD(2) [OF assms] evs_make_path_is_clean [of pre path None], of h on off ch]
  then obtain ok t where t: "evs_query_insert (w_events w) (evs_make_path pre path None) h on off ch = Some (ok, t)" "wf_trie t"
    by (metis not_None_eq surj_pair)
  let ?v = "w\<lparr>w_events := t\<rparr>"
  have "subs_wf L ?v = subs_wf L w" "lists_ok ?v = lists_ok w" "clients_ok ?v = clients_ok w"
    by (rule subs_view_wf) (simp_all add: subs_view_def lists_ok_def csub_get_def clients_ok_def)
  moreover have "limits E C N ?v = limits E C N w" by (rule limits_cong) (simp_all add: opened_def)
  moreover have "polls_wf E B D ?v = polls_wf E B D w" by (rule polls_wf_cong) simp
  moreover have "surrogates_ok E C ?v = surrogates_ok E C w" by (simp add: surrogates_ok_def surrogate_ok_def live_def opened_def)
  ultimately show ?thesis using assms t by (simp add: evs_add_handler_def served_def subs_inv_def)
qed

section \<open>The machine\<close>

text \<open>A state and the clients that have been closed.\<close>

inductive server_step :: "env \<Rightarrow> cid set \<Rightarrow> nat \<Rightarrow> cid set \<times> world \<Rightarrow> cid set \<times> world \<Rightarrow> bool"
  for E C N where
  accept: "conn E C D c \<Longrightarrow> server_step E C N (D, w) (D, qev_on_open E c w)"
| receive: "conn E C D c \<Longrightarrow> length (rbuff_of c w @ bytes) < 2 ^ 64 \<Longrightarrow>
    qev_on_read E c (set_rbuff c (rbuff_of c w @ bytes) w) = Some v \<Longrightarrow> server_step E C N (D, w) (D, v)"
| close: "live E C w c \<Longrightarrow> c \<notin> D \<Longrightarrow> server_step E C N (D, w) (insert c D, qev_on_close E c reason w)"
| free: "c \<in> D \<Longrightarrow> server_step E C N (D, w) (D, qev_client_free c w)"
| periodic: "list_all (live E C w) cs \<Longrightarrow> server_step E C N (D, w) (D, periodic_run E cs w)"
| tick: "server_step E C N (D, w) (D, evs_broadcast_tick E w)"
| broadcast: "length (w_broadcasts w) < N \<Longrightarrow> server_step E C N (D, w) (D, evs_broadcast ev extra json w)"
| send: "proper E C w c \<Longrightarrow> server_step E C N (D, w) (D, evs_send_full E c ev extra json fn data free_fn w)"
| handler: "server_step E C N (D, w) (D, snd (evs_add_handler pre path h on off children w))"
| pass: "w_now w \<le> now \<Longrightarrow> server_step E C N (D, w) (D, w\<lparr>w_now := now\<rparr>)"

text \<open>The state before the first client: the events of the server are registered.\<close>

definition start_world :: world where
  "start_world = evs_qio_init init_world"

lemma start_served: "served E C N (\<lambda>_. 0) {} {} start_world"
proof -
  have o: "opened init_world = {}" by (simp add: opened_def init_world_def)
  have n: "w_clients init_world c = qev_client_new" "w_surrogates init_world k = None" "w_events init_world = empty_trie"
    "w_broadcasts init_world = []" for c k
    by (simp_all add: init_world_def)
  have "served E C N (\<lambda>_. 0) {} {} init_world"
    unfolding served_def limits_def polls_wf_def surrogates_ok_def n using subs_inv_init
    by (simp add: qev_client_new_def)
  then show ?thesis unfolding start_world_def evs_qio_init_def Let_def by (intro add_handler_served)
qed

lemma calm_send_sub:
  assumes "random_law E" "subs_inv L w"
  shows "calm w (evs_send_sub_full E c sub json fn data free_fn w)"
proof (cases "client_sub_active c sub w")
  case False
  then show ?thesis by (simp add: evs_send_sub_full_def)
next
  case True
  then have "csub_get c sub w \<noteq> None" by (auto simp: client_sub_active_def split: option.splits)
  then obtain s where s: "w_sub_heap w sub = Some s" using held_heap [OF subs_invD(1) [OF assms(2)]] by blast
  let ?n = "snd (client_cb_new E (Some c) fn data free_fn w)"
  note ok = subs_invD(2) [OF assms(2)]
  have m: "calm w ?n" using assms(1) ok by (intro calm_cb_new) (simp_all add: clients_okD)
  have "w_sub_heap ?n sub = Some s" using m s subs_view_eqD(2) [of ?n w] by (simp add: calm_def)
  moreover have "calm w (protocols_send E c path x cb j ?n)" for path x cb j
    using calm_clients_ok [OF m ok] by (intro calm_trans [OF m] calm_protocols_send) (rule clients_okD)
  ultimately show ?thesis using True by (simp add: evs_send_sub_full_def Let_def case_prod_beta calm_steps)
qed

lemma send_full_inv:
  assumes "random_law E" "subs_inv L w" "sub_room 1 w"
  shows "subs_inv L (evs_send_full E c ev x json fn data free_fn w)"
proof -
  obtain q u where g: "sub_get ev x False w = (q, u)" by (cases "sub_get ev x False w")
  have "subs_inv L (case q of None \<Rightarrow> u | Some sub \<Rightarrow> sub_unref sub (evs_send_sub_full E c sub json fn data free_fn u))"
  proof (cases q)
    case None
    with sub_get_None_same [OF subs_invD(1) [OF assms(2)] assms(3), of ev x False u] g assms(2) show ?thesis by simp
  next
    case (Some sub)
    note u = sub_get_inv [OF assms(2,3) g [unfolded Some]]
    from sub_unref_inv [OF calm_inv [OF calm_send_sub [OF assms(1) u] u], of sub] Some show ?thesis by simp
  qed
  with assms(2) show ?thesis by (simp add: evs_send_full_def g split: option.splits)
qed

lemma send_served:
  assumes "server_laws E C N L" "served E C N L B D w" "proper E C w c"
  shows "served E C N L B D (evs_send_full E c ev x json fn data free_fn w)"
proof (rule civil_served [OF _ _ assms(2)])
  show "civil E C N w (evs_send_full E c ev x json fn data free_fn w)"
    using civil_frame.send_framed [of E C N w c] server_lawsD(3) [OF assms(1)] assms(3) by blast
  show "subs_inv L (evs_send_full E c ev x json fn data free_fn w)"
    by (rule send_full_inv [OF app_lawsD(1) [OF server_lawsD(1) [OF assms(1)]] servedD(1) [OF assms(2)]
          sub_room_mono [OF served_room [OF server_lawsD(5) [OF assms(1)] assms(2)]]]) simp
qed

lemma idle_now: "idle w (w\<lparr>w_now := now\<rparr>)"
  by (simp add: idle_def calm_def subs_view_def opened_def)

lemma step_served:
  assumes "server_laws E C N L" "server_step E C N (D, w) (D', v)" "served E C N L {} D w"
  shows "served E C N L {} D' v"
  using assms(2)
proof (cases rule: server_step.cases)
  case (accept c)
  then show ?thesis
    using idle_served [OF idle_note_recv(2) assms(3)] assms(3) by (simp add: qev_on_open_def)
next
  case (receive c bytes)
  have "served E C N L {} D (set_rbuff c (rbuff_of c w @ bytes) w)" by (rule idle_served [OF idle_steps(4) [OF idle_refl] assms(3)])
  from protocols_route_served [OF assms(1) this receive(2)] receive show ?thesis by (simp add: qev_on_read_def)
next
  case (close c r)
  then show ?thesis using on_close_served [OF assms(1,3)] by simp
next
  case (free c)
  then show ?thesis using idle_served [OF idle_free_all assms(3)] by (simp add: qev_client_free_def)
next
  case (periodic cs)
  then show ?thesis using periodic_served [OF assms(1,3)] by (simp add: periodic_run_def)
next
  case tick
  then show ?thesis using tick_served [OF server_lawsD(2) [OF assms(1)] assms(3)] by simp
next
  case (broadcast ev x json)
  then show ?thesis using evs_broadcast_served [OF server_lawsD(5) [OF assms(1)] assms(3)] by simp
next
  case (send c)
  then show ?thesis using send_served [OF assms(1,3)] by simp
next
  case handler
  then show ?thesis using add_handler_served [OF assms(3)] by simp
next
  case (pass now)
  then show ?thesis using idle_served [OF idle_now assms(3)] by simp
qed

lemma steps_served:
  "(server_step E C N)\<^sup>*\<^sup>* (D, w) (D', v) \<Longrightarrow> server_laws E C N L \<Longrightarrow> served E C N L {} D w \<Longrightarrow>
   served E C N L {} D' v"
  by (induction rule: rtranclp_induct2) (auto intro: step_served)

section \<open>Properties\<close>


text \<open>An environment that obeys all the laws: two connections, a surrogate, and list handling as documented.\<close>

definition sample_server_env :: env where
  "sample_server_env = sample_env\<lparr>list_items := list_model, cfg_public_address := Some ''localhost'',
     is_surrogate := (\<lambda>c. c = 9), surrogate_new := (\<lambda>tr. if E_surrogate 9 \<in> set tr then None else Some 9)\<rparr>"

lemma sample_server_laws: "server_laws sample_server_env {5, 6, 9} 100 (\<lambda>_. 0)"
proof -
  have "items_law sample_server_env"
    using items_law_sample by (simp add: items_law_def sample_server_env_def)
  moreover have "app_laws sample_server_env"
    using app_laws_sample_env
    by (simp add: app_laws_def random_law_def off_law_def on_law_def cb_law_def handler_law_def sample_server_env_def)
  moreover have "safe_uadd_law (safe_uadd sample_server_env)" "steady_law {} sample_server_env" "http_parse_law sample_server_env"
    by (simp_all add: safe_uadd_law_def steady_law_def http_parse_law_def sample_server_env_def sample_env_def)
  moreover have "civil_law sample_server_env {5, 6, 9} 100"
    by (simp add: civil_law_def sample_server_env_def sample_env_def)
  moreover have "surrogate_new_law sample_server_env {5, 6, 9}" "roomy {5, 6, 9} 100 (\<lambda>_. 0)"
    by (auto simp: surrogate_new_law_def roomy_def sample_server_env_def)
  ultimately show ?thesis by (simp add: server_laws_def)
qed


end
