(* ===== verification/Clienttest.thy ===== *)
theory Clienttest
  imports Server
begin

text \<open>
  The application \<open>src/quickio-clienttest.c\<close>, which the test suites of the client libraries run
  against. Its functions are the application functions of an environment; they obey the laws that
  the server asks of applications, but for one, which accepts a subscription that may be active
  already. Parsing JSON is quick-event's and a parameter (\<open>unpack\<close>); the references of the values in
  the data table of a client are not counted.
\<close>

section \<open>Strings\<close>

text \<open>\<open>g_ascii_strtoll (s, NULL, 10)\<close>, and \<open>%ld\<close>.\<close>

definition strtoll :: "string \<Rightarrow> int" where
  "strtoll s =
     (let t = dropWhile is_space s;
          neg = (t \<noteq> [] \<and> hd t = CHR ''-'');
          u = (if t \<noteq> [] \<and> (hd t = CHR ''-'' \<or> hd t = CHR ''+'') then tl t else t);
          n = int (digits_value (takeWhile is_digit u))
      in if neg then max (- (2 ^ 63)) (- n) else min (2 ^ 63 - 1) n)"

definition sdec_str :: "int \<Rightarrow> string" where
  "sdec_str i = (if i < 0 then CHR ''-'' # dec_str (nat (- i)) else dec_str (nat i))"

section \<open>Names\<close>

text \<open>The keys of the data table, and the numbers under which the functions are registered.\<close>

definition heartbeat_challenge_cb_quark :: nat where "heartbeat_challenge_cb_quark = 1"
definition in_progress_callback_quark :: nat where "in_progress_callback_quark = 2"

datatype ct_handler = Ct_close | Ct_drop_callback | Ct_echo | Ct_error | Ct_heartbeat_challenge
  | Ct_in_progress | Ct_move | Ct_send_invalid | Ct_send_unsubscribed

fun ct_number :: "ct_handler \<Rightarrow> nat" where
  "ct_number Ct_close = 0"
| "ct_number Ct_drop_callback = 1"
| "ct_number Ct_echo = 2"
| "ct_number Ct_error = 3"
| "ct_number Ct_heartbeat_challenge = 4"
| "ct_number Ct_in_progress = 5"
| "ct_number Ct_move = 6"
| "ct_number Ct_send_invalid = 7"
| "ct_number Ct_send_unsubscribed = 8"

definition ct_handlers :: "ct_handler list" where
  "ct_handlers = [Ct_close, Ct_drop_callback, Ct_echo, Ct_error, Ct_heartbeat_challenge,
     Ct_in_progress, Ct_move, Ct_send_invalid, Ct_send_unsubscribed]"

definition ECHO_CB :: cb_ptr where "ECHO_CB = Cb_app 0"
definition HEARTBEAT_CHALLENGE_CB :: cb_ptr where "HEARTBEAT_CHALLENGE_CB = Cb_app 1"
definition IN_PROGRESS_ON :: on_ptr where "IN_PROGRESS_ON = On_app 0"
definition ON_DATA_ON :: on_ptr where "ON_DATA_ON = On_app 1"

definition EV_PREFIX :: string where "EV_PREFIX = ''/clienttest''"

text \<open>The events that \<open>_app_init\<close> keeps, as \<open>evs_add_handler\<close> returns them.\<close>

definition ev_broadcast :: event where
  "ev_broadcast = event_init ''/clienttest/broadcast'' None None None False"

definition ev_in_progress :: event where
  "ev_in_progress =
     event_init ''/clienttest/in-progress'' (Some (H_app (ct_number Ct_in_progress))) (Some IN_PROGRESS_ON) None True"

section \<open>Handlers\<close>

definition close_handler :: "cid \<Rightarrow> world \<Rightarrow> evs_status \<times> world" where
  "close_handler c w = (EVS_STATUS_HANDLED, qev_close c (QEV_CLOSE_OTHER 0) w)"

definition drop_callback_handler :: "world \<Rightarrow> evs_status \<times> world" where
  "drop_callback_handler w = (EVS_STATUS_HANDLED, w)"

definition echo_cb :: "env \<Rightarrow> cid \<Rightarrow> guint64 \<Rightarrow> string \<Rightarrow> world \<Rightarrow> evs_status \<times> world" where
  "echo_cb E c client_cb json w =
     (EVS_STATUS_HANDLED, evs_cb_with_cb E c client_cb (Some json) (Some ECHO_CB) None None w)"

definition echo_handler :: "env \<Rightarrow> cid \<Rightarrow> guint64 \<Rightarrow> string \<Rightarrow> world \<Rightarrow> evs_status \<times> world" where
  "echo_handler E c client_cb json w = echo_cb E c client_cb json w"

text \<open>The code becomes an \<open>enum evs_code\<close>, of 32 bits.\<close>

definition error_handler :: "env \<Rightarrow> cid \<Rightarrow> string \<Rightarrow> guint64 \<Rightarrow> world \<Rightarrow> evs_status \<times> world" where
  "error_handler E c ev_extra client_cb w =
     (let (code, msg) =
        (if ev_extra \<noteq> [] \<and> hd ev_extra = CHR ''/'' then
           (let n = strtoll (tl ev_extra) in (n, sdec_str n @ ''s are fun!''))
         else (0, []))
      in (EVS_STATUS_HANDLED,
          evs_cb_full E c client_cb (take_bit 32 (word_of_int code)) (Some msg)
            (Some ''\"you requested an error?\"'') None None None w))"

definition heartbeat_challenge_cb :: "env \<Rightarrow> cid \<Rightarrow> world \<Rightarrow> evs_status \<times> world" where
  "heartbeat_challenge_cb E c w =
     (case client_get c heartbeat_challenge_cb_quark w of
        None \<Rightarrow> (EVS_STATUS_OK, w)
      | Some v \<Rightarrow>
          (EVS_STATUS_OK, client_del c heartbeat_challenge_cb_quark (evs_cb E c (word_of_nat v) None w)))"

definition heartbeat_challenge_handler :: "env \<Rightarrow> cid \<Rightarrow> guint64 \<Rightarrow> world \<Rightarrow> evs_status \<times> world" where
  "heartbeat_challenge_handler E c client_cb w =
     (EVS_STATUS_HANDLED,
      evs_send_bruteforce E c (Some ''/qio'') (Some ''/heartbeat'') None None
        (Some HEARTBEAT_CHALLENGE_CB) None None
        (client_set c heartbeat_challenge_cb_quark (Some (unat client_cb)) w))"

definition in_progress_handler :: "env \<Rightarrow> cid \<Rightarrow> world \<Rightarrow> evs_status \<times> world" where
  "in_progress_handler E c w =
     (case client_get c in_progress_callback_quark w of
        None \<Rightarrow> (EVS_STATUS_ERR, w)
      | Some v \<Rightarrow>
          (case sub_get ev_in_progress None True w of
             (None, w1) \<Rightarrow> (EVS_STATUS_OK, fault w1)
           | (Some sub, w1) \<Rightarrow>
               (let info = \<lparr>oi_ev_extra = None, oi_json = None, oi_sub = sub, oi_client = c,
                            oi_client_cb = word_of_nat v\<rparr>
                in (EVS_STATUS_OK,
                    client_del c in_progress_callback_quark
                      (sub_unref sub (evs_on_cb E True info w1))))))"

definition in_progress_on :: "on_info \<Rightarrow> world \<Rightarrow> evs_status \<times> world" where
  "in_progress_on info w =
     (EVS_STATUS_HANDLED,
      client_set (oi_client info) in_progress_callback_quark (Some (unat (oi_client_cb info))) w)"

definition on_data_on ::
  "(string option \<Rightarrow> guint64 option) \<Rightarrow> env \<Rightarrow> on_info \<Rightarrow> world \<Rightarrow> evs_status \<times> world" where
  "on_data_on unpack E info w =
     (if unpack (oi_json info) = Some 123987
      then (EVS_STATUS_HANDLED, evs_send_info E info (Some ''true'') (evs_on_cb E True info w))
      else (EVS_STATUS_ERR, w))"

definition move_handler :: "env \<Rightarrow> cid \<Rightarrow> string \<Rightarrow> world \<Rightarrow> evs_status \<times> world" where
  "move_handler E c json w =
     (EVS_STATUS_OK,
      qev_close c QIO_CLOSE_MOVED
        (evs_send_bruteforce E c (Some ''/qio'') (Some ''/move'') None (Some json) None None None w))"

definition send_invalid_handler :: "env \<Rightarrow> cid \<Rightarrow> world \<Rightarrow> evs_status \<times> world" where
  "send_invalid_handler E c w =
     (EVS_STATUS_HANDLED,
      protocols_send E c ''unicorns, ponies, princesses, and magic!:good times'' None 0 [] w)"

definition send_unsubscribed_handler :: "env \<Rightarrow> cid \<Rightarrow> world \<Rightarrow> evs_status \<times> world" where
  "send_unsubscribed_handler E c w =
     (EVS_STATUS_HANDLED,
      evs_send_bruteforce E c (Some ''/you/didnt/subscribe/to/this'') None None None None None None w)"

text \<open>The timer.\<close>

definition ct_broadcast :: "world \<Rightarrow> world" where
  "ct_broadcast w = evs_broadcast ev_broadcast None (Some ''\"broadcast event\"'') w"

definition app_init :: "world \<Rightarrow> world" where
  "app_init w =
     (let add = (\<lambda>path h on children w.
            snd (evs_add_handler (Some EV_PREFIX) (Some path) h on None children w));
          plain = (\<lambda>path h children. add path (Some (H_app (ct_number h))) (Some On_no_on) children)
      in add ''/on-data'' None (Some ON_DATA_ON) False
           (plain ''/send-unsubscribed'' Ct_send_unsubscribed False
             (plain ''/send-invalid'' Ct_send_invalid False
               (plain ''/move'' Ct_move False
                 (add ''/in-progress'' (Some (H_app (ct_number Ct_in_progress))) (Some IN_PROGRESS_ON) True
                   (plain ''/heartbeat-challenge'' Ct_heartbeat_challenge False
                     (plain ''/error'' Ct_error True
                       (plain ''/echo'' Ct_echo False
                         (plain ''/drop-callback'' Ct_drop_callback False
                           (plain ''/close'' Ct_close False
                             (add ''/broadcast'' None None False w)))))))))))"

section \<open>The environment of the application\<close>

definition ct_handle ::
  "env \<Rightarrow> ct_handler \<Rightarrow> cid \<Rightarrow> string \<Rightarrow> guint64 \<Rightarrow> string \<Rightarrow> world \<Rightarrow> evs_status \<times> world" where
  "ct_handle E h c ev_extra client_cb json w =
     (case h of
        Ct_close \<Rightarrow> close_handler c w
      | Ct_drop_callback \<Rightarrow> drop_callback_handler w
      | Ct_echo \<Rightarrow> echo_handler E c client_cb json w
      | Ct_error \<Rightarrow> error_handler E c ev_extra client_cb w
      | Ct_heartbeat_challenge \<Rightarrow> heartbeat_challenge_handler E c client_cb w
      | Ct_in_progress \<Rightarrow> in_progress_handler E c w
      | Ct_move \<Rightarrow> move_handler E c json w
      | Ct_send_invalid \<Rightarrow> send_invalid_handler E c w
      | Ct_send_unsubscribed \<Rightarrow> send_unsubscribed_handler E c w)"

text \<open>\<open>E\<close> is the server without applications: it has no off functions.\<close>

definition clienttest_env :: "(string option \<Rightarrow> guint64 option) \<Rightarrow> env \<Rightarrow> env" where
  "clienttest_env unpack E = E\<lparr>
     app_handler := (\<lambda>n c x cb j w.
       if n < length ct_handlers then ct_handle E (ct_handlers ! n) c x cb j w else (EVS_STATUS_OK, w)),
     app_on := (\<lambda>n info w.
       if n = 0 then in_progress_on info w else if n = 1 then on_data_on unpack E info w else (EVS_STATUS_OK, w)),
     app_cb := (\<lambda>n c data cb j w.
       if n = 0 then echo_cb E c cb j w else if n = 1 then heartbeat_challenge_cb E c w else (EVS_STATUS_OK, w))\<rparr>"

lemma ct_numbers: "ct_number h < length ct_handlers" "ct_handlers ! ct_number h = h"
  by (cases h; simp add: ct_handlers_def)+

section \<open>What the functions may change\<close>

context event_frame
begin

lemma to_client_data: "to u w \<Longrightarrow> to u (client_set c key v w)" "to u w \<Longrightarrow> to u (client_del c key w)"
  by (auto simp: client_set_def client_del_def Let_def still_view_def split: option.split intro!: to_steps(8))

lemma to_in_progress: "to u w \<Longrightarrow> to u (snd (in_progress_handler E c w))"
proof -
  assume w: "to u w"
  obtain r w1 where g: "sub_get ev_in_progress None True w = (r, w1)" by (cases "sub_get ev_in_progress None True w")
  have "to u w1" using to_steps(7) [OF w, of ev_in_progress None True] g by simp
  with w show ?thesis
    by (auto simp: in_progress_handler_def g Let_def split: option.split
        intro!: to_client_data to_steps to_on_cb)
qed

lemma to_ct_handle: "to u w \<Longrightarrow> to u (snd (ct_handle E h c x cb json w))"
  by (cases h)
    (auto simp: ct_handle_def close_handler_def drop_callback_handler_def echo_handler_def echo_cb_def error_handler_def
      heartbeat_challenge_handler_def move_handler_def send_invalid_handler_def send_unsubscribed_handler_def
      evs_cb_with_cb_def qev_close_def Let_def split: prod.split
      intro!: to_cb_full to_bruteforce to_client_data to_in_progress to_steps)

lemma to_ct_on:
  assumes "to u w" "oi_client info = c"
  shows "to u (snd (in_progress_on info w))" "to u (snd (on_data_on unpack E info w))"
proof -
  show "to u (snd (in_progress_on info w))"
    unfolding in_progress_on_def assms(2) snd_conv by (rule to_client_data(1) [OF assms(1)])
  show "to u (snd (on_data_on unpack E info w))"
    unfolding on_data_on_def evs_send_info_def evs_send_info_full_def assms(2)
    using assms(1) to_send_sub [OF to_on_cb [OF assms]] by simp
qed

lemma to_ct_cb:
  assumes "to u w"
  shows "to u (snd (echo_cb E c cb json w))" "to u (snd (heartbeat_challenge_cb E c w))"
  using assms
  by (auto simp: echo_cb_def evs_cb_with_cb_def heartbeat_challenge_cb_def split: option.split
      intro!: to_cb_full to_client_data to_evs_cb)

lemma ct_framed:
  assumes "fit w"
  shows "R w (snd (ct_handle E h c x cb json w))"
    "oi_client info = c \<Longrightarrow> R w (snd (in_progress_on info w))" "oi_client info = c \<Longrightarrow> R w (snd (on_data_on unpack E info w))"
    "R w (snd (echo_cb E c cb json w))" "R w (snd (heartbeat_challenge_cb E c w))"
  using to_ct_handle [OF to_refl [OF assms]] to_ct_on [OF to_refl [OF assms]] to_ct_cb [OF to_refl [OF assms]]
  by (simp_all add: to_def)

end

lemma ct_steady:
  assumes "steady_law {} E"
  shows "steady_law {} (clienttest_env unpack E)"
proof -
  have f: "steady {} w (snd (ct_handle E h c x cb json w))"
    "oi_client info = c \<Longrightarrow> steady {} w (snd (in_progress_on info w))"
    "oi_client info = c \<Longrightarrow> steady {} w (snd (on_data_on unpack E info w))"
    "steady {} w (snd (echo_cb E c cb json w))" "steady {} w (snd (heartbeat_challenge_cb E c w))"
    for w c h x cb json info
    using steady_frame.ct_framed [of "{}" E c w] hushed_empty [of c w] assms by blast+
  show ?thesis using f(2,3) [OF refl] f(1,4,5) assms by (auto simp: steady_law_def clienttest_env_def)
qed

lemma proper_env: "is_surrogate E' = is_surrogate E \<Longrightarrow> proper E' C = proper E C"
  by (simp add: fun_eq_iff proper_def live_def)

lemma civil_env:
  assumes "is_surrogate E' = is_surrogate E"
  shows "civil E' C N = civil E C N"
proof (intro ext)
  fix w v
  show "civil E' C N w v = civil E C N w v"
    unfolding civil_def limits_def polls_wf_def sheltered_def unpolled_def proper_env [OF assms] assms by (rule refl)
qed

lemma ct_civil:
  assumes "civil_law E C N"
  shows "civil_law (clienttest_env unpack E) C N"
proof -
  let ?E = "clienttest_env unpack E"
  have s: "is_surrogate ?E = is_surrogate E" by (simp add: clienttest_env_def)
  have f: "civil E C N w (snd (ct_handle E h c x cb json w))"
    "oi_client info = c \<Longrightarrow> civil E C N w (snd (in_progress_on info w))"
    "oi_client info = c \<Longrightarrow> civil E C N w (snd (on_data_on unpack E info w))"
    "civil E C N w (snd (echo_cb E c cb json w))" "civil E C N w (snd (heartbeat_challenge_cb E c w))"
    if "proper E C w c" for w c h x cb json info
    using civil_frame.ct_framed [of E C N w c] that assms by blast+
  show ?thesis
    unfolding civil_law_def civil_env [OF s] proper_env [OF s]
    using f assms by (auto simp: civil_law_def clienttest_env_def)
qed

section \<open>The invariant\<close>

lemma calm_client_data: "calm w (client_set c key v w)" "calm w (client_del c key w)"
  by (auto simp: client_set_def client_del_def Let_def cbs_wf_def split: option.split intro!: calm_upd_client)

lemma bruteforce_inv:
  "random_law E \<Longrightarrow> subs_inv L w \<Longrightarrow> subs_inv L (evs_send_bruteforce E c pre path extra json fn data free_fn w)"
  by (rule calm_inv [OF calm_bruteforce]) (auto dest: subs_invD(2))

lemma ct_handle_inv:
  assumes "random_law E" "subs_inv L w" "h \<noteq> Ct_in_progress"
  shows "subs_inv L (snd (ct_handle E h c x cb json w))"
proof -
  have s: "subs_inv L (protocols_send E c path ex scb j w)" for path ex scb j
    by (rule calm_inv [OF calm_protocols_send assms(2)]) (rule clients_okD [OF subs_invD(2) [OF assms(2)]])
  have q: "subs_inv L (qev_close c r v)" if "subs_inv L v" for r v by (rule calm_inv [OF calm_close that])
  have d: "subs_inv L (client_set c key v w)" for key v by (rule calm_inv [OF calm_client_data(1) assms(2)])
  show ?thesis
    using assms(2,3) s q [OF assms(2)] q [OF bruteforce_inv [OF assms(1,2)]] bruteforce_inv [OF assms(1) d]
      bruteforce_inv [OF assms(1,2)] inv_evs_cb_full [OF assms(1,2)]
    by (cases h)
      (auto simp: ct_handle_def close_handler_def drop_callback_handler_def echo_handler_def echo_cb_def error_handler_def
        heartbeat_challenge_handler_def move_handler_def send_invalid_handler_def send_unsubscribed_handler_def
        evs_cb_with_cb_def Let_def split: prod.split)
qed

text \<open>Not subscribed to the event itself, or not yet: then the acceptance is in order.\<close>

definition may_accept :: "cid \<Rightarrow> world \<Rightarrow> bool" where
  "may_accept c w \<longleftrightarrow>
     (\<forall>sub. w_ev_subs w (ev_path ev_in_progress, []) = Some sub \<longrightarrow> sub_state w c sub \<noteq> CLIENT_SUB_ACTIVE)"

lemma in_progress_inv:
  assumes "random_law E" "off_law E" "subs_inv L w" "sub_room 2 w" "may_accept c w"
  shows "subs_inv L (snd (in_progress_handler E c w))"
proof (cases "client_get c in_progress_callback_quark w")
  case None
  with assms(3) show ?thesis by (simp add: in_progress_handler_def)
next
  case (Some v)
  have r: "sub_room 1 w" by (rule sub_room_mono [OF assms(4)]) simp
  note wf = subs_invD(1) [OF assms(3)]
  obtain q w1 where g: "sub_get ev_in_progress None True w = (q, w1)" by (cases "sub_get ev_in_progress None True w")
  from sub_get_creates [OF wf r g] obtain sub where sub: "q = Some sub"
    "w_ev_subs w (ev_path ev_in_progress, []) = Some sub \<or>
     w_ev_subs w (ev_path ev_in_progress, []) = None \<and> w_sub_heap w sub = None"
    by (cases "w_ev_subs w (ev_path ev_in_progress, [])") (auto simp: extra_or_empty_def)
  note g = g [unfolded sub(1)]
  note i1 = sub_get_inv [OF assms(3) r g]
  have "csub_get c sub w1 = csub_get c sub w"
    by (rule csub_get_cong) (use sub_get_frame(1) [of ev_in_progress None True w] g in simp)
  moreover have "csub_get c sub w = None" if "w_sub_heap w sub = None" using held_heap [OF wf] that by blast
  ultimately have na: "sub_state w1 c sub \<noteq> CLIENT_SUB_ACTIVE"
    using sub(2) assms(5) by (auto simp: may_accept_def sub_state_def)
  let ?info = "\<lparr>oi_ev_extra = None, oi_json = None, oi_sub = sub, oi_client = c, oi_client_cb = word_of_nat v\<rparr>"
  have "subs_inv (L(sub := Suc (L sub))) (evs_on_cb E True ?info w1)"
    by (rule on_cb_inv [OF assms(1,2) i1]) (use na in simp_all)
  from calm_inv [OF calm_client_data(2) sub_unref_inv [OF this, of sub]] show ?thesis
    by (simp add: in_progress_handler_def Some g Let_def)
qed

lemma on_data_inv:
  assumes "random_law E" "off_law E" "subs_inv L w" "L (oi_sub info) \<noteq> 0"
    "sub_state w (oi_client info) (oi_sub info) \<noteq> CLIENT_SUB_ACTIVE"
  shows "subs_inv L (snd (on_data_on unpack E info w))"
proof -
  have i: "subs_inv L (evs_on_cb E True info w)" by (rule on_cb_inv [OF assms(1-4)]) (rule assms(5))
  from calm_inv [OF calm_send_sub [OF assms(1) i] i] assms(3) show ?thesis
    by (simp add: on_data_on_def evs_send_info_def evs_send_info_full_def)
qed

section \<open>Properties\<close>

text \<open>
  C38. The application keeps to what the server asks of applications: its on functions and
  callbacks, and each of its handlers, keep the invariant of the subscriptions, the polls and the
  read buffers. The handler of \<open>/clienttest/in-progress\<close> does so if the client is not actively subscribed to
  the event already.
\<close>

theorem clienttest_obeys:
  assumes "app_laws E" "civil_law E C N" "steady_law {} E"
  shows "on_law (clienttest_env unpack E) \<and> cb_law (clienttest_env unpack E) \<and>
    civil_law (clienttest_env unpack E) C N \<and> steady_law {} (clienttest_env unpack E) \<and>
    (\<forall>L w c h x cb json. subs_inv L w \<and> sub_room 2 w \<and> (h = Ct_in_progress \<longrightarrow> may_accept c w) \<longrightarrow>
       subs_inv L (snd (app_handler (clienttest_env unpack E) (ct_number h) c x cb json w)))"
proof -
  note l = app_lawsD [OF assms(1)]
  have c: "app_handler (clienttest_env unpack E) (ct_number h) c x cb json w = ct_handle E h c x cb json w"
    for h c x cb json w by (simp add: clienttest_env_def ct_numbers)
  have "on_law (clienttest_env unpack E)"
    unfolding on_law_def
    using calm_inv [OF calm_client_data(1)] on_data_inv [OF l(1,2)]
    by (auto simp: clienttest_env_def in_progress_on_def on_data_on_def)
  moreover have "cb_law (clienttest_env unpack E)"
    unfolding cb_law_def
    using inv_evs_cb_full [OF l(1)] calm_inv [OF calm_client_data(2) inv_evs_cb [OF l(1)]]
    by (auto simp: clienttest_env_def echo_cb_def evs_cb_with_cb_def heartbeat_challenge_cb_def split: option.split)
  moreover have "subs_inv L (snd (ct_handle E h c x cb json w))"
    if "subs_inv L w" "sub_room 2 w" "h = Ct_in_progress \<longrightarrow> may_accept c w" for L w c h x cb json
    using ct_handle_inv [OF l(1) that(1), of h] in_progress_inv [OF l(1,2) that(1,2)] that(3)
    by (cases "h = Ct_in_progress") (simp_all add: ct_handle_def)
  ultimately show ?thesis unfolding c using ct_civil [OF assms(2)] ct_steady [OF assms(3)] by blast
qed

lemma clienttest_obeys_witness:
  "cb_law (clienttest_env (\<lambda>_. None) sample_server_env) \<and>
   subs_inv (\<lambda>_. 0) (snd (app_handler (clienttest_env (\<lambda>_. None) sample_server_env) (ct_number Ct_echo) 5 [] 3 ''1'' start_world))"
proof -
  note l = sample_server_laws [unfolded server_laws_def]
  note o = clienttest_obeys [of sample_server_env "{5, 6, 9}" 100 "\<lambda>_. None"]
  have "subs_inv (\<lambda>_. 0) start_world" "sub_room 2 start_world"
    using servedD(1) [OF start_served] served_room [OF server_lawsD(5) [OF sample_server_laws] start_served] by blast+
  then show ?thesis using o l by blast
qed

text \<open>
  What happens otherwise: if the client is subscribed already and a callback is remembered (a
  subscription to a child of the event leaves one), the handler adds the client to the list of
  subscribers a second time, and the invariant is gone: from then on it gets every broadcast twice.
\<close>

theorem in_progress_lists_twice:
  assumes "random_law E" "subs_inv L w" "sub_room 1 w"
    and "w_ev_subs w (ev_path ev_in_progress, []) = Some sub" "sub_state w c sub = CLIENT_SUB_ACTIVE"
    and "client_get c in_progress_callback_quark w = Some v" "list_add E (w_trace w) sub c"
    and "items_law E" "u = snd (in_progress_handler E c w)"
  shows "listed (w_trace u) (sub, c) = 2 \<and> count_list (list_items E (w_trace u) sub) c = 2 \<and> \<not> subs_inv M u"
proof -
  note wf = subs_invD(1) [OF assms(2)]
  obtain q w1 where g: "sub_get ev_in_progress None True w = (q, w1)" by (cases "sub_get ev_in_progress None True w")
  from sub_get_creates [OF wf assms(3) g] assms(4) have q: "q = Some sub" by (auto simp: extra_or_empty_def)
  note i1 = sub_get_inv [OF assms(2,3) g [unfolded q]]
  have f: "w_clients w1 = w_clients w" "w_trace w1 = w_trace w" using sub_get_frame(1,4) [of ev_in_progress None True w] g by simp_all
  have cg: "csub_get d t w1 = csub_get d t w" for d t by (rule csub_get_cong) (rule f)
  from assms(5) obtain cs where cs: "csub_get c sub w = Some cs" "\<not> cs_pending cs" by (auto simp: sub_state_simps)
  have nt: "\<not> cs_tombstone cs" using subs_invD(4) [OF assms(2) cs(1)] cs(2) by blast
  have one: "listed (w_trace w) (sub, c) = 1" using subs_invD(3) [OF assms(2), of sub c] cs by (simp add: listed_as_def)
  have heap: "w_sub_heap w1 sub \<noteq> None"
    by (rule held_heap [OF subs_invD(1) [OF i1], of c]) (simp add: cg cs(1))
  let ?e = "emit (E_list_add sub c True) w1"
  let ?w2 = "csub_write c sub (\<lambda>cs. cs\<lparr>cs_pending := False\<rparr>) ?e"
  have a: "client_sub_accept E c sub w1 = (CLIENT_SUB_ACTIVE, ?w2)"
    using heap cs nt assms(7) by (simp add: client_sub_accept_def cg f Let_def)
  have "clients_ok ?e" using subs_invD(2) [OF i1] by (simp add: clients_ok_def)
  then have ok: "clients_ok ?w2" by (rule clients_ok_write)
  let ?info = "\<lparr>oi_ev_extra = None, oi_json = None, oi_sub = sub, oi_client = c, oi_client_cb = word_of_nat v\<rparr>"
  let ?x = "evs_on_cb E True ?info w1"
  have x: "?x = evs_err_cb E c (word_of_nat v) CODE_OK None None ?w2" by (simp add: evs_on_cb_def a Let_def)
  have cx: "calm ?w2 ?x" unfolding x by (rule calm_evs_err_cb [OF assms(1) ok])
  have ux: "u = client_del c in_progress_callback_quark (sub_unref sub ?x)"
    using assms(6,9) by (simp add: in_progress_handler_def g q Let_def)
  then have t: "listed (w_trace u) = listed (w_trace ?w2)"
    using calm_client_data(2) [of "sub_unref sub ?x" c in_progress_callback_quark] cx by (simp add: calm_def)
  have two: "listed (w_trace u) (sub, c) = 2" using one by (simp add: t f list_step_def)
  moreover have "listed_as s \<le> 1" for s by (simp add: listed_as_def split: option.split)
  then have "listed_as (csub_get c sub u) \<noteq> 2" by (metis one_less_numeral_iff not_le semiring_norm(76))
  ultimately show ?thesis using subs_invD(3) [of M u sub c] assms(8) by (auto simp: items_law_def)
qed

text \<open>Client 5 is subscribed, and has a callback for another acceptance.\<close>

definition sample_ct_world :: world where
  "sample_ct_world =
     client_set 5 in_progress_callback_quark (Some 7)
       (snd (client_sub_accept sample_server_env 5 0
         (snd (client_sub_add sample_server_env 5 0
           (snd (sub_get ev_in_progress None True handshaked_world))))))"

lemma sample_ct_facts:
  "subs_inv ((\<lambda>_. 0)(0 := Suc 0)) sample_ct_world" "sub_room 1 sample_ct_world"
  "w_ev_subs sample_ct_world (ev_path ev_in_progress, []) = Some 0" "sub_state sample_ct_world 5 0 = CLIENT_SUB_ACTIVE"
proof -
  let ?E = sample_server_env let ?L = "(\<lambda>_. 0)(0 := Suc 0) :: sid \<Rightarrow> nat"
  let ?w1 = "snd (sub_get ev_in_progress None True handshaked_world)"
  have g: "sub_get ev_in_progress None True handshaked_world = (Some 0, ?w1)"
    by (simp add: sub_get_def get_if_exists_def new_sub_def handshaked_world_def init_world_def Let_def)
  have i1: "subs_inv ?L ?w1" by (rule sub_get_inv [OF handshaked_world_facts(1,2) g])
  have h1: "sub_room 1 ?w1" "w_sub_heap ?w1 0 \<noteq> None" "c_prot (w_clients ?w1 5) \<noteq> None" "csub_get 5 0 ?w1 = None"
    "w_ev_subs ?w1 (ev_path ev_in_progress, []) = Some 0"
    by (simp_all add: sub_get_def get_if_exists_def new_sub_def handshaked_world_def init_world_def Let_def
        sub_room_def csub_get_def qev_client_new_def)
  have e: "\<not> is_closing ?E tr c" "fair_use ?E tr n" "list_add ?E tr sub c" for tr c n sub
    by (simp_all add: sample_server_env_def sample_env_def)
  obtain r w2 where a: "client_sub_add ?E 5 0 ?w1 = (r, w2)" by (cases "client_sub_add ?E 5 0 ?w1")
  have s2: "subs_inv ?L w2" "sub_state w2 5 0 = CLIENT_SUB_PENDING"
    using add_refines [OF i1 h1(1-3) a] h1(4) e by (auto simp: sub_state_def sub_alloc_def Let_def)
  obtain q w3 where c: "client_sub_accept ?E 5 0 w2 = (q, w3)" by (cases "client_sub_accept ?E 5 0 w2")
  have off: "off_law ?E" using app_lawsD(2) [OF server_lawsD(1) [OF sample_server_laws]] .
  have s3: "subs_inv ?L w3" "sub_state w3 5 0 = CLIENT_SUB_ACTIVE"
    using accept_refines [OF off s2(1) _ c] s2(2) e by auto
  have w: "sample_ct_world = client_set 5 in_progress_callback_quark (Some 7) w3" by (simp add: sample_ct_world_def a c)
  note cm = calm_client_data(1) [of w3 5 in_progress_callback_quark "Some 7"]
  show "subs_inv ?L sample_ct_world" unfolding w by (rule calm_inv [OF cm s3(1)])
  show "sub_state sample_ct_world 5 0 = CLIENT_SUB_ACTIVE" using s3(2) calm_csub_get [OF cm, of 5 0] by (simp add: w sub_state_def)
  obtain cs where cs: "csub_get 5 0 w2 = Some cs" "\<not> cs_tombstone cs" using s2(2) by (auto simp: sub_state_def split: option.splits if_splits)
  have "w_ev_subs w2 = w_ev_subs ?w1 \<and> sub_room 1 w2"
    using a h1 e
    by (auto simp: client_sub_add_def sub_alloc_def Let_def sub_ref_def csub_insert_def sub_room_def
        sub_get_def get_if_exists_def new_sub_def handshaked_world_def init_world_def split: option.splits if_splits)
  moreover have "w_ev_subs w3 = w_ev_subs w2 \<and> w_sub_heap w3 = w_sub_heap w2"
    using c cs e held_heap [OF subs_invD(1) [OF s2(1)], of 5 0]
    by (auto simp: client_sub_accept_def Let_def csub_write_def)
  ultimately have "w_ev_subs w3 (ev_path ev_in_progress, []) = Some 0" "sub_room 1 w3" using h1(5) by (simp_all add: sub_room_def)
  then show "w_ev_subs sample_ct_world (ev_path ev_in_progress, []) = Some 0" "sub_room 1 sample_ct_world"
    using subs_view_eqD(3) [of sample_ct_world w3] cm calm_room [OF cm, of 1] by (simp_all add: w calm_def)
qed

lemma in_progress_lists_twice_witness:
  "listed (w_trace (snd (in_progress_handler sample_server_env 5 sample_ct_world))) (0, 5) = 2"
proof -
  note l = server_lawsD(1,2) [OF sample_server_laws]
  have g: "client_get 5 in_progress_callback_quark sample_ct_world = Some 7"
    by (simp add: sample_ct_world_def client_get_def client_set_def)
  have "list_add sample_server_env (w_trace sample_ct_world) 0 5" by (simp add: sample_server_env_def sample_env_def)
  from in_progress_lists_twice [OF app_lawsD(1) [OF l(1)] sample_ct_facts g this l(2) refl] show ?thesis by blast
qed

lemma app_init_served: "served E C N (\<lambda>_. 0) {} {} (app_init start_world)"
  unfolding app_init_def Let_def by (intro add_handler_served start_served)

end
