(* ===== verification/Apps.thy ===== *)
theory Apps
  imports Server
begin

text \<open>
  Loading applications (\<open>src/apps.c\<close>). Shared objects are GLib's: opening one, looking up its
  symbols and running its functions are fields of \<open>modules\<close>. A failed \<open>ASSERT\<close> ends the process,
  which is the result \<open>None\<close>.
\<close>

section \<open>Modules and applications\<close>

definition QIO_MAGIC_NUM :: guint32 where "QIO_MAGIC_NUM = 0xfc63e18a"
definition PATH_STARTERS :: string where "PATH_STARTERS = [CHR ''.'', CHR ''/'', CHR 0x5C, CHR ''~'']"
definition PATH_LIB_DIR :: string where "PATH_LIB_DIR = ''/usr/lib/quickio''"

text \<open>\<open>GModule *\<close> is a number; a symbol that is missing is \<open>None\<close>.\<close>

record modules =
  module_open :: "string \<Rightarrow> nat option"
  qio_is_app :: "nat \<Rightarrow> guint32 option"
  qio_app_init :: "nat \<Rightarrow> (world \<Rightarrow> bool \<times> world) option"
  qio_app_exit :: "nat \<Rightarrow> (world \<Rightarrow> bool \<times> world) option"
  qio_app_test :: "nat \<Rightarrow> (world \<Rightarrow> bool \<times> world) option"

text \<open>\<open>struct app\<close>; the functions are those of the module.\<close>

record app =
  a_name :: string
  a_mod :: nat
  a_init :: "world \<Rightarrow> bool \<times> world"
  a_exit :: "world \<Rightarrow> bool \<times> world"

definition app_full_path :: "string \<Rightarrow> string" where
  "app_full_path path =
     (if takeWhile (\<lambda>c. c \<in> set PATH_STARTERS) path = [] then PATH_LIB_DIR @ ''/'' @ path else path)"

definition add_app :: "modules \<Rightarrow> string \<Rightarrow> string \<Rightarrow> app list \<times> world \<Rightarrow> (app list \<times> world) option" where
  "add_app M name path s =
     (case s of (apps, w) \<Rightarrow>
        case module_open M (app_full_path path) of
          None \<Rightarrow> None
        | Some mo \<Rightarrow>
            if list_ex (\<lambda>oapp. mo = a_mod oapp) apps then None
            else if qio_is_app M mo \<noteq> Some QIO_MAGIC_NUM then None
            else
              (case (qio_app_init M mo, qio_app_exit M mo) of
                 (Some ini, Some ex) \<Rightarrow>
                   (case ini w of (ok, w1) \<Rightarrow>
                      if ok then Some (apps @ [\<lparr>a_name = name, a_mod = mo, a_init = ini, a_exit = ex\<rparr>], w1)
                      else None)
               | _ \<Rightarrow> None))"

text \<open>\<open>apps_init\<close> listens to a section of the configuration: one call for each entry.\<close>

fun apps_load :: "modules \<Rightarrow> (string \<times> string) list \<Rightarrow> app list \<times> world \<Rightarrow> (app list \<times> world) option" where
  "apps_load M [] s = Some s"
| "apps_load M ((name, path) # entries) s =
     (case add_app M name path s of None \<Rightarrow> None | Some s1 \<Rightarrow> apps_load M entries s1)"

fun apps_cleanup :: "app list \<Rightarrow> world \<Rightarrow> world option" where
  "apps_cleanup [] w = Some w"
| "apps_cleanup (app # apps) w =
     (case a_exit app w of (ok, w1) \<Rightarrow> if ok then apps_cleanup apps w1 else None)"

fun apps_test :: "modules \<Rightarrow> app list \<Rightarrow> world \<Rightarrow> world option" where
  "apps_test M [] w = Some w"
| "apps_test M (app # apps) w =
     (case qio_app_test M (a_mod app) of
        None \<Rightarrow> None
      | Some test \<Rightarrow> (case test w of (ok, w1) \<Rightarrow> if ok then apps_test M apps w1 else None))"

section \<open>The table of applications\<close>

definition apps_ok :: "modules \<Rightarrow> app list \<Rightarrow> bool" where
  "apps_ok M apps \<longleftrightarrow> distinct (map a_mod apps) \<and>
     (\<forall>a \<in> set apps. qio_is_app M (a_mod a) = Some QIO_MAGIC_NUM \<and>
        qio_app_init M (a_mod a) = Some (a_init a) \<and> qio_app_exit M (a_mod a) = Some (a_exit a))"

lemma add_app_cases:
  assumes "add_app M name path (apps, w) = Some (apps', v)"
  obtains a where "apps' = apps @ [a]" "a_name a = name" "module_open M (app_full_path path) = Some (a_mod a)"
    "a_init a w = (True, v)" "apps_ok M apps \<Longrightarrow> apps_ok M apps'"
proof -
  from assms obtain mo ini ex where m: "module_open M (app_full_path path) = Some mo" "mo \<notin> a_mod ` set apps"
    "qio_is_app M mo = Some QIO_MAGIC_NUM" "qio_app_init M mo = Some ini" "qio_app_exit M mo = Some ex" "ini w = (True, v)"
    "apps' = apps @ [\<lparr>a_name = name, a_mod = mo, a_init = ini, a_exit = ex\<rparr>]"
    by (auto simp: add_app_def list_ex_iff split: option.splits if_splits prod.splits)
  show thesis by (rule that [OF m(7)]) (use m in \<open>auto simp: apps_ok_def\<close>)
qed

text \<open>Running functions one after the other, until one fails.\<close>

fun run_all :: "(world \<Rightarrow> bool \<times> world) list \<Rightarrow> world \<Rightarrow> world option" where
  "run_all [] w = Some w"
| "run_all (f # fs) w = (case f w of (ok, w1) \<Rightarrow> if ok then run_all fs w1 else None)"

lemma cleanup_runs: "apps_cleanup apps w = run_all (map a_exit apps) w"
  by (induction apps arbitrary: w) (auto split: prod.split)

lemma apps_load_appends:
  "apps_load M entries (apps, w) = Some (apps', v) \<Longrightarrow> apps_ok M apps \<Longrightarrow>
   \<exists>fresh. apps' = apps @ fresh \<and> apps_ok M apps' \<and> map a_name fresh = map fst entries \<and>
     list_all2 (\<lambda>a entry. module_open M (app_full_path (snd entry)) = Some (a_mod a)) fresh entries \<and>
     run_all (map a_init fresh) w = Some v"
proof (induction entries arbitrary: apps w)
  case (Cons entry entries)
  obtain name path where e: "entry = (name, path)" by (cases entry)
  from Cons.prems(1) obtain apps1 w1 where s: "add_app M name path (apps, w) = Some (apps1, w1)"
    "apps_load M entries (apps1, w1) = Some (apps', v)" by (auto simp: e split: option.splits)
  from add_app_cases [OF s(1)] Cons.prems(2) obtain a where a: "apps1 = apps @ [a]" "a_name a = name" "module_open M (app_full_path path) = Some (a_mod a)"
    "a_init a w = (True, w1)" "apps_ok M apps1" by metis
  from Cons.IH [OF s(2) a(5)] obtain fresh where f: "apps' = apps1 @ fresh" "apps_ok M apps'"
    "map a_name fresh = map fst entries"
    "list_all2 (\<lambda>a entry. module_open M (app_full_path (snd entry)) = Some (a_mod a)) fresh entries"
    "run_all (map a_init fresh) w1 = Some v" by blast
  show ?case by (rule exI [of _ "a # fresh"]) (use a f e in simp)
qed simp

section \<open>Events of the server\<close>

text \<open>What a function that only registers handlers does.\<close>

type_synonym registration =
  "string option \<times> string option \<times> handler_ptr option \<times> on_ptr option \<times> off_ptr option \<times> bool"

definition register :: "registration list \<Rightarrow> world \<Rightarrow> world" where
  "register regs w = fold (\<lambda>(pre, path, h, on, off, ch) v. snd (evs_add_handler pre path h on off ch v)) regs w"

definition finds :: "world \<Rightarrow> string \<Rightarrow> event \<Rightarrow> bool" where
  "finds w path ev \<longleftrightarrow> wf_trie (w_events w) \<and> is_clean path \<and> evs_query (w_events w) path = Q_found ev []"

lemma add_handler_events:
  assumes "wf_trie (w_events w)"
  obtains ok t where "evs_query_insert (w_events w) (evs_make_path pre path None) h on off ch = Some (ok, t)" "wf_trie t"
    "evs_add_handler pre path h on off ch w = (ok, w\<lparr>w_events := t\<rparr>)"
proof -
  note i = evs_query_insert_clean [OF assms evs_make_path_is_clean [of pre path None], of h on off ch]
  then obtain ok t where "evs_query_insert (w_events w) (evs_make_path pre path None) h on off ch = Some (ok, t)"
    by (metis not_None_eq surj_pair)
  with i(2) show thesis by (intro that [of ok t]) (simp_all add: evs_add_handler_def)
qed

lemma add_handler_finds:
  assumes "finds w q ev"
  shows "finds (snd (evs_add_handler pre path h on off ch w)) q ev"
proof -
  have w: "wf_trie (w_events w)" "is_clean q" "evs_query (w_events w) q = Q_found ev []" using assms by (simp_all add: finds_def)
  have r: "\<forall>c \<in> set q. in_range c" "\<forall>c \<in> set (evs_make_path pre path None). in_range c"
    using clean_in_range w(2) evs_make_path_is_clean by blast+
  from w(1) show ?thesis
  proof (rule add_handler_events [of w pre path h on off ch])
    fix ok t assume t: "evs_query_insert (w_events w) (evs_make_path pre path None) h on off ch = Some (ok, t)" "wf_trie t"
      "evs_add_handler pre path h on off ch w = (ok, w\<lparr>w_events := t\<rparr>)"
    from insert_preserves [OF w(1) r(2,1) w(3) t(1)] t w(2) show ?thesis by (simp add: finds_def)
  qed
qed

lemma register_finds: "finds w q ev \<Longrightarrow> finds (register regs w) q ev"
  unfolding register_def by (induction regs arbitrary: w) (auto simp: add_handler_finds)

lemma run_all_finds:
  "\<forall>f \<in> set fs. \<exists>regs ok. f = (\<lambda>w. (ok, register regs w)) \<Longrightarrow> run_all fs w = Some v \<Longrightarrow> finds w q ev \<Longrightarrow> finds v q ev"
proof (induction fs arbitrary: w)
  case (Cons f fs)
  then obtain regs ok where f: "f = (\<lambda>w. (ok, register regs w))" by auto
  with Cons.prems have "run_all fs (register regs w) = Some v" by (auto split: if_splits)
  with Cons.IH [OF _ this register_finds [OF Cons.prems(3)]] Cons.prems(1) show ?case by simp
qed simp

lemma add_handler_event_at:
  assumes "wf_trie (w_events w)" "evs_make_path pre path None = p" "skip_slash p = s" "good_key s" "good_key r"
  shows "wf_trie (w_events (snd (evs_add_handler pre path h on off ch w)))"
    "event_at (w_events (snd (evs_add_handler pre path h on off ch w))) r =
       (case event_at (w_events w) r of
          None \<Rightarrow> if r = s then Some (event_init p h on off ch) else None | Some e \<Rightarrow> Some e)"
proof -
  from assms(1) obtain ok t where t: "evs_query_insert (w_events w) p h on off ch = Some (ok, t)" "wf_trie t"
    "evs_add_handler pre path h on off ch w = (ok, w\<lparr>w_events := t\<rparr>)"
    using assms(2) by (metis add_handler_events)
  then have i: "insert_walk (w_events w) s (event_init p h on off ch) = Some (ok, t)"
    using assms(3,4) by (simp add: evs_query_insert_def good_key_def Let_def)
  show "wf_trie (w_events (snd (evs_add_handler pre path h on off ch w)))" using t by simp
  show "event_at (w_events (snd (evs_add_handler pre path h on off ch w))) r =
       (case event_at (w_events w) r of
          None \<Rightarrow> if r = s then Some (event_init p h on off ch) else None | Some e \<Rightarrow> Some e)"
    using trie.stored_add [OF assms(1,4,5) i] trie.added_iff [OF assms(1,4) i] t by (auto split: option.split)
qed

definition qio_events :: "(string \<times> handler_ptr \<times> bool) list" where
  "qio_events =
     [(''/qio/callback'', H_callback, True), (''/qio/hostname'', H_hostname, False), (''/qio/off'', H_off, False),
      (''/qio/on'', H_on, False), (''/qio/ping'', H_ping, False)]"

lemma qio_paths:
  "evs_make_path (Some ''/qio'') (Some ''/callback'') None = ''/qio/callback''"
  "evs_make_path (Some ''/qio'') (Some ''/hostname'') None = ''/qio/hostname''"
  "evs_make_path (Some ''/qio'') (Some ''/off'') None = ''/qio/off''"
  "evs_make_path (Some ''/qio'') (Some ''/on'') None = ''/qio/on''"
  "evs_make_path (Some ''/qio'') (Some ''/ping'') None = ''/qio/ping''"
  by code_simp+

lemma qio_keys:
  "(path, h, ch) \<in> set qio_events \<Longrightarrow> good_key (skip_slash path) \<and> is_clean path \<and> path = CHR ''/'' # skip_slash path"
proof -
  have "list_all (\<lambda>(path, h, ch). good_key (skip_slash path) \<and> is_clean path \<and> path = CHR ''/'' # skip_slash path) qio_events"
    by (simp add: qio_events_def good_key_def in_range_def skip_slash_def) code_simp
  then show "(path, h, ch) \<in> set qio_events \<Longrightarrow> ?thesis" by (auto simp: list_all_iff)
qed

text \<open>The registry holds a list of registrations, each path with its first.\<close>

definition registry :: "world \<Rightarrow> (string \<times> event) list \<Rightarrow> bool" where
  "registry w xs \<longleftrightarrow> wf_trie (w_events w) \<and> (\<forall>r. good_key r \<longrightarrow> event_at (w_events w) r = map_of xs r)"

lemma registry_add:
  assumes "registry w xs" "evs_make_path pre path None = p" "good_key (skip_slash p)"
  shows "registry (snd (evs_add_handler pre path h on off ch w)) (xs @ [(skip_slash p, event_init p h on off ch)])"
  using add_handler_event_at [OF _ assms(2) refl assms(3)] assms
  by (auto simp: registry_def map_add_def split: option.split)

lemma qio_registry:
  "registry start_world
     (map (\<lambda>(path, h, ch). (skip_slash path, event_init path (Some h) (Some On_no_on) None ch)) qio_events)"
proof -
  have i: "registry init_world []"
    using trie.inv_emp by (simp add: registry_def init_world_def trie.stored_emp)
  have k: "list_all (\<lambda>p. good_key (skip_slash p)) (map fst qio_events)"
    using qio_keys by (force simp: list_all_iff)
  note r = registry_add [where pre = "Some ''/qio''"]
  note r5 = r [OF r [OF r [OF r [OF r [OF i qio_paths(1)] qio_paths(2)] qio_paths(3)] qio_paths(4)] qio_paths(5)]
  show ?thesis unfolding start_world_def evs_qio_init_def Let_def
    using k r5 by (simp add: qio_events_def)
qed

lemma qio_finds:
  assumes "(path, h, ch) \<in> set qio_events"
  shows "finds start_world path (event_init path (Some h) (Some On_no_on) None ch)"
proof -
  let ?e = "event_init path (Some h) (Some On_no_on) None ch"
  note k = qio_keys [OF assms]
  have w: "wf_trie (w_events start_world)" using qio_registry by (simp add: registry_def)
  have "event_at (w_events start_world) (skip_slash path) = Some ?e"
    using qio_registry k assms by (auto simp: registry_def qio_events_def skip_slash_def)
  with k w event_at_node [OF this] evs_query_spec [OF w, of path] show ?thesis
    by (auto simp: finds_def reg_query_def dest: clean_in_range)
qed

section \<open>Properties\<close>

text \<open>
  Loading: if every entry of the configuration loads, the table holds one application for each
  entry, in order, each of another module that carries the magic number and has both functions;
  the init functions have run once each, in that order, all with success; and leaving runs the
  exit functions once each in the same order. Naming a module twice, in whatever spelling, never
  gets past loading.
\<close>

theorem apps_loaded:
  assumes "apps_load M entries ([], w) = Some (apps, v)"
  shows "map a_name apps = map fst entries \<and> apps_ok M apps \<and>
    map (\<lambda>entry. module_open M (app_full_path (snd entry))) entries = map (Some \<circ> a_mod) apps \<and>
    distinct (map (\<lambda>entry. module_open M (app_full_path (snd entry))) entries) \<and>
    run_all (map a_init apps) w = Some v \<and> apps_cleanup apps u = run_all (map a_exit apps) u"
proof -
  from apps_load_appends [OF assms] have a: "map a_name apps = map fst entries" "apps_ok M apps"
    "list_all2 (\<lambda>a entry. module_open M (app_full_path (snd entry)) = Some (a_mod a)) apps entries"
    "run_all (map a_init apps) w = Some v"
    by (auto simp: apps_ok_def)
  from a(3) have m: "map (\<lambda>entry. module_open M (app_full_path (snd entry))) entries = map (Some \<circ> a_mod) apps"
    by (induction rule: list_all2_induct) auto
  moreover have "distinct (map (Some \<circ> a_mod) apps)"
    using a(2) by (auto simp: apps_ok_def distinct_map comp_inj_on_iff inj_on_def)
  ultimately show ?thesis using a cleanup_runs by simp
qed

definition sample_modules :: modules where
  "sample_modules =
     \<lparr>module_open = (\<lambda>path. if path = ''/usr/lib/quickio/chat.so'' then Some 1 else None),
      qio_is_app = (\<lambda>_. Some QIO_MAGIC_NUM),
      qio_app_init = (\<lambda>_. Some (\<lambda>w. (True, register [(None, Some ''/qio/on'', Some (H_app 7), None, None, False)] w))),
      qio_app_exit = (\<lambda>_. Some (\<lambda>w. (True, w))), qio_app_test = (\<lambda>_. None)\<rparr>"

lemma sample_loads: "\<exists>apps v. apps_load sample_modules [(''chat'', ''chat.so'')] ([], start_world) = Some (apps, v)"
  by (simp add: sample_modules_def add_app_def app_full_path_def PATH_STARTERS_def PATH_LIB_DIR_def)

theorem apps_loaded_witness:
  "\<exists>apps v. apps_load sample_modules [(''chat'', ''chat.so'')] ([], start_world) = Some (apps, v) \<and>
     map a_name apps = [''chat''] \<and> map (Some \<circ> a_mod) apps = [Some 1]"
proof -
  obtain apps v where l: "apps_load sample_modules [(''chat'', ''chat.so'')] ([], start_world) = Some (apps, v)"
    using sample_loads by blast
  moreover have "module_open sample_modules (app_full_path ''chat.so'') = Some 1"
    by (simp add: sample_modules_def app_full_path_def PATH_STARTERS_def PATH_LIB_DIR_def)
  ultimately show ?thesis using apps_loaded [OF l] by auto
qed

text \<open>
  C39. The events of the server stay its own: whatever an application registers when it starts
  (any paths, also the ones under \<open>/qio\<close>, any number of times), afterwards each of the paths of
  \<open>evs_qio_init\<close> still finds the handler of the server.
\<close>

theorem internal_events_kept:
  assumes "apps_load M entries ([], start_world) = Some (apps, v)"
    and "\<forall>mo ini. qio_app_init M mo = Some ini \<longrightarrow> (\<exists>regs ok. ini = (\<lambda>w. (ok, register regs w)))"
    and "(path, h, ch) \<in> set qio_events"
  shows "evs_query (w_events v) path = Q_found (event_init path (Some h) (Some On_no_on) None ch) []"
proof -
  from apps_load_appends [OF assms(1)] have "apps_ok M apps" "run_all (map a_init apps) start_world = Some v"
    by (auto simp: apps_ok_def)
  moreover have "\<forall>f \<in> set (map a_init apps). \<exists>regs ok. f = (\<lambda>w. (ok, register regs w))"
    using calculation(1) assms(2) by (auto simp: apps_ok_def)
  ultimately show ?thesis using run_all_finds qio_finds [OF assms(3)] unfolding finds_def by blast
qed

theorem internal_events_kept_witness:
  "\<exists>apps v. apps_load sample_modules [(''chat'', ''chat.so'')] ([], start_world) = Some (apps, v) \<and>
     evs_query (w_events v) ''/qio/on'' = Q_found (event_init ''/qio/on'' (Some H_on) (Some On_no_on) None False) []"
proof -
  obtain apps v where l: "apps_load sample_modules [(''chat'', ''chat.so'')] ([], start_world) = Some (apps, v)"
    using sample_loads by blast
  have "\<forall>mo ini. qio_app_init sample_modules mo = Some ini \<longrightarrow> (\<exists>regs ok. ini = (\<lambda>w. (ok, register regs w)))"
    by (auto simp: sample_modules_def)
  with internal_events_kept [OF l this, of "''/qio/on''" H_on False] l show ?thesis by (auto simp: qio_events_def)
qed

end
