(* ===== verification/Config.thy ===== *)
theory Config
  imports Client_Cb
begin

text \<open>
  The options of the server (\<open>src/config.c\<close>, \<open>src/config.h\<close>) and \<open>client_update_subs_config\<close> of
  \<open>src/client.c\<close>. Parsing and storing options is quick-event's; it calls the validators, and the
  callbacks with the new value. Resolving a name and the limit of clients are parameters.
\<close>

section \<open>The options\<close>

record config =
  k_broadcast_threads :: guint64
  k_clients_cb_max_age :: guint64
  k_clients_subs_total :: guint64
  k_clients_subs_pressure :: guint64
  k_clients_subs_min :: guint64
  k_periodic_threads :: guint64
  k_public_address :: "string option"
  k_run_app_tests :: bool
  k_sub_min_size :: guint64

text \<open>The defaults of \<open>_cfg[]\<close>.\<close>

definition default_config :: config where
  "default_config =
     \<lparr>k_broadcast_threads = 2, k_clients_cb_max_age = 15, k_clients_subs_total = 4194304,
      k_clients_subs_pressure = 60, k_clients_subs_min = 128, k_periodic_threads = 8,
      k_public_address = None, k_run_app_tests = False, k_sub_min_size = 8192\<rparr>"

section \<open>Validation\<close>

text \<open>Whether the value is accepted; for the address, also the value that is stored.\<close>

definition validate_client_cb_max_age :: "guint64 \<Rightarrow> bool" where
  "validate_client_cb_max_age val \<longleftrightarrow> \<not> val = 0"

definition validate_public_address :: "(string \<Rightarrow> bool) \<Rightarrow> string option \<Rightarrow> bool \<times> string option" where
  "validate_public_address resolves val =
     (case val of
        None \<Rightarrow> (True, None)
      | Some s \<Rightarrow> if s = [] then (True, None) else (resolves s, Some s))"

definition validate_sub_min_size :: "guint64 \<Rightarrow> guint64 \<Rightarrow> bool" where
  "validate_sub_min_size max_clients val \<longleftrightarrow> \<not> (val = 0 \<or> max_clients < val)"

definition config_ok :: "(string \<Rightarrow> bool) \<Rightarrow> guint64 \<Rightarrow> config \<Rightarrow> bool" where
  "config_ok resolves max_clients k \<longleftrightarrow>
     validate_client_cb_max_age (k_clients_cb_max_age k) \<and>
     validate_public_address resolves (k_public_address k) = (True, k_public_address k) \<and>
     validate_sub_min_size max_clients (k_sub_min_size k)"

section \<open>The pool of subscriptions\<close>

text \<open>\<open>struct qev_fair\<close>, as far as it is configured.\<close>

record fair_pool =
  fp_total :: guint64
  fp_pressure :: guint64
  fp_min :: guint64

definition client_update_subs_config ::
  "guint64 \<Rightarrow> guint64 \<Rightarrow> guint64 \<Rightarrow> fair_pool option \<Rightarrow> fair_pool option" where
  "client_update_subs_config tot pressure mini pool =
     (case pool of
        None \<Rightarrow> None
      | Some p \<Rightarrow> Some (p\<lparr>fp_total := tot, fp_pressure := pressure, fp_min := mini\<rparr>))"

definition update_client_subs_total :: "config \<Rightarrow> guint64 \<Rightarrow> fair_pool option \<Rightarrow> fair_pool option" where
  "update_client_subs_total k new =
     client_update_subs_config new (k_clients_subs_pressure k) (k_clients_subs_min k)"

definition update_client_subs_pressure :: "config \<Rightarrow> guint64 \<Rightarrow> fair_pool option \<Rightarrow> fair_pool option" where
  "update_client_subs_pressure k new =
     client_update_subs_config (k_clients_subs_total k) new (k_clients_subs_min k)"

definition update_client_subs_min :: "config \<Rightarrow> guint64 \<Rightarrow> fair_pool option \<Rightarrow> fair_pool option" where
  "update_client_subs_min k new =
     client_update_subs_config (k_clients_subs_total k) (k_clients_subs_pressure k) new"

text \<open>A change of one of these options: the callback runs, and quick-event stores the value.\<close>

datatype subs_option = Subs_total | Subs_pressure | Subs_min

fun set_subs_option :: "subs_option \<Rightarrow> guint64 \<Rightarrow> config \<times> fair_pool option \<Rightarrow> config \<times> fair_pool option" where
  "set_subs_option Subs_total new (k, p) = (k\<lparr>k_clients_subs_total := new\<rparr>, update_client_subs_total k new p)"
| "set_subs_option Subs_pressure new (k, p) =
     (k\<lparr>k_clients_subs_pressure := new\<rparr>, update_client_subs_pressure k new p)"
| "set_subs_option Subs_min new (k, p) = (k\<lparr>k_clients_subs_min := new\<rparr>, update_client_subs_min k new p)"

definition pool_of :: "config \<Rightarrow> fair_pool" where
  "pool_of k = \<lparr>fp_total = k_clients_subs_total k, fp_pressure = k_clients_subs_pressure k, fp_min = k_clients_subs_min k\<rparr>"

lemma set_subs_option_pool:
  "set_subs_option q new (k, Some (pool_of k)) = (k', p) \<Longrightarrow> p = Some (pool_of k')"
  by (cases q) (auto simp: pool_of_def client_update_subs_config_def update_client_subs_total_def
      update_client_subs_pressure_def update_client_subs_min_def)

lemma changes_pool:
  "fold (\<lambda>(q, new). set_subs_option q new) changes (k, Some (pool_of k)) = (k', p) \<Longrightarrow> p = Some (pool_of k')"
proof (induction changes arbitrary: k)
  case (Cons ch changes)
  obtain q new where ch: "ch = (q, new)" by (cases ch)
  obtain k1 p1 where s: "set_subs_option q new (k, Some (pool_of k)) = (k1, p1)"
    by (cases "set_subs_option q new (k, Some (pool_of k))")
  with set_subs_option_pool [OF s] Cons show ?case by (simp add: ch)
qed simp

section \<open>Properties\<close>

text \<open>
  However the options are changed at run time, the pool that limits subscriptions is the one
  the options describe; the values of the other two are never lost. The defaults pass every
  validator, if at least 8192 clients may connect.
\<close>

theorem config_followed:
  assumes "fold (\<lambda>(q, new). set_subs_option q new) changes (k, Some (pool_of k)) = (k', p)" "8192 \<le> max_clients"
  shows "p = Some (pool_of k') \<and> config_ok resolves max_clients default_config"
  using changes_pool [OF assms(1)] assms(2)
  by (auto simp: config_ok_def default_config_def validate_client_cb_max_age_def validate_public_address_def
      validate_sub_min_size_def not_less)

lemma config_followed_witness:
  "fold (\<lambda>(q, new). set_subs_option q new) [(Subs_min, 7), (Subs_total, 100)] (default_config, Some (pool_of default_config)) =
     (default_config\<lparr>k_clients_subs_min := 7, k_clients_subs_total := 100\<rparr>,
      Some \<lparr>fp_total = 100, fp_pressure = 60, fp_min = 7\<rparr>) \<and> config_ok (\<lambda>_. False) 8192 default_config"
proof -
  let ?f = "fold (\<lambda>(q, new). set_subs_option q new) [(Subs_min, 7), (Subs_total, 100)] (default_config, Some (pool_of default_config))"
  obtain k' p where f: "?f = (k', p)" by (cases ?f)
  then have k: "k' = default_config\<lparr>k_clients_subs_min := 7, k_clients_subs_total := 100\<rparr>" by auto
  from config_followed [OF f, of 8192] f show ?thesis by (simp add: k pool_of_def default_config_def)
qed



end
