(* ===== verification/Sub_Threads.thy ===== *)
theory Sub_Threads
  imports Sub_Refs
begin

text \<open>
  Subscriptions under concurrency (\<open>src/sub.c\<close>, \<open>src/atomic.h\<close>). Any number of threads call \<open>sub_get\<close>,
  \<open>sub_ref\<close> and \<open>sub_unref\<close>; a step is one access to shared memory, one atomic instruction, one operation on the
  table of an event, or taking or releasing the reader-writer lock of the table. Freed memory may be
  handed out again by the allocator at any time. References are counted by \<open>y_held\<close>: a caller of
  \<open>sub_ref\<close> or \<open>sub_unref\<close> has one, whichever thread it got it from.
\<close>

section \<open>The program\<close>

type_synonym tid = nat

text \<open>
  Where a thread is. Looking for a subscription is the same with the lock for reading and, on the second
  attempt, for writing; the flag \<open>wr\<close> tells which.
\<close>

datatype pc =
    Idle
  | Get_lock bool event string bool
  | Get_look bool event string bool
  | Get_load bool event string bool sid
  | Get_cas bool event string bool sid guint32
  | Get_new event string
  | Get_unlock bool event string bool "sid option"
  | Got event string bool "sid option"
  | Unref_ev sid
  | Unref_dec sid event
  | Unref_lock sid event
  | Unref_look sid event
  | Unref_remove sid event
  | Unref_unlock sid event
  | Unref_free sid

record shared =
  t_heap :: "sid \<Rightarrow> subscription option"
  t_table :: "string \<times> string \<Rightarrow> sid option"
  t_readers :: "string \<Rightarrow> tid set"
  t_writer :: "string \<Rightarrow> tid option"
  t_fault :: bool

definition t_faulty :: "shared \<Rightarrow> shared" where
  "t_faulty h = h\<lparr>t_fault := True\<rparr>"

definition set_refs :: "sid \<Rightarrow> subscription \<Rightarrow> guint32 \<Rightarrow> shared \<Rightarrow> shared" where
  "set_refs sub m n h = h\<lparr>t_heap := (t_heap h)(sub \<mapsto> m\<lparr>sub_refs := n\<rparr>)\<rparr>"

text \<open>\<open>g_rw_lock_*\<close>: taking it waits (\<open>None\<close>) until nobody holds it in a way that excludes this.\<close>

definition rw_lock :: "tid \<Rightarrow> bool \<Rightarrow> string \<Rightarrow> shared \<Rightarrow> shared option" where
  "rw_lock i wr e h =
     (if t_writer h e \<noteq> None \<or> (wr \<and> t_readers h e \<noteq> {}) then None
      else if wr then Some (h\<lparr>t_writer := (t_writer h)(e \<mapsto> i)\<rparr>)
      else Some (h\<lparr>t_readers := (t_readers h)(e := insert i (t_readers h e))\<rparr>))"

definition rw_unlock :: "tid \<Rightarrow> bool \<Rightarrow> string \<Rightarrow> shared \<Rightarrow> shared" where
  "rw_unlock i wr e h =
     (if wr then h\<lparr>t_writer := (t_writer h)(e := None)\<rparr>
      else h\<lparr>t_readers := (t_readers h)(e := t_readers h e - {i})\<rparr>)"

text \<open>No subscription that could be taken.\<close>

definition get_missing :: "bool \<Rightarrow> event \<Rightarrow> string \<Rightarrow> bool \<Rightarrow> pc" where
  "get_missing wr ev x or_create = (if wr then Get_new ev x else Get_unlock wr ev x or_create None)"

text \<open>\<open>sub_get\<close> with \<open>_get_if_exists\<close> and the loop of \<open>atomic_inc_not_zero\<close>; \<open>a\<close> is what the allocator returns.\<close>

fun get_step :: "tid \<Rightarrow> sid \<Rightarrow> pc \<Rightarrow> shared \<Rightarrow> (pc \<times> shared) option" where
  "get_step i a (Get_lock wr ev x oc) h =
     (case rw_lock i wr (ev_path ev) h of None \<Rightarrow> None | Some h1 \<Rightarrow> Some (Get_look wr ev x oc, h1))"
| "get_step i a (Get_look wr ev x oc) h =
     (case t_table h (ev_path ev, x) of
        None \<Rightarrow> Some (get_missing wr ev x oc, h)
      | Some sub \<Rightarrow> Some (Get_load wr ev x oc sub, h))"
| "get_step i a (Get_load wr ev x oc sub) h =
     (case t_heap h sub of
        None \<Rightarrow> Some (Idle, t_faulty h)
      | Some m \<Rightarrow>
          Some (if sub_refs m = 0 then get_missing wr ev x oc else Get_cas wr ev x oc sub (sub_refs m), h))"
| "get_step i a (Get_cas wr ev x oc sub val) h =
     (case t_heap h sub of
        None \<Rightarrow> Some (Idle, t_faulty h)
      | Some m \<Rightarrow>
          if sub_refs m = val then Some (Get_unlock wr ev x oc (Some sub), set_refs sub m (val + 1) h)
          else Some (if sub_refs m = 0 then get_missing wr ev x oc else Get_cas wr ev x oc sub (sub_refs m), h))"
| "get_step i a (Get_new ev x) h =
     Some (Get_unlock True ev x True (Some a),
       h\<lparr>t_heap := (t_heap h)(a \<mapsto> \<lparr>sub_ev = ev, sub_ev_extra = x, sub_refs = 1\<rparr>),
         t_table := (t_table h)((ev_path ev, x) \<mapsto> a)\<rparr>)"
| "get_step i a (Get_unlock wr ev x oc r) h =
     Some (if \<not> wr \<and> r = None \<and> oc then Get_lock True ev x oc else Got ev x oc r, rw_unlock i wr (ev_path ev) h)"
| "get_step i a p h = None"

text \<open>\<open>sub_unref\<close>. The memory is freed in one step.\<close>

fun unref_step :: "tid \<Rightarrow> pc \<Rightarrow> shared \<Rightarrow> (pc \<times> shared) option" where
  "unref_step i (Unref_ev sub) h =
     (case t_heap h sub of None \<Rightarrow> Some (Idle, t_faulty h) | Some m \<Rightarrow> Some (Unref_dec sub (sub_ev m), h))"
| "unref_step i (Unref_dec sub ev) h =
     (case t_heap h sub of
        None \<Rightarrow> Some (Idle, t_faulty h)
      | Some m \<Rightarrow>
          Some (if sub_refs m - 1 = 0 then Unref_lock sub ev else Idle, set_refs sub m (sub_refs m - 1) h))"
| "unref_step i (Unref_lock sub ev) h =
     (case rw_lock i True (ev_path ev) h of None \<Rightarrow> None | Some h1 \<Rightarrow> Some (Unref_look sub ev, h1))"
| "unref_step i (Unref_look sub ev) h =
     (case t_heap h sub of
        None \<Rightarrow> Some (Idle, t_faulty h)
      | Some m \<Rightarrow>
          Some (if t_table h (ev_path ev, sub_ev_extra m) = Some sub then Unref_remove sub ev else Unref_unlock sub ev, h))"
| "unref_step i (Unref_remove sub ev) h =
     (case t_heap h sub of
        None \<Rightarrow> Some (Idle, t_faulty h)
      | Some m \<Rightarrow> Some (Unref_unlock sub ev, h\<lparr>t_table := (t_table h)((ev_path ev, sub_ev_extra m) := None)\<rparr>))"
| "unref_step i (Unref_unlock sub ev) h = Some (Unref_free sub, rw_unlock i True (ev_path ev) h)"
| "unref_step i (Unref_free sub) h =
     (case t_heap h sub of
        None \<Rightarrow> Some (Idle, t_faulty h)
      | Some m \<Rightarrow> Some (Idle, h\<lparr>t_heap := (t_heap h)(sub := None)\<rparr>))"
| "unref_step i p h = None"

section \<open>The threads\<close>

record sys =
  y_shared :: shared
  y_pcs :: "tid \<Rightarrow> pc"
  y_held :: "sid \<Rightarrow> nat"

abbreviation y_upd :: "tid \<Rightarrow> pc \<Rightarrow> shared \<Rightarrow> sys \<Rightarrow> sys" where
  "y_upd i p h s \<equiv> s\<lparr>y_shared := h, y_pcs := (y_pcs s)(i := p)\<rparr>"

definition t_sub_ref :: "sid \<Rightarrow> shared \<Rightarrow> shared" where
  "t_sub_ref sub h =
     (case t_heap h sub of None \<Rightarrow> t_faulty h | Some m \<Rightarrow> set_refs sub m (sub_refs m + 1) h)"

inductive thread_step :: "sys \<Rightarrow> sys \<Rightarrow> bool" where
  call_get: "y_pcs s i = Idle \<Longrightarrow> thread_step s (y_upd i (Get_lock False ev x oc) (y_shared s) s)"
| call_ref: "y_pcs s i = Idle \<Longrightarrow> y_held s sub \<noteq> 0 \<Longrightarrow>
    thread_step s (s\<lparr>y_shared := t_sub_ref sub (y_shared s), y_held := (y_held s)(sub := Suc (y_held s sub))\<rparr>)"
| call_unref: "y_pcs s i = Idle \<Longrightarrow> y_held s sub \<noteq> 0 \<Longrightarrow>
    thread_step s (y_upd i (Unref_ev sub) (y_shared s) s\<lparr>y_held := (y_held s)(sub := y_held s sub - 1)\<rparr>)"
| run_get: "get_step i a (y_pcs s i) (y_shared s) = Some (p, h) \<Longrightarrow> t_heap (y_shared s) a = None \<Longrightarrow>
    thread_step s (y_upd i p h s)"
| run_unref: "unref_step i (y_pcs s i) (y_shared s) = Some (p, h) \<Longrightarrow> thread_step s (y_upd i p h s)"
| return_None: "y_pcs s i = Got ev x oc None \<Longrightarrow> thread_step s (y_upd i Idle (y_shared s) s)"
| return_Some: "y_pcs s i = Got ev x oc (Some sub) \<Longrightarrow>
    thread_step s (y_upd i Idle (y_shared s) s\<lparr>y_held := (y_held s)(sub := Suc (y_held s sub))\<rparr>)"

definition y_start :: sys where
  "y_start =
     \<lparr>y_shared = \<lparr>t_heap = (\<lambda>_. None), t_table = (\<lambda>_. None), t_readers = (\<lambda>_. {}), t_writer = (\<lambda>_. None), t_fault = False\<rparr>,
      y_pcs = (\<lambda>_. Idle), y_held = (\<lambda>_. 0)\<rparr>"

section \<open>The invariant\<close>

text \<open>A thread inside \<open>sub_get\<close> or \<open>sub_unref\<close> that has a reference of its own.\<close>

fun owns :: "pc \<Rightarrow> sid \<Rightarrow> bool" where
  "owns (Get_unlock wr ev x oc r) sub = (r = Some sub)"
| "owns (Got ev x oc r) sub = (r = Some sub)"
| "owns (Unref_ev b) sub = (b = sub)"
| "owns (Unref_dec b ev) sub = (b = sub)"
| "owns p sub = False"

text \<open>A thread that has taken the count to zero and has not freed the memory yet.\<close>

fun ends :: "pc \<Rightarrow> sid \<Rightarrow> bool" where
  "ends (Unref_lock b ev) sub = (b = sub)"
| "ends (Unref_look b ev) sub = (b = sub)"
| "ends (Unref_remove b ev) sub = (b = sub)"
| "ends (Unref_unlock b ev) sub = (b = sub)"
| "ends (Unref_free b) sub = (b = sub)"
| "ends p sub = False"

text \<open>The lock a thread holds, and whether for writing.\<close>

fun sect :: "pc \<Rightarrow> (string \<times> bool) option" where
  "sect (Get_look wr ev x oc) = Some (ev_path ev, wr)"
| "sect (Get_load wr ev x oc sub) = Some (ev_path ev, wr)"
| "sect (Get_cas wr ev x oc sub val) = Some (ev_path ev, wr)"
| "sect (Get_new ev x) = Some (ev_path ev, True)"
| "sect (Get_unlock wr ev x oc r) = Some (ev_path ev, wr)"
| "sect (Unref_look sub ev) = Some (ev_path ev, True)"
| "sect (Unref_remove sub ev) = Some (ev_path ev, True)"
| "sect (Unref_unlock sub ev) = Some (ev_path ev, True)"
| "sect p = None"

definition owners :: "(tid \<Rightarrow> pc) \<Rightarrow> sid \<Rightarrow> tid set" where
  "owners f sub = {i. owns (f i) sub}"

definition owed :: "sys \<Rightarrow> sid \<Rightarrow> nat" where
  "owed s sub = y_held s sub + card (owners (y_pcs s) sub)"

text \<open>Fewer references than a counter of 32 bits can count.\<close>

definition countable_refs :: "sys \<Rightarrow> bool" where
  "countable_refs s \<longleftrightarrow> (\<forall>sub. owed s sub < 2 ^ 32)"

abbreviation refs_at :: "shared \<Rightarrow> sid \<Rightarrow> string \<times> string \<Rightarrow> guint32 \<Rightarrow> bool" where
  "refs_at h sub k n \<equiv> (\<exists>m. t_heap h sub = Some m \<and> sub_key m = k \<and> sub_refs m = n)"

text \<open>What a thread may rely on where it is.\<close>

fun pc_ok :: "shared \<Rightarrow> pc \<Rightarrow> bool" where
  "pc_ok h (Get_lock wr ev x oc) = (wr \<longrightarrow> oc)"
| "pc_ok h (Get_look wr ev x oc) = (wr \<longrightarrow> oc)"
| "pc_ok h (Get_load wr ev x oc sub) = ((wr \<longrightarrow> oc) \<and> t_table h (ev_path ev, x) = Some sub)"
| "pc_ok h (Get_cas wr ev x oc sub val) = ((wr \<longrightarrow> oc) \<and> t_table h (ev_path ev, x) = Some sub \<and> val \<noteq> 0)"
| "pc_ok h (Get_new ev x) = (\<forall>sub. t_table h (ev_path ev, x) = Some sub \<longrightarrow> refs_at h sub (ev_path ev, x) 0)"
| "pc_ok h (Get_unlock wr ev x oc r) =
     ((wr \<longrightarrow> oc \<and> r \<noteq> None) \<and> (\<forall>sub. r = Some sub \<longrightarrow> (\<exists>n. refs_at h sub (ev_path ev, x) n)))"
| "pc_ok h (Got ev x oc r) =
     ((oc \<longrightarrow> r \<noteq> None) \<and> (\<forall>sub. r = Some sub \<longrightarrow> (\<exists>n. refs_at h sub (ev_path ev, x) n)))"
| "pc_ok h (Unref_dec sub ev) = (\<exists>x n. refs_at h sub (ev_path ev, x) n)"
| "pc_ok h (Unref_lock sub ev) = (\<exists>x. refs_at h sub (ev_path ev, x) 0)"
| "pc_ok h (Unref_look sub ev) = (\<exists>x. refs_at h sub (ev_path ev, x) 0)"
| "pc_ok h (Unref_remove sub ev) = (\<exists>x. refs_at h sub (ev_path ev, x) 0 \<and> t_table h (ev_path ev, x) = Some sub)"
| "pc_ok h (Unref_unlock sub ev) = (\<exists>x. refs_at h sub (ev_path ev, x) 0 \<and> t_table h (ev_path ev, x) \<noteq> Some sub)"
| "pc_ok h (Unref_free sub) = (\<exists>m. t_heap h sub = Some m \<and> sub_refs m = 0 \<and> t_table h (sub_key m) \<noteq> Some sub)"
| "pc_ok h p = True"

definition locks_ok :: "shared \<Rightarrow> (tid \<Rightarrow> pc) \<Rightarrow> bool" where
  "locks_ok h f \<longleftrightarrow>
     (\<forall>e i. i \<in> t_readers h e \<longleftrightarrow> sect (f i) = Some (e, False)) \<and>
     (\<forall>e i. t_writer h e = Some i \<longleftrightarrow> sect (f i) = Some (e, True)) \<and>
     (\<forall>e i j wr. sect (f i) = Some (e, True) \<longrightarrow> sect (f j) = Some (e, wr) \<longrightarrow> j = i)"

definition memory_ok :: "shared \<Rightarrow> bool" where
  "memory_ok h \<longleftrightarrow> \<not> t_fault h \<and>
     (\<forall>k sub. t_table h k = Some sub \<longrightarrow> (\<exists>m. t_heap h sub = Some m \<and> sub_key m = k)) \<and>
     (\<forall>sub m. t_heap h sub = Some m \<longrightarrow> sub_refs m \<noteq> 0 \<longrightarrow> t_table h (sub_key m) = Some sub)"

definition counts_ok :: "sys \<Rightarrow> bool" where
  "counts_ok s \<longleftrightarrow>
     (\<forall>sub. owed s sub = (case t_heap (y_shared s) sub of None \<Rightarrow> 0 | Some m \<Rightarrow> unat (sub_refs m)))"

definition ends_ok :: "shared \<Rightarrow> (tid \<Rightarrow> pc) \<Rightarrow> bool" where
  "ends_ok h f \<longleftrightarrow>
     (\<forall>sub i j. ends (f i) sub \<longrightarrow> ends (f j) sub \<longrightarrow> i = j) \<and>
     (\<forall>sub m. t_heap h sub = Some m \<longrightarrow> sub_refs m = 0 \<longrightarrow> (\<exists>i. ends (f i) sub))"

definition threads_ok :: "sys \<Rightarrow> bool" where
  "threads_ok s \<longleftrightarrow> finite {i. y_pcs s i \<noteq> Idle} \<and> locks_ok (y_shared s) (y_pcs s) \<and> memory_ok (y_shared s) \<and>
     counts_ok s \<and> ends_ok (y_shared s) (y_pcs s) \<and> (\<forall>i. pc_ok (y_shared s) (y_pcs s i))"

lemma threads_okD:
  assumes "threads_ok s"
  shows "finite {i. y_pcs s i \<noteq> Idle}" "locks_ok (y_shared s) (y_pcs s)" "memory_ok (y_shared s)" "counts_ok s"
    "ends_ok (y_shared s) (y_pcs s)" "pc_ok (y_shared s) (y_pcs s i)"
  using assms by (simp_all add: threads_ok_def)

lemma memory_okD:
  assumes "memory_ok h"
  shows "\<not> t_fault h" "t_table h k = Some sub \<Longrightarrow> \<exists>m. t_heap h sub = Some m \<and> sub_key m = k"
    "t_heap h sub = Some m \<Longrightarrow> sub_refs m \<noteq> 0 \<Longrightarrow> t_table h (sub_key m) = Some sub"
  using assms unfolding memory_ok_def by blast+

lemma memory_okI:
  assumes "\<not> t_fault h" "\<And>k sub. t_table h k = Some sub \<Longrightarrow> \<exists>m. t_heap h sub = Some m \<and> sub_key m = k"
    "\<And>sub m. t_heap h sub = Some m \<Longrightarrow> sub_refs m \<noteq> 0 \<Longrightarrow> t_table h (sub_key m) = Some sub"
  shows "memory_ok h"
  using assms unfolding memory_ok_def by blast

lemma ends_okI:
  assumes "\<And>sub i j. ends (f i) sub \<Longrightarrow> ends (f j) sub \<Longrightarrow> i = j"
    "\<And>sub m. t_heap h sub = Some m \<Longrightarrow> sub_refs m = 0 \<Longrightarrow> \<exists>i. ends (f i) sub"
  shows "ends_ok h f"
  using assms unfolding ends_ok_def by blast

lemma ends_okD:
  assumes "ends_ok h f"
  shows "ends (f i) sub \<Longrightarrow> ends (f j) sub \<Longrightarrow> i = j" "t_heap h sub = Some m \<Longrightarrow> sub_refs m = 0 \<Longrightarrow> \<exists>i. ends (f i) sub"
  using assms unfolding ends_ok_def by blast+

lemma threads_ok_start: "threads_ok y_start"
  by (simp add: threads_ok_def y_start_def locks_ok_def memory_ok_def counts_ok_def ends_ok_def owed_def owners_def)

section \<open>Locks\<close>

lemma locks_keep:
  "locks_ok h f \<Longrightarrow> sect p = sect (f i) \<Longrightarrow> t_readers h' = t_readers h \<Longrightarrow> t_writer h' = t_writer h \<Longrightarrow>
   locks_ok h' (f(i := p))"
proof -
  assume "sect p = sect (f i)"
  then have "sect ((f(i := p)) j) = sect (f j)" for j by simp
  then show "locks_ok h f \<Longrightarrow> t_readers h' = t_readers h \<Longrightarrow> t_writer h' = t_writer h \<Longrightarrow> ?thesis"
    unfolding locks_ok_def by presburger
qed

lemma locks_okD:
  assumes "locks_ok h f"
  shows "i \<in> t_readers h e \<longleftrightarrow> sect (f i) = Some (e, False)" "t_writer h e = Some i \<longleftrightarrow> sect (f i) = Some (e, True)"
    "sect (f i) = Some (e, True) \<Longrightarrow> sect (f j) = Some (e, wr) \<Longrightarrow> j = i"
  using assms unfolding locks_ok_def by blast+

lemma locks_take:
  assumes "locks_ok h f" "sect (f i) = None" "rw_lock i wr e h = Some h'" "sect p = Some (e, wr)"
  shows "locks_ok h' (f(i := p))"
proof -
  note l = locks_okD [OF assms(1)]
  have nw: "sect (f j) \<noteq> Some (e, True)" for j using assms(3) l(2) [of e j] by (auto simp: rw_lock_def split: if_splits)
  have nr: "sect (f j) \<noteq> Some (e, False)" if wr for j
    using assms(3) l(1) [of j e] that by (auto simp: rw_lock_def split: if_splits)
  have x: "j' = j" if "sect ((f(i := p)) j) = Some (e', True)" "sect ((f(i := p)) j') = Some (e', b)" for j j' e' b
    using that nw nr l(3) [of j e' j' b] assms(4) by (cases b) (auto split: if_splits)
  have r: "t_readers h' e' = (if \<not> wr \<and> e' = e then insert i (t_readers h e') else t_readers h e')"
    "t_writer h' e' = (if wr \<and> e' = e then Some i else t_writer h e')" for e'
    using assms(3) by (auto simp: rw_lock_def split: if_splits)
  have "j \<in> t_readers h' e' \<longleftrightarrow> sect ((f(i := p)) j) = Some (e', False)" for j e'
    using r(1) [of e'] l(1) [of j e'] assms(2,4) by auto
  moreover have "t_writer h' e' = Some j \<longleftrightarrow> sect ((f(i := p)) j) = Some (e', True)" for j e'
    using r(2) [of e'] l(2) [of e' j] assms(2,4) nw [of j] by auto
  ultimately show ?thesis using x unfolding locks_ok_def by blast
qed

lemma locks_release:
  assumes "locks_ok h f" "sect (f i) = Some (e, wr)" "sect p = None"
  shows "locks_ok (rw_unlock i wr e h) (f(i := p))"
proof -
  note l = locks_okD [OF assms(1)]
  have x: "j' = j" if "sect ((f(i := p)) j) = Some (e', True)" "sect ((f(i := p)) j') = Some (e', b)" for j j' e' b
    using that l(3) [of j e' j' b] assms(3) by (auto split: if_splits)
  have "j \<in> t_readers (rw_unlock i wr e h) e' \<longleftrightarrow> sect ((f(i := p)) j) = Some (e', False)" for j e'
    using l(1) [of j e'] assms(2,3) by (auto simp: rw_unlock_def)
  moreover have "t_writer (rw_unlock i wr e h) e' = Some j \<longleftrightarrow> sect ((f(i := p)) j) = Some (e', True)" for j e'
  proof (cases "wr \<and> e' = e")
    case True
    then have "j = i" if "sect (f j) = Some (e', True)" using l(3) [of i e' j True] assms(2) that by simp
    with True assms(3) show ?thesis by (auto simp: rw_unlock_def)
  next
    case False
    then have "sect (f i) \<noteq> Some (e', True)" using assms(2) by auto
    with False l(2) [of e' j] assms(3) show ?thesis by (auto simp: rw_unlock_def)
  qed
  ultimately show ?thesis using x unfolding locks_ok_def by blast
qed

lemma exclusive: "locks_ok h f \<Longrightarrow> sect (f i) = Some (e, True) \<Longrightarrow> j \<noteq> i \<Longrightarrow> sect (f j) \<noteq> Some (e, wr)"
  using locks_okD(3) by blast

lemma rw_lock_memory: "rw_lock i wr e h = Some h' \<Longrightarrow> t_heap h' = t_heap h \<and> t_table h' = t_table h \<and> t_fault h' = t_fault h"
  by (auto simp: rw_lock_def split: if_splits)

lemma rw_unlock_memory [simp]:
  "t_heap (rw_unlock i wr e h) = t_heap h" "t_table (rw_unlock i wr e h) = t_table h" "t_fault (rw_unlock i wr e h) = t_fault h"
  by (simp_all add: rw_unlock_def)

lemma set_refs_simps [simp]:
  "t_heap (set_refs sub m n h) = (t_heap h)(sub \<mapsto> m\<lparr>sub_refs := n\<rparr>)" "t_table (set_refs sub m n h) = t_table h"
  "t_readers (set_refs sub m n h) = t_readers h" "t_writer (set_refs sub m n h) = t_writer h"
  "t_fault (set_refs sub m n h) = t_fault h"
  by (simp_all add: set_refs_def)

section \<open>Counts\<close>

lemma owners_finite: "finite {i. f i \<noteq> Idle} \<Longrightarrow> finite (owners f sub)"
  by (rule finite_subset [of _ "{i. f i \<noteq> Idle}"]) (auto simp: owners_def)

lemma owners_upd: "owners (f(i := p)) sub = (if owns p sub then insert i (owners f sub) else owners f sub - {i})"
  by (auto simp: owners_def)

lemma card_owners_upd:
  assumes "finite {i. f i \<noteq> Idle}"
  shows "card (owners (f(i := p)) sub) + of_bool (owns (f i) sub) = card (owners f sub) + of_bool (owns p sub)"
proof -
  note f = owners_finite [OF assms, of sub]
  have i: "i \<in> owners f sub \<longleftrightarrow> owns (f i) sub" by (simp add: owners_def)
  show ?thesis
  proof (cases "owns (f i) sub")
    case True
    then have "0 < card (owners f sub)" using i f by (auto simp: card_gt_0_iff)
    then show ?thesis using True i f by (simp add: owners_upd insert_absorb card_Diff_singleton)
  next
    case False
    then show ?thesis using i f by (simp add: owners_upd)
  qed
qed

lemma owed_upd:
  assumes "finite {i. y_pcs s i \<noteq> Idle}"
  shows "owed (y_upd i p h s) sub + of_bool (owns (y_pcs s i) sub) = owed s sub + of_bool (owns p sub)"
  using card_owners_upd [OF assms, of i p sub] by (simp add: owed_def)

lemma finite_upd: "finite {i. f i \<noteq> Idle} \<Longrightarrow> finite {j. (f(i := p)) j \<noteq> Idle}"
  by (rule finite_subset [of _ "insert i {i. f i \<noteq> Idle}"]) auto

section \<open>Steps without effect on the memory\<close>

lemma pc_ok_cong: "t_heap h' = t_heap h \<Longrightarrow> t_table h' = t_table h \<Longrightarrow> pc_ok h' p = pc_ok h p"
  by (cases p) simp_all

lemma memory_ok_cong: "t_heap h' = t_heap h \<Longrightarrow> t_table h' = t_table h \<Longrightarrow> t_fault h' = t_fault h \<Longrightarrow> memory_ok h' = memory_ok h"
  by (simp add: memory_ok_def)

lemma quiet_step:
  assumes "threads_ok s" "t_heap h = t_heap (y_shared s)" "t_table h = t_table (y_shared s)" "t_fault h = t_fault (y_shared s)"
    and "locks_ok h ((y_pcs s)(i := p))" "pc_ok (y_shared s) p"
    and "\<And>sub. owns p sub = owns (y_pcs s i) sub" "\<And>sub. ends p sub = ends (y_pcs s i) sub"
  shows "threads_ok (y_upd i p h s)"
proof -
  note k = threads_okD [OF assms(1)]
  have e: "ends (((y_pcs s)(i := p)) j) sub = ends (y_pcs s j) sub" for j sub using assms(8) by simp
  have "owed (y_upd i p h s) sub = owed s sub" for sub using owed_upd [OF k(1), of i p h sub] assms(7) by simp
  then have "counts_ok (y_upd i p h s)" using k(4) assms(2) by (simp add: counts_ok_def)
  moreover have "ends_ok h ((y_pcs s)(i := p))" using k(5) unfolding ends_ok_def e assms(2) by blast
  ultimately show ?thesis
    using finite_upd [OF k(1)] memory_ok_cong [OF assms(2,3,4)] k assms(5,6) pc_ok_cong [OF assms(2,3)]
    by (simp add: threads_ok_def)
qed

section \<open>Steps with an effect\<close>

lemma sub_key_refs [simp]: "sub_key (m\<lparr>sub_refs := n\<rparr>) = sub_key m"
  by (simp add: sub_key_def)

lemma counts_okD: "counts_ok s \<Longrightarrow> owed s sub = (case t_heap (y_shared s) sub of None \<Rightarrow> 0 | Some m \<Rightarrow> unat (sub_refs m))"
  by (simp add: counts_ok_def)

lemma set_refs_memory:
  assumes "memory_ok h" "t_heap h sub = Some m" "sub_refs m \<noteq> 0"
  shows "memory_ok (set_refs sub m n h)"
proof -
  note d = memory_okD [OF assms(1)]
  show ?thesis
  proof (rule memory_okI)
    show "\<exists>m'. t_heap (set_refs sub m n h) b = Some m' \<and> sub_key m' = k" if "t_table (set_refs sub m n h) k = Some b" for k b
      using d(2) [of k b] that assms(2) by auto
  qed (use d(1) d(3) assms(2,3) in \<open>auto split: if_splits\<close>)
qed

lemma set_refs_pc:
  assumes "t_heap h sub = Some m" "sub_refs m \<noteq> 0" "pc_ok h q"
  shows "pc_ok (set_refs sub m n h) q"
  using assms by (cases q) auto

lemma set_refs_ends:
  assumes "ends_ok h f" "t_heap h sub = Some m" "sub_refs m \<noteq> 0" "n \<noteq> 0"
  shows "ends_ok (set_refs sub m n h) f"
  using assms unfolding ends_ok_def by (auto split: if_splits)

lemma ends_ok_cong: "t_heap h' = t_heap h \<Longrightarrow> ends_ok h' f = ends_ok h f"
  by (simp only: ends_ok_def)

lemma ends_ok_upd:
  assumes "ends_ok h f" "\<And>sub. ends p sub = ends (f i) sub"
  shows "ends_ok h (f(i := p))"
proof -
  have "ends ((f(i := p)) j) sub = ends (f j) sub" for j sub using assms(2) by simp
  then show ?thesis using assms(1) unfolding ends_ok_def by presburger
qed

text \<open>One more reference: the counter does not wrap.\<close>

lemma counts_inc:
  assumes "counts_ok s" "t_heap (y_shared s) sub = Some m" "y_shared s' = set_refs sub m (sub_refs m + 1) (y_shared s)"
    and "\<And>b. owed s' b = owed s b + of_bool (b = sub)" "countable_refs s'"
  shows "counts_ok s' \<and> sub_refs m + 1 \<noteq> 0"
proof -
  note o = counts_okD [OF assms(1)]
  have "owed s' sub < 2 ^ 32" using assms(5) unfolding countable_refs_def by blast
  then have "unat (sub_refs m) + 1 < 2 ^ 32" using assms(4) [of sub] o [of sub] assms(2) by simp
  then have u: "unat (sub_refs m + 1) = unat (sub_refs m) + 1" by (simp add: unat_word_ariths(1))
  then have "sub_refs m + 1 \<noteq> 0" by (metis add_is_0 one_neq_zero unat_0)
  moreover have "counts_ok s'" using o assms(2,4) u by (auto simp: counts_ok_def assms(3))
  ultimately show ?thesis by blast
qed

lemma step_cas:
  assumes "threads_ok s" "y_pcs s i = Get_cas wr ev x oc sub (sub_refs m)" "t_heap (y_shared s) sub = Some m"
    and s': "s' = y_upd i (Get_unlock wr ev x oc (Some sub)) (set_refs sub m (sub_refs m + 1) (y_shared s)) s" and "countable_refs s'"
  shows "threads_ok s'"
proof -
  note k = threads_okD [OF assms(1)]
  have p: "sub_refs m \<noteq> 0" "wr \<longrightarrow> oc" "t_table (y_shared s) (ev_path ev, x) = Some sub" using k(6) [of i] assms(2) by simp_all
  have key: "sub_key m = (ev_path ev, x)" using memory_okD(2) [OF k(3) p(3)] assms(3) by auto
  have "owed s' b = owed s b + of_bool (b = sub)" for b
    using owed_upd [OF k(1), of i "Get_unlock wr ev x oc (Some sub)" _ b] assms(2) by (simp add: s' eq_commute)
  from counts_inc [OF k(4) assms(3) _ this assms(5)] have c: "counts_ok s'" "sub_refs m + 1 \<noteq> 0" by (simp_all add: s')
  have "locks_ok (y_shared s') (y_pcs s')" using locks_keep [OF k(2), of _ i] assms(2) by (simp add: s')
  moreover have "ends_ok (y_shared s') (y_pcs s')"
    using set_refs_ends [OF ends_ok_upd [OF k(5)] assms(3) p(1) c(2)] assms(2) by (simp add: s')
  moreover have "pc_ok (y_shared s') (y_pcs s' j)" for j
    using set_refs_pc [OF assms(3) p(1) k(6) [of j]] p(2) key by (simp add: s' sub_key_def)
  ultimately show ?thesis
    using c(1) finite_upd [OF k(1)] set_refs_memory [OF k(3) assms(3) p(1)] by (simp add: threads_ok_def s')
qed

lemma held_refs:
  assumes "threads_ok s" "owed s sub \<noteq> 0"
  obtains m where "t_heap (y_shared s) sub = Some m" "sub_refs m \<noteq> 0"
proof -
  have "owed s sub = (case t_heap (y_shared s) sub of None \<Rightarrow> 0 | Some m \<Rightarrow> unat (sub_refs m))"
    by (rule counts_okD [OF threads_okD(4) [OF assms(1)]])
  with assms(2) obtain m where "t_heap (y_shared s) sub = Some m" "unat (sub_refs m) \<noteq> 0"
    by (cases "t_heap (y_shared s) sub") auto
  with that show thesis by (metis unat_0)
qed

lemma step_ref:
  assumes "threads_ok s" "y_held s sub \<noteq> 0" "countable_refs s'"
    and s': "s' = s\<lparr>y_shared := t_sub_ref sub (y_shared s), y_held := (y_held s)(sub := Suc (y_held s sub))\<rparr>"
  shows "threads_ok s'"
proof -
  note k = threads_okD [OF assms(1)]
  obtain m where m: "t_heap (y_shared s) sub = Some m" "sub_refs m \<noteq> 0"
    using held_refs [OF assms(1), of sub] assms(2) by (auto simp: owed_def)
  then have h: "y_shared s' = set_refs sub m (sub_refs m + 1) (y_shared s)" by (simp add: s' t_sub_ref_def)
  have "owed s' b = owed s b + of_bool (b = sub)" for b by (simp add: s' owed_def)
  from counts_inc [OF k(4) m(1) h this assms(3)] have c: "counts_ok s'" "sub_refs m + 1 \<noteq> 0" by simp_all
  show ?thesis
    unfolding threads_ok_def h
    using c(1) k(1) k(2) set_refs_memory [OF k(3) m] set_refs_ends [OF k(5) m c(2)] set_refs_pc [OF m k(6)]
    by (auto simp: s' locks_ok_def)
qed

text \<open>A new subscription. The entry it replaces, if there is one, is on its way out.\<close>

definition with_new :: "sid \<Rightarrow> event \<Rightarrow> string \<Rightarrow> shared \<Rightarrow> shared" where
  "with_new a ev x h =
     h\<lparr>t_heap := (t_heap h)(a \<mapsto> \<lparr>sub_ev = ev, sub_ev_extra = x, sub_refs = 1\<rparr>),
       t_table := (t_table h)((ev_path ev, x) \<mapsto> a)\<rparr>"

lemma with_new_memory:
  assumes "memory_ok h" "t_heap h a = None" "pc_ok h (Get_new ev x)"
  shows "memory_ok (with_new a ev x h)"
proof (rule memory_okI)
  note d = memory_okD [OF assms(1)]
  show "\<not> t_fault (with_new a ev x h)" using d(1) by (simp add: with_new_def)
  show "\<exists>m. t_heap (with_new a ev x h) b = Some m \<and> sub_key m = k" if "t_table (with_new a ev x h) k = Some b" for k b
    using that d(2) [of k b] assms(2) by (auto simp: with_new_def sub_key_def split: if_splits)
  show "t_table (with_new a ev x h) (sub_key m) = Some b" if m: "t_heap (with_new a ev x h) b = Some m" "sub_refs m \<noteq> 0" for b m
  proof (cases "b = a")
    case True
    with m show ?thesis by (auto simp: with_new_def sub_key_def)
  next
    case False
    with m have b: "t_heap h b = Some m" by (simp add: with_new_def)
    from d(3) [OF this m(2)] have "sub_key m \<noteq> (ev_path ev, x)" using b m(2) assms(3) by auto
    with d(3) [OF b m(2)] show ?thesis by (simp add: with_new_def)
  qed
qed

lemma with_new_pc:
  assumes "memory_ok h" "t_heap h a = None" "\<And>wr. sect q \<noteq> Some (ev_path ev, wr)" "pc_ok h q"
  shows "pc_ok (with_new a ev x h) q"
  using assms(2-4) by (cases q) (auto simp: with_new_def)

lemma step_new:
  assumes "threads_ok s" "y_pcs s i = Get_new ev x" "t_heap (y_shared s) a = None"
    and s': "s' = y_upd i (Get_unlock True ev x True (Some a)) (with_new a ev x (y_shared s)) s"
  shows "threads_ok s'"
proof -
  note k = threads_okD [OF assms(1)]
  have p: "pc_ok (y_shared s) (Get_new ev x)" using k(6) [of i] assms(2) by simp
  have x: "sect (y_pcs s j) \<noteq> Some (ev_path ev, wr)" if "j \<noteq> i" for j wr
    using exclusive [OF k(2), of i _ j] assms(2) that by simp
  have "owed s' b = owed s b + of_bool (b = a)" for b
    using owed_upd [OF k(1), of i "Get_unlock True ev x True (Some a)" _ b] assms(2) by (simp add: s' eq_commute)
  then have "counts_ok s'" using counts_okD [OF k(4)] assms(3) by (simp add: counts_ok_def s' with_new_def)
  moreover have "locks_ok (y_shared s') (y_pcs s')"
    using locks_keep [OF k(2), of _ i] assms(2) by (simp add: s' with_new_def)
  moreover have "ends_ok (with_new a ev x (y_shared s)) (y_pcs s)"
    using k(5) assms(3) unfolding ends_ok_def by (auto simp: with_new_def split: if_splits)
  then have "ends_ok (y_shared s') (y_pcs s')" using ends_ok_upd assms(2) by (simp add: s')
  moreover have "pc_ok (y_shared s') (y_pcs s' j)" for j
    using with_new_pc [OF k(3) assms(3) x k(6), of j] by (cases "j = i") (simp_all add: s', simp add: with_new_def sub_key_def)
  ultimately show ?thesis
    using finite_upd [OF k(1)] with_new_memory [OF k(3) assms(3) p] by (simp add: threads_ok_def s')
qed

text \<open>One reference less; who takes the last one goes on to free the memory.\<close>

lemma step_dec:
  assumes "threads_ok s" "y_pcs s i = Unref_dec sub ev" "t_heap (y_shared s) sub = Some m"
    and s': "s' = y_upd i (if sub_refs m - 1 = 0 then Unref_lock sub ev else Idle) (set_refs sub m (sub_refs m - 1) (y_shared s)) s"
  shows "threads_ok s'"
proof -
  let ?p = "if sub_refs m - 1 = 0 then Unref_lock sub ev else Idle"
  note k = threads_okD [OF assms(1)]
  have "\<not> owns ?p b" for b by simp
  then have ow: "owed s' b + of_bool (sub = b) = owed s b" for b
    using owed_upd [OF k(1), of i ?p _ b] assms(2) by (simp add: s')
  have u: "owed s sub = unat (sub_refs m)" using counts_okD [OF k(4), of sub] assms(3) by simp
  with ow [of sub] have nz: "unat (sub_refs m) \<noteq> 0" by simp
  then have z: "sub_refs m \<noteq> 0" by auto
  have d: "unat (sub_refs m - 1) = unat (sub_refs m) - 1" by (rule unat_minus_one) (rule z)
  have "counts_ok s'"
    unfolding counts_ok_def
  proof
    fix b
    show "owed s' b = (case t_heap (y_shared s') b of None \<Rightarrow> 0 | Some m \<Rightarrow> unat (sub_refs m))"
      using ow [of b] counts_okD [OF k(4), of b] u d nz by (cases "b = sub") (simp_all add: s')
  qed
  moreover have "locks_ok (y_shared s') (y_pcs s')" using locks_keep [OF k(2), of _ i] assms(2) by (simp add: s')
  moreover have "ends_ok (y_shared s') (y_pcs s')"
  proof -
    have n: "\<not> ends (y_pcs s j) sub" for j
      using k(6) [of j] assms(3) z by (cases "y_pcs s j") auto
    have e: "ends (y_pcs s' j) b \<longleftrightarrow> ends (y_pcs s j) b \<or> j = i \<and> b = sub \<and> sub_refs m - 1 = 0" for j b
      using assms(2) by (auto simp: s')
    have "j = j'" if "ends (y_pcs s' j) b" "ends (y_pcs s' j') b" for j j' b
    proof (cases "b = sub")
      case False
      then show ?thesis using that e ends_okD(1) [OF k(5), of j b j'] by simp
    qed (use that e n in blast)
    moreover have "\<exists>j. ends (y_pcs s' j) b" if "t_heap (y_shared s') b = Some m'" "sub_refs m' = 0" for b m'
      using that ends_okD(2) [OF k(5), of b m'] e by (cases "b = sub") (auto simp: s')
    ultimately show ?thesis by (rule ends_okI)
  qed
  moreover have "pc_ok (y_shared s') (y_pcs s' j)" for j
    using set_refs_pc [OF assms(3) z k(6) [of j]] k(6) [of i] assms(2,3) by (auto simp: s')
  ultimately show ?thesis
    using finite_upd [OF k(1)] set_refs_memory [OF k(3) assms(3) z] by (simp add: threads_ok_def s')
qed

text \<open>Taking the entry out of the table, and freeing the memory.\<close>

lemma step_remove:
  assumes "threads_ok s" "y_pcs s i = Unref_remove sub ev" "t_heap (y_shared s) sub = Some m"
    and s': "s' = y_upd i (Unref_unlock sub ev)
      (y_shared s\<lparr>t_table := (t_table (y_shared s))((ev_path ev, sub_ev_extra m) := None)\<rparr>) s"
  shows "threads_ok s'"
proof -
  let ?k = "(ev_path ev, sub_ev_extra m)"
  note k = threads_okD [OF assms(1)]
  have p: "sub_key m = ?k" "sub_refs m = 0" "t_table (y_shared s) ?k = Some sub"
    using k(6) [of i] assms(2,3) by (fastforce simp: sub_key_def)+
  have x: "sect (y_pcs s j) \<noteq> Some (ev_path ev, wr)" if "j \<noteq> i" for j wr
    using exclusive [OF k(2), of i _ j] assms(2) that by simp
  have "owed s' b = owed s b" for b
    using owed_upd [OF k(1), of i "Unref_unlock sub ev" _ b] assms(2) by (simp add: s')
  then have "counts_ok s'" using k(4) by (simp add: counts_ok_def s')
  moreover have "locks_ok (y_shared s') (y_pcs s')" using locks_keep [OF k(2), of _ i] assms(2) by (simp add: s')
  moreover have "ends_ok (y_shared s) (y_pcs s')" using ends_ok_upd [OF k(5), of "Unref_unlock sub ev" i] assms(2) by (simp add: s')
  then have "ends_ok (y_shared s') (y_pcs s')" by (subst ends_ok_cong [of _ "y_shared s"]) (simp_all add: s')
  moreover have "memory_ok (y_shared s')"
  proof (rule memory_okI)
    note d = memory_okD [OF k(3)]
    show "\<exists>m. t_heap (y_shared s') b = Some m \<and> sub_key m = k" if "t_table (y_shared s') k = Some b" for k b
      using that d(2) [of k b] by (auto simp: s' split: if_splits)
    show "t_table (y_shared s') (sub_key m') = Some b" if m: "t_heap (y_shared s') b = Some m'" "sub_refs m' \<noteq> 0" for b m'
    proof -
      have "t_table (y_shared s) (sub_key m') = Some b" using d(3) [of b m'] m by (simp add: s')
      moreover have "b \<noteq> sub" using m assms(3) p(2) by (auto simp: s')
      ultimately show ?thesis using p(3) by (auto simp: s')
    qed
  qed (use memory_okD(1) [OF k(3)] in \<open>simp add: s'\<close>)
  moreover have "pc_ok (y_shared s') (y_pcs s' j)" for j
  proof (cases "j = i")
    case True
    then show ?thesis using p assms(3) by (auto simp: s')
  next
    case False
    from k(6) [of j] x [OF False] show ?thesis using False by (cases "y_pcs s j") (auto simp: s')
  qed
  ultimately show ?thesis using finite_upd [OF k(1)] by (simp add: threads_ok_def s')
qed

lemma step_free:
  assumes "threads_ok s" "y_pcs s i = Unref_free sub" "t_heap (y_shared s) sub = Some m"
    and s': "s' = y_upd i Idle (y_shared s\<lparr>t_heap := (t_heap (y_shared s))(sub := None)\<rparr>) s"
  shows "threads_ok s'"
proof -
  note k = threads_okD [OF assms(1)]
  note d = memory_okD [OF k(3)]
  have p: "sub_refs m = 0" "t_table (y_shared s) (sub_key m) \<noteq> Some sub" using k(6) [of i] assms(2,3) by auto
  have nt: "t_table (y_shared s) key \<noteq> Some sub" for key using d(2) [of key sub] assms(3) p(2) by auto
  have z: "owed s sub = 0" using counts_okD [OF k(4), of sub] assms(3) p(1) by simp
  then have no: "\<not> owns (y_pcs s j) sub" for j
    using owners_finite [OF k(1), of sub] by (auto simp: owed_def owners_def)
  have ne: "\<not> ends (y_pcs s j) sub" if "j \<noteq> i" for j using ends_okD(1) [OF k(5), of i sub j] assms(2) that by auto
  have "owed s' b = owed s b" for b
    using owed_upd [OF k(1), of i Idle _ b] assms(2) by (simp add: s')
  then have "counts_ok s'" using counts_okD [OF k(4)] z by (simp add: counts_ok_def s')
  moreover have "locks_ok (y_shared s') (y_pcs s')" using locks_keep [OF k(2), of _ i] assms(2) by (simp add: s')
  moreover have "ends_ok (y_shared s') (y_pcs s')"
  proof (rule ends_okI)
    show "j = j'" if "ends (y_pcs s' j) b" "ends (y_pcs s' j') b" for j j' b
      using that ends_okD(1) [OF k(5), of j b j'] by (simp add: s' split: if_splits)
    show "\<exists>j. ends (y_pcs s' j) b" if b: "t_heap (y_shared s') b = Some m'" "sub_refs m' = 0" for b m'
    proof -
      from b have "t_heap (y_shared s) b = Some m'" "b \<noteq> sub" by (auto simp: s' split: if_splits)
      with ends_okD(2) [OF k(5) this(1) b(2)] obtain j where "ends (y_pcs s j) b" by blast
      with \<open>b \<noteq> sub\<close> assms(2) have "j \<noteq> i" by auto
      with \<open>ends (y_pcs s j) b\<close> show ?thesis by (auto simp: s')
    qed
  qed
  moreover have "memory_ok (y_shared s')"
    by (rule memory_okI) (use d nt in \<open>auto simp: s' split: if_splits\<close>)
  moreover have "pc_ok (y_shared s') (y_pcs s' j)" for j
    using k(6) [of j] no [of j] ne [of j] nt by (cases "y_pcs s j"; cases "j = i") (auto simp: s')
  ultimately show ?thesis using finite_upd [OF k(1)] by (simp add: threads_ok_def s')
qed

section \<open>Every step keeps the invariant\<close>

text \<open>A step that touches neither memory nor locks, and one that takes or releases a lock.\<close>

lemma local_step:
  assumes "threads_ok s" "sect p = sect (y_pcs s i)" "pc_ok (y_shared s) p"
    and "owns p = owns (y_pcs s i)" "ends p = ends (y_pcs s i)" "h = y_shared s"
  shows "threads_ok (y_upd i p h s)"
  by (rule quiet_step [OF assms(1)])
    (use assms locks_keep [OF threads_okD(2) [OF assms(1)] assms(2)] in simp_all)

lemma lock_step:
  assumes "threads_ok s" "rw_lock i wr e (y_shared s) = Some h" "sect (y_pcs s i) = None" "sect p = Some (e, wr)"
    and "pc_ok (y_shared s) p" "owns p = owns (y_pcs s i)" "ends p = ends (y_pcs s i)"
  shows "threads_ok (y_upd i p h s)"
  by (rule quiet_step [OF assms(1)])
    (use assms rw_lock_memory [OF assms(2)] locks_take [OF threads_okD(2) [OF assms(1)] assms(3,2,4)] in simp_all)

lemma unlock_step:
  assumes "threads_ok s" "sect (y_pcs s i) = Some (e, wr)" "sect p = None"
    and "pc_ok (y_shared s) p" "owns p = owns (y_pcs s i)" "ends p = ends (y_pcs s i)"
  shows "threads_ok (y_upd i p (rw_unlock i wr e (y_shared s)) s)"
  by (rule quiet_step [OF assms(1)])
    (use assms locks_release [OF threads_okD(2) [OF assms(1)] assms(2,3)] in simp_all)

lemma in_table:
  assumes "threads_ok s" "t_table (y_shared s) k = Some sub"
  obtains m where "t_heap (y_shared s) sub = Some m" "sub_key m = k"
  using memory_okD(2) [OF threads_okD(3) [OF assms(1)] assms(2)] that by blast

lemma get_missing_simps [simp]:
  "sect (get_missing wr ev x oc) = Some (ev_path ev, wr)" "owns (get_missing wr ev x oc) = (\<lambda>_. False)"
  "ends (get_missing wr ev x oc) = (\<lambda>_. False)"
  "pc_ok h (get_missing wr ev x oc) \<longleftrightarrow> (wr \<longrightarrow> pc_ok h (Get_new ev x))"
  by (simp_all add: get_missing_def fun_eq_iff)

lemma get_step_ok:
  assumes "threads_ok s" "get_step i a (y_pcs s i) (y_shared s) = Some (p, h)" "t_heap (y_shared s) a = None"
    and "countable_refs (y_upd i p h s)"
  shows "threads_ok (y_upd i p h s)"
proof (cases "y_pcs s i")
  case (Get_lock wr ev x oc)
  with assms(2) have l: "rw_lock i wr (ev_path ev) (y_shared s) = Some h" "p = Get_look wr ev x oc" by (auto split: option.splits)
  show ?thesis by (rule lock_step [OF assms(1) l(1)]) (use Get_lock l threads_okD(6) [OF assms(1), of i] in \<open>simp_all add: fun_eq_iff\<close>)
next
  case (Get_look wr ev x oc)
  note ok = threads_okD(6) [OF assms(1), of i]
  from assms(2) Get_look have h: "h = y_shared s" and p:
    "p = get_missing wr ev x oc \<and> t_table (y_shared s) (ev_path ev, x) = None \<or>
     (\<exists>sub. p = Get_load wr ev x oc sub \<and> t_table (y_shared s) (ev_path ev, x) = Some sub)"
    by (auto split: option.splits)
  show ?thesis by (rule local_step [OF assms(1) _ _ _ _ h]) (use Get_look ok p in \<open>auto simp: fun_eq_iff\<close>)
next
  case (Get_load wr ev x oc sub)
  note ok = threads_okD(6) [OF assms(1), of i]
  from Get_load ok have t: "t_table (y_shared s) (ev_path ev, x) = Some sub" by simp
  from in_table [OF assms(1) this] obtain m where m: "t_heap (y_shared s) sub = Some m" "sub_key m = (ev_path ev, x)" .
  from assms(2) Get_load m have h: "h = y_shared s" and p:
    "p = (if sub_refs m = 0 then get_missing wr ev x oc else Get_cas wr ev x oc sub (sub_refs m))" by auto
  show ?thesis by (rule local_step [OF assms(1) _ _ _ _ h]) (use Get_load ok t m in \<open>auto simp: p fun_eq_iff\<close>)
next
  case (Get_cas wr ev x oc sub val)
  note ok = threads_okD(6) [OF assms(1), of i]
  from Get_cas ok have t: "t_table (y_shared s) (ev_path ev, x) = Some sub" by simp
  from in_table [OF assms(1) this] obtain m where m: "t_heap (y_shared s) sub = Some m" "sub_key m = (ev_path ev, x)" .
  show ?thesis
  proof (cases "sub_refs m = val")
    case True
    with assms(2) Get_cas m have "h = set_refs sub m (sub_refs m + 1) (y_shared s)" "p = Get_unlock wr ev x oc (Some sub)" by auto
    with step_cas [OF assms(1) _ m(1) refl] Get_cas True assms(4) show ?thesis by simp
  next
    case False
    with assms(2) Get_cas m have h: "h = y_shared s" and p:
      "p = (if sub_refs m = 0 then get_missing wr ev x oc else Get_cas wr ev x oc sub (sub_refs m))" by auto
    show ?thesis by (rule local_step [OF assms(1) _ _ _ _ h]) (use Get_cas ok t m in \<open>auto simp: p fun_eq_iff\<close>)
  qed
next
  case (Get_new ev x)
  with assms(2) have "p = Get_unlock True ev x True (Some a)" "h = with_new a ev x (y_shared s)" by (auto simp: with_new_def)
  with step_new [OF assms(1) Get_new assms(3) refl] show ?thesis by simp
next
  case (Get_unlock wr ev x oc r)
  note ok = threads_okD(6) [OF assms(1), of i]
  from assms(2) Get_unlock have p: "p = (if \<not> wr \<and> r = None \<and> oc then Get_lock True ev x oc else Got ev x oc r)"
    and h: "h = rw_unlock i wr (ev_path ev) (y_shared s)" by auto
  show ?thesis unfolding h
    by (rule unlock_step [OF assms(1)]) (use ok Get_unlock in \<open>auto simp: p fun_eq_iff\<close>)
qed (use assms(2) in simp_all)

lemma unref_step_ok:
  assumes "threads_ok s" "unref_step i (y_pcs s i) (y_shared s) = Some (p, h)"
  shows "threads_ok (y_upd i p h s)"
proof (cases "y_pcs s i")
  case (Unref_ev sub)
  then have "i \<in> owners (y_pcs s) sub" by (simp add: owners_def)
  then have "owed s sub \<noteq> 0" using owners_finite [OF threads_okD(1) [OF assms(1)], of sub] by (auto simp: owed_def)
  from held_refs [OF assms(1) this] obtain m where m: "t_heap (y_shared s) sub = Some m" .
  with assms(2) Unref_ev have h: "h = y_shared s" and p: "p = Unref_dec sub (sub_ev m)" by auto
  show ?thesis by (rule local_step [OF assms(1) _ _ _ _ h]) (use Unref_ev m in \<open>auto simp: p fun_eq_iff sub_key_def\<close>)
next
  case (Unref_dec sub ev)
  then obtain m where m: "t_heap (y_shared s) sub = Some m" using threads_okD(6) [OF assms(1), of i] by auto
  with step_dec [OF assms(1) Unref_dec m refl] assms(2) Unref_dec show ?thesis by auto
next
  case (Unref_lock sub ev)
  with assms(2) have l: "rw_lock i True (ev_path ev) (y_shared s) = Some h" "p = Unref_look sub ev" by (auto split: option.splits)
  show ?thesis by (rule lock_step [OF assms(1) l(1)]) (use Unref_lock l threads_okD(6) [OF assms(1), of i] in \<open>simp_all add: fun_eq_iff\<close>)
next
  case (Unref_look sub ev)
  then obtain m x where m: "t_heap (y_shared s) sub = Some m" "sub_key m = (ev_path ev, x)" "sub_refs m = 0"
    using threads_okD(6) [OF assms(1), of i] by auto
  with assms(2) Unref_look have h: "h = y_shared s" and p:
    "p = (if t_table (y_shared s) (ev_path ev, x) = Some sub then Unref_remove sub ev else Unref_unlock sub ev)"
    by (auto simp: sub_key_def)
  show ?thesis by (rule local_step [OF assms(1) _ _ _ _ h]) (use Unref_look m in \<open>auto simp: p fun_eq_iff\<close>)
next
  case (Unref_remove sub ev)
  then obtain m where m: "t_heap (y_shared s) sub = Some m" using threads_okD(6) [OF assms(1), of i] by auto
  with step_remove [OF assms(1) Unref_remove m refl] assms(2) Unref_remove show ?thesis by auto
next
  case (Unref_unlock sub ev)
  with assms(2) have p: "p = Unref_free sub" "h = rw_unlock i True (ev_path ev) (y_shared s)" by auto
  show ?thesis unfolding p
    by (rule unlock_step [OF assms(1)]) (use Unref_unlock threads_okD(6) [OF assms(1), of i] in \<open>auto simp: fun_eq_iff\<close>)
next
  case (Unref_free sub)
  then obtain m where m: "t_heap (y_shared s) sub = Some m" using threads_okD(6) [OF assms(1), of i] by auto
  with step_free [OF assms(1) Unref_free m refl] assms(2) Unref_free show ?thesis by auto
qed (use assms(2) in simp_all)

text \<open>A reference changes hands between a thread and \<open>y_held\<close>.\<close>

lemma hand_step:
  assumes "threads_ok s" "y_shared s' = y_shared s" "y_pcs s' = (y_pcs s)(i := p)" "\<And>sub. owed s' sub = owed s sub"
    and "sect p = sect (y_pcs s i)" "ends p = ends (y_pcs s i)" "pc_ok (y_shared s) p"
  shows "threads_ok s'"
proof -
  note k = threads_okD [OF assms(1)]
  have "counts_ok s'" using k(4) assms(2,4) by (simp add: counts_ok_def)
  moreover have "locks_ok (y_shared s) ((y_pcs s)(i := p))" by (rule locks_keep [OF k(2) assms(5)]) simp_all
  moreover have "ends_ok (y_shared s) ((y_pcs s)(i := p))" by (rule ends_ok_upd [OF k(5)]) (simp add: assms(6))
  ultimately show ?thesis using k finite_upd [OF k(1)] assms(7) by (simp add: threads_ok_def assms(2,3))
qed

lemma thread_step_ok:
  assumes "thread_step s t" "threads_ok s" "countable_refs t"
  shows "threads_ok t"
  using assms(1)
proof (cases rule: thread_step.cases)
  case (call_get i ev x oc)
  then show ?thesis using local_step [OF assms(2), of "Get_lock False ev x oc" i "y_shared s"] by (simp add: fun_eq_iff)
next
  case (call_ref i sub)
  with step_ref [OF assms(2) call_ref(3) assms(3) call_ref(1)] show ?thesis by simp
next
  case (call_unref i sub)
  have "card (owners ((y_pcs s)(i := Unref_ev sub)) b) = card (owners (y_pcs s) b) + of_bool (sub = b)" for b
    using card_owners_upd [OF threads_okD(1) [OF assms(2)], of i "Unref_ev sub" b] call_unref(2) by simp
  then have "owed t b = owed s b" for b using call_unref(1,3) by (simp add: owed_def)
  from hand_step [OF assms(2) _ _ this, of i "Unref_ev sub"] show ?thesis using call_unref by (simp add: fun_eq_iff)
next
  case (run_get i a p h)
  then show ?thesis using get_step_ok [OF assms(2)] assms(3) by simp
next
  case (run_unref i p h)
  then show ?thesis using unref_step_ok [OF assms(2)] by simp
next
  case (return_None i ev x oc)
  then show ?thesis using local_step [OF assms(2), of Idle i "y_shared s"] by (simp add: fun_eq_iff)
next
  case (return_Some i ev x oc sub)
  have o: "card (owners ((y_pcs s)(i := Idle)) b) + of_bool (sub = b) = card (owners (y_pcs s) b)" for b
    using card_owners_upd [OF threads_okD(1) [OF assms(2)], of i Idle b] return_Some(2) by simp
  have "owed t b = owed s b" for b using o [of b] return_Some(1) by (cases "b = sub") (simp_all add: owed_def)
  from hand_step [OF assms(2) _ _ this, of i Idle] show ?thesis using return_Some by (simp add: fun_eq_iff)
qed

text \<open>Runs in which the counters suffice.\<close>

definition threads_run :: "sys \<Rightarrow> bool" where
  "threads_run s \<longleftrightarrow> (\<lambda>s t. thread_step s t \<and> countable_refs t)\<^sup>*\<^sup>* y_start s"

lemma threads_run_ok: "threads_run s \<Longrightarrow> threads_ok s"
  unfolding threads_run_def
  by (induction rule: rtranclp_induct) (auto intro: threads_ok_start thread_step_ok)

end
