(* ===== verification/Sub_Atomic.thy ===== *)
theory Sub_Atomic
  imports Sub_Threads
begin

text \<open>
  What the threads of \<open>Sub_Threads\<close> promise: every step of \<open>sub_get\<close>, \<open>sub_ref\<close> and \<open>sub_unref\<close> refines a map from
  keys to counted subscriptions, calls end, and a call that runs alone is the operation of
  \<open>Sub_Refs\<close>, which the rest of the development is built on.
\<close>

section \<open>The atomic specification\<close>

text \<open>For each key the subscription that can be taken, with its number of references.\<close>

definition subs_of :: "shared \<Rightarrow> string \<times> string \<Rightarrow> (sid \<times> nat) option" where
  "subs_of h k =
     (case t_table h k of
        None \<Rightarrow> None
      | Some sub \<Rightarrow>
          (case t_heap h sub of
             None \<Rightarrow> None
           | Some m \<Rightarrow> if sub_refs m = 0 then None else Some (sub, unat (sub_refs m))))"

inductive refs_spec :: "(string \<times> string \<Rightarrow> (sid \<times> nat) option) \<Rightarrow> (string \<times> string \<Rightarrow> (sid \<times> nat) option) \<Rightarrow> bool" where
  stay: "refs_spec A A"
| more: "A k = Some (sub, n) \<Longrightarrow> refs_spec A (A(k \<mapsto> (sub, Suc n)))"
| fresh: "A k = None \<Longrightarrow> (\<And>k' n. A k' \<noteq> Some (sub, n)) \<Longrightarrow> refs_spec A (A(k \<mapsto> (sub, 1)))"
| less: "A k = Some (sub, Suc n) \<Longrightarrow> refs_spec A (A(k := if n = 0 then None else Some (sub, n)))"

lemma subs_of_cong: "t_heap h' = t_heap h \<Longrightarrow> t_table h' = t_table h \<Longrightarrow> subs_of h' = subs_of h"
  by (rule ext) (simp add: subs_of_def split: option.split)

lemma subs_of_remove:
  assumes "t_table h k0 = Some sub" "t_heap h sub = Some m" "sub_refs m = 0"
  shows "subs_of (h\<lparr>t_table := (t_table h)(k0 := None)\<rparr>) = subs_of h"
proof
  show "subs_of (h\<lparr>t_table := (t_table h)(k0 := None)\<rparr>) k = subs_of h k" for k
    using assms by (cases "k = k0") (simp_all add: subs_of_def split: option.split)
qed

lemma subs_of_free:
  assumes "\<And>k. t_table h k \<noteq> Some sub"
  shows "subs_of (h\<lparr>t_heap := (t_heap h)(sub := None)\<rparr>) = subs_of h"
proof
  show "subs_of (h\<lparr>t_heap := (t_heap h)(sub := None)\<rparr>) k = subs_of h k" for k
  proof (cases "t_table h k")
    case (Some b)
    with assms [of k] have "b \<noteq> sub" by auto
    with Some show ?thesis by (simp add: subs_of_def)
  qed (simp add: subs_of_def)
qed

lemma subs_of_Some:
  assumes "memory_ok h" "t_heap h sub = Some m" "sub_refs m \<noteq> 0"
  shows "subs_of h (sub_key m) = Some (sub, unat (sub_refs m))"
  using memory_okD(3) [OF assms] assms(2,3) by (simp add: subs_of_def)

lemma subs_of_set_refs:
  assumes "memory_ok h" "t_heap h sub = Some m" "sub_refs m \<noteq> 0"
  shows "subs_of (set_refs sub m n h) = (subs_of h)(sub_key m := if n = 0 then None else Some (sub, unat n))"
proof
  fix k
  have t: "t_table h k = Some sub \<longleftrightarrow> k = sub_key m" using memory_okD(3) [OF assms] memory_okD(2) [OF assms(1), of k sub] assms(2) by auto
  show "subs_of (set_refs sub m n h) k = ((subs_of h)(sub_key m := if n = 0 then None else Some (sub, unat n))) k"
  proof (cases "k = sub_key m")
    case True
    with t show ?thesis by (simp add: subs_of_def)
  next
    case False
    with t show ?thesis by (cases "t_table h k") (simp_all add: subs_of_def)
  qed
qed

lemma inc_spec:
  assumes "memory_ok h" "t_heap h sub = Some m" "sub_refs m \<noteq> 0" "unat (sub_refs m) + 1 < 2 ^ 32"
  shows "refs_spec (subs_of h) (subs_of (set_refs sub m (sub_refs m + 1) h))"
    "subs_of (set_refs sub m (sub_refs m + 1) h) (sub_key m) = Some (sub, Suc (unat (sub_refs m)))"
proof -
  have u: "unat (sub_refs m + 1) = Suc (unat (sub_refs m))" using assms(4) by (simp add: unat_word_ariths(1))
  then have "sub_refs m + 1 \<noteq> 0" by (metis nat.distinct(1) unat_0)
  with u show "refs_spec (subs_of h) (subs_of (set_refs sub m (sub_refs m + 1) h))"
    "subs_of (set_refs sub m (sub_refs m + 1) h) (sub_key m) = Some (sub, Suc (unat (sub_refs m)))"
    using refs_spec.more [of "subs_of h", OF subs_of_Some [OF assms(1-3)]] by (simp_all add: subs_of_set_refs [OF assms(1-3)])
qed

lemma dec_spec:
  assumes "memory_ok h" "t_heap h sub = Some m" "sub_refs m \<noteq> 0"
  shows "refs_spec (subs_of h) (subs_of (set_refs sub m (sub_refs m - 1) h))"
proof -
  have "unat (sub_refs m) \<noteq> 0" using assms(3) by (metis unat_eq_0)
  then obtain n where n: "unat (sub_refs m) = Suc n" by (cases "unat (sub_refs m)") auto
  have u: "unat (sub_refs m - 1) = n" using unat_minus_one [OF assms(3)] n by simp
  then have "sub_refs m - 1 = 0 \<longleftrightarrow> n = 0" by (metis unat_eq_0)
  then show ?thesis
    using refs_spec.less [of "subs_of h" "sub_key m" sub n] subs_of_Some [OF assms] n u
    unfolding subs_of_set_refs [OF assms] by (simp split: if_splits)
qed

lemma new_spec:
  assumes "memory_ok h" "t_heap h a = None" "pc_ok h (Get_new ev x)"
  shows "refs_spec (subs_of h) (subs_of (with_new a ev x h)) \<and> subs_of h (ev_path ev, x) = None \<and>
    subs_of (with_new a ev x h) (ev_path ev, x) = Some (a, 1)"
proof -
  have t: "t_table h k \<noteq> Some a" for k using memory_okD(2) [OF assms(1), of k a] assms(2) by auto
  have n: "subs_of h (ev_path ev, x) = None" using assms(3) by (auto simp: subs_of_def split: option.splits)
  have "subs_of (with_new a ev x h) = (subs_of h)((ev_path ev, x) \<mapsto> (a, 1))"
    using t by (auto simp: subs_of_def with_new_def fun_eq_iff split: option.split)
  moreover have "subs_of h k \<noteq> Some (a, n)" for k n using t [of k] by (auto simp: subs_of_def split: option.splits if_splits)
  ultimately show ?thesis using n refs_spec.fresh [of "subs_of h" "(ev_path ev, x)" a] by simp
qed

text \<open>
  What a step of \<open>sub_get\<close> does: either nothing to the memory, and if it gives up there is nothing to take;
  or it takes the reference.
\<close>

lemma get_step_effect:
  assumes "threads_ok s" "get_step i a (y_pcs s i) (y_shared s) = Some (p, h)"
  obtains
    (same) "t_heap h = t_heap (y_shared s)" "t_table h = t_table (y_shared s)" "\<And>wr ev x oc sub. p \<noteq> Get_unlock wr ev x oc (Some sub)"
      "\<And>wr ev x oc. p = Get_unlock wr ev x oc None \<Longrightarrow> subs_of (y_shared s) (ev_path ev, x) = None"
  | (cas) wr ev x oc sub m where "y_pcs s i = Get_cas wr ev x oc sub (sub_refs m)" "t_heap (y_shared s) sub = Some m"
      "sub_refs m \<noteq> 0" "sub_key m = (ev_path ev, x)" "p = Get_unlock wr ev x oc (Some sub)"
      "h = set_refs sub m (sub_refs m + 1) (y_shared s)"
  | (new) ev x where "y_pcs s i = Get_new ev x" "p = Get_unlock True ev x True (Some a)" "h = with_new a ev x (y_shared s)"
proof (cases "y_pcs s i")
  case (Get_lock wr ev x oc)
  with assms(2) show thesis using rw_lock_memory by (intro same) (auto simp: fun_eq_iff split: option.splits)
next
  case (Get_look wr ev x oc)
  with assms(2) show thesis
    by (intro same) (auto simp: fun_eq_iff get_missing_def subs_of_def split: option.splits if_splits)
next
  case (Get_load wr ev x oc sub)
  with threads_okD(6) [OF assms(1), of i] have t: "t_table (y_shared s) (ev_path ev, x) = Some sub" by simp
  from in_table [OF assms(1) this] obtain m where "t_heap (y_shared s) sub = Some m" .
  with assms(2) Get_load t show thesis by (intro same) (auto simp: fun_eq_iff get_missing_def subs_of_def split: if_splits)
next
  case (Get_cas wr ev x oc sub val)
  with threads_okD(6) [OF assms(1), of i] have t: "t_table (y_shared s) (ev_path ev, x) = Some sub" "val \<noteq> 0" by simp_all
  from in_table [OF assms(1) t(1)] obtain m where m: "t_heap (y_shared s) sub = Some m" "sub_key m = (ev_path ev, x)" .
  show thesis
  proof (cases "sub_refs m = val")
    case True
    with assms(2) Get_cas m t(2) show thesis by (intro cas [of wr ev x oc sub m]) auto
  next
    case False
    with assms(2) Get_cas m t(1) show thesis by (intro same) (auto simp: fun_eq_iff get_missing_def subs_of_def split: if_splits)
  qed
next
  case (Get_new ev x)
  with assms(2) show thesis by (intro new [of ev x]) (auto simp: with_new_def)
next
  case (Get_unlock wr ev x oc r)
  with assms(2) show thesis by (intro same) (auto simp: fun_eq_iff split: if_splits)
qed (use assms(2) in simp_all)

lemma unref_step_effect:
  assumes "threads_ok s" "unref_step i (y_pcs s i) (y_shared s) = Some (p, h)"
  shows "refs_spec (subs_of (y_shared s)) (subs_of h) \<and> (\<forall>wr ev x oc r. p \<noteq> Get_unlock wr ev x oc r)"
proof -
  note k = threads_okD [OF assms(1)] and d = memory_okD [OF threads_okD(3) [OF assms(1)]]
  have same: "refs_spec (subs_of (y_shared s)) (subs_of h)" if "subs_of h = subs_of (y_shared s)"
    unfolding that by (rule refs_spec.stay)
  have "refs_spec (subs_of (y_shared s)) (subs_of h)"
  proof (cases "y_pcs s i")
    case (Unref_dec sub ev)
    then have "i \<in> owners (y_pcs s) sub" by (simp add: owners_def)
    then have "owed s sub \<noteq> 0" using owners_finite [OF k(1), of sub] by (auto simp: owed_def)
    from held_refs [OF assms(1) this] obtain m where m: "t_heap (y_shared s) sub = Some m" "sub_refs m \<noteq> 0" .
    with dec_spec [OF k(3) m] assms(2) Unref_dec show ?thesis by simp
  next
    case (Unref_remove sub ev)
    then obtain m x where m: "t_heap (y_shared s) sub = Some m" "sub_key m = (ev_path ev, x)" "sub_refs m = 0"
      "t_table (y_shared s) (ev_path ev, x) = Some sub" using k(6) [of i] by auto
    then have "h = y_shared s\<lparr>t_table := (t_table (y_shared s))((ev_path ev, x) := None)\<rparr>"
      using assms(2) Unref_remove by (simp add: sub_key_def)
    then show ?thesis using subs_of_remove [OF m(4,1,3)] by (intro same) simp
  next
    case (Unref_free sub)
    then obtain m where m: "t_heap (y_shared s) sub = Some m" "sub_refs m = 0" "t_table (y_shared s) (sub_key m) \<noteq> Some sub"
      using k(6) [of i] by auto
    then have "t_table (y_shared s) key \<noteq> Some sub" for key using d(2) [of key sub] by auto
    from subs_of_free [OF this] show ?thesis using m assms(2) Unref_free by (intro same) auto
  next
    case (Unref_lock sub ev)
    then show ?thesis using assms(2) rw_lock_memory by (intro same subs_of_cong) (auto split: option.splits)
  qed (use assms(2) in \<open>auto intro!: refs_spec.stay same subs_of_cong simp: t_faulty_def split: option.splits\<close>)
  moreover have "\<forall>wr ev x oc r. p \<noteq> Get_unlock wr ev x oc r"
    using assms(2) by (cases "y_pcs s i") (auto split: option.splits if_splits)
  ultimately show ?thesis by blast
qed

section \<open>Progress\<close>

text \<open>The number of steps a call has left if no compare-and-swap fails.\<close>

fun steps_left :: "pc \<Rightarrow> nat" where
  "steps_left Idle = 0"
| "steps_left (Get_lock wr ev x oc) = (if wr then 7 else 12)"
| "steps_left (Get_look wr ev x oc) = (if wr then 6 else 11)"
| "steps_left (Get_load wr ev x oc sub) = (if wr then 5 else 10)"
| "steps_left (Get_cas wr ev x oc sub val) = (if wr then 4 else 9)"
| "steps_left (Get_new ev x) = 3"
| "steps_left (Get_unlock wr ev x oc r) = (if wr then 2 else 8)"
| "steps_left (Got ev x oc r) = 1"
| "steps_left (Unref_ev sub) = 7"
| "steps_left (Unref_dec sub ev) = 6"
| "steps_left (Unref_lock sub ev) = 5"
| "steps_left (Unref_look sub ev) = 4"
| "steps_left (Unref_remove sub ev) = 3"
| "steps_left (Unref_unlock sub ev) = 2"
| "steps_left (Unref_free sub) = 1"

text \<open>Another thread has changed the count since this one read it.\<close>

fun cas_fails :: "shared \<Rightarrow> pc \<Rightarrow> bool" where
  "cas_fails h (Get_cas wr ev x oc sub val) = (case t_heap h sub of None \<Rightarrow> False | Some m \<Rightarrow> sub_refs m \<noteq> val)"
| "cas_fails h p = False"

lemma get_step_left:
  "get_step i a p h = Some (p', h') \<Longrightarrow> steps_left p' < steps_left p \<or> cas_fails h p"
  by (cases p) (auto simp: get_missing_def split: option.splits if_splits)

lemma unref_step_left: "unref_step i p h = Some (p', h') \<Longrightarrow> steps_left p' < steps_left p"
  by (cases p) (auto split: option.splits if_splits)

lemma call_left:
  assumes "thread_step s t" "y_pcs s i \<noteq> Idle" "y_pcs t i \<noteq> y_pcs s i"
  shows "steps_left (y_pcs t i) < steps_left (y_pcs s i) \<or> cas_fails (y_shared s) (y_pcs s i)"
  using assms by (cases rule: thread_step.cases) (auto dest: get_step_left unref_step_left split: if_splits)

text \<open>Waiting for a lock is the only way not to be able to go on.\<close>

fun waits :: "pc \<Rightarrow> string option" where
  "waits (Get_lock wr ev x oc) = Some (ev_path ev)"
| "waits (Unref_lock sub ev) = Some (ev_path ev)"
| "waits p = None"

lemma step_defined:
  assumes "p \<noteq> Idle" "\<And>ev x oc r. p \<noteq> Got ev x oc r"
    and "waits p = None \<or> (\<exists>e. waits p = Some e \<and> t_writer h e = None \<and> t_readers h e = {})"
  shows "get_step i a p h \<noteq> None \<or> unref_step i p h \<noteq> None"
  using assms by (cases p) (auto simp: rw_lock_def split: option.split)

lemma get_step_moves: "get_step i a p h = Some (p', h') \<Longrightarrow> p' \<noteq> p"
  by (cases p) (auto simp: get_missing_def split: option.splits if_splits)

lemma runs:
  assumes "y_pcs s i \<noteq> Idle" "t_heap (y_shared s) a = None"
    and "waits (y_pcs s i) = None \<or> (\<exists>e. waits (y_pcs s i) = Some e \<and> t_writer (y_shared s) e = None \<and> t_readers (y_shared s) e = {})"
  shows "\<exists>t. thread_step s t \<and> y_pcs t i \<noteq> y_pcs s i"
proof -
  consider (get) p h where "get_step i a (y_pcs s i) (y_shared s) = Some (p, h)" "p \<noteq> y_pcs s i"
    | (unref) p h where "unref_step i (y_pcs s i) (y_shared s) = Some (p, h)" "p \<noteq> y_pcs s i"
    | (got) ev x oc r where "y_pcs s i = Got ev x oc r"
    using step_defined [OF assms(1) _ assms(3), of i a] get_step_moves [of i a "y_pcs s i" "y_shared s"]
      unref_step_left [of i "y_pcs s i" "y_shared s"] by (metis less_irrefl not_Some_eq surj_pair)
  then show ?thesis
  proof cases
    case get
    from thread_step.run_get [of i a s p h] get assms(2) show ?thesis by (intro exI [of _ "y_upd i p h s"]) simp
  next
    case unref
    from thread_step.run_unref [of i s p h] unref show ?thesis by (intro exI [of _ "y_upd i p h s"]) simp
  next
    case (got ev x oc r)
    show ?thesis
    proof (cases r)
      case None
      with thread_step.return_None [of s i ev x oc] got show ?thesis by (intro exI [of _ "y_upd i Idle (y_shared s) s"]) simp
    next
      case (Some sub)
      let ?t = "y_upd i Idle (y_shared s) s\<lparr>y_held := (y_held s)(sub := Suc (y_held s sub))\<rparr>"
      from thread_step.return_Some [of s i ev x oc sub] got Some have "thread_step s ?t" by blast
      then show ?thesis by (intro exI [of _ ?t]) (simp add: got)
    qed
  qed
qed

lemma heap_finite: "threads_run s \<Longrightarrow> finite (dom (t_heap (y_shared s)))"
  unfolding threads_run_def
proof (induction rule: rtranclp_induct)
  case base
  show ?case by (simp add: y_start_def)
next
  case (step s t)
  have g: "finite (dom (t_heap h'))" if "get_step i a p h = Some (p', h')" "finite (dom (t_heap h))" for i a p h p' h'
    using that by (cases p) (auto simp: t_faulty_def dest: rw_lock_memory split: option.splits if_splits)
  have u: "finite (dom (t_heap h'))" if "unref_step i p h = Some (p', h')" "finite (dom (t_heap h))" for i p h p' h'
    using that by (cases p) (auto simp: t_faulty_def dest: rw_lock_memory split: option.splits if_splits)
  have r: "dom (t_heap (t_sub_ref sub h)) = dom (t_heap h)" for sub h
    by (auto simp: t_sub_ref_def t_faulty_def split: option.split)
  from step have "thread_step s t" by blast
  then show ?case by (cases rule: thread_step.cases) (use step.IH g u in \<open>auto simp: r\<close>)
qed

section \<open>Alone\<close>

text \<open>A thread that runs without interference, for at most \<open>n\<close> steps, and the memory of a state of the server.\<close>

fun alone :: "nat \<Rightarrow> tid \<Rightarrow> sid \<Rightarrow> pc \<times> shared \<Rightarrow> pc \<times> shared" where
  "alone 0 i a (p, h) = (p, h)"
| "alone (Suc n) i a (p, h) =
     (case get_step i a p h of
        Some s \<Rightarrow> alone n i a s
      | None \<Rightarrow> (case unref_step i p h of Some s \<Rightarrow> alone n i a s | None \<Rightarrow> (p, h)))"

definition shared_of :: "world \<Rightarrow> shared" where
  "shared_of w =
     \<lparr>t_heap = w_sub_heap w, t_table = w_ev_subs w, t_readers = (\<lambda>_. {}), t_writer = (\<lambda>_. None), t_fault = w_fault w\<rparr>"

lemma const_upd [simp]: "(\<lambda>_. c)(e := c) = (\<lambda>_. c)"
  by auto

definition tables_live :: "world \<Rightarrow> bool" where
  "tables_live w \<longleftrightarrow> (\<forall>k sub. w_ev_subs w k = Some sub \<longrightarrow> w_sub_heap w sub \<noteq> None)"

lemma alone_get:
  assumes "tables_live w"
  shows "alone 12 i (w_next_sid w) (Get_lock False ev x oc, shared_of w) =
    (Got ev x oc (fst (sub_get ev (Some x) oc w)), shared_of (snd (sub_get ev (Some x) oc w)))"
proof (cases "w_ev_subs w (ev_path ev, x)")
  case None
  then show ?thesis
    by (simp add: numeral_eq_Suc shared_of_def rw_lock_def rw_unlock_def get_missing_def sub_get_def get_if_exists_def new_sub_def
        stat_inc_def Let_def)
next
  case (Some sub)
  with assms obtain m where m: "w_sub_heap w sub = Some m" unfolding tables_live_def by blast
  from Some m show ?thesis
    by (cases "sub_refs m = 0")
      (simp_all add: numeral_eq_Suc shared_of_def rw_lock_def rw_unlock_def get_missing_def sub_get_def get_if_exists_def new_sub_def
        stat_inc_def atomic_inc_not_zero_def set_refs_def set_sub_def Let_def)
qed

lemma alone_unref:
  assumes "w_sub_heap w sub = Some m"
  shows "alone 7 i a (Unref_ev sub, shared_of w) = (Idle, shared_of (sub_unref sub w))"
  using assms
  by (cases "sub_refs m = 1"; cases "w_ev_subs w (sub_key m) = Some sub")
    (simp_all add: numeral_eq_Suc shared_of_def rw_lock_def rw_unlock_def sub_unref_def set_refs_def set_sub_def sub_key_def
      stat_inc_def stat_dec_def emit_def Let_def)

section \<open>A run\<close>

text \<open>One thread, and the run in which it creates a subscription.\<close>

definition one_thread :: "pc \<Rightarrow> shared \<Rightarrow> (sid \<Rightarrow> nat) \<Rightarrow> sys" where
  "one_thread p h k = \<lparr>y_shared = h, y_pcs = (\<lambda>_. Idle)(0 := p), y_held = k\<rparr>"

lemma one_countable: "(\<And>sub. k sub < 100) \<Longrightarrow> countable_refs (one_thread p h k)"
proof -
  assume k: "\<And>sub. k sub < 100"
  have "owners ((\<lambda>_. Idle)(0 := p)) sub \<subseteq> {0}" for sub by (auto simp: owners_def split: if_splits)
  then have c: "card (owners ((\<lambda>_. Idle)(0 := p)) sub) \<le> 1" for sub
    using card_mono [of "{0}" "owners ((\<lambda>_. Idle)(0 := p)) sub"] by simp
  have "k sub + card (owners ((\<lambda>_. Idle)(0 := p)) sub) < 2 ^ 32" for sub using k [of sub] c [of sub] by simp
  then show ?thesis by (simp add: countable_refs_def owed_def one_thread_def)
qed

lemma run_one:
  assumes "threads_run (one_thread p h k)" "get_step 0 a p h = Some (p', h')" "t_heap h a = None" "\<And>sub. k sub < 100"
  shows "threads_run (one_thread p' h' k)"
proof -
  have "thread_step (one_thread p h k) (one_thread p' h' k)"
    using thread_step.run_get [of 0 a "one_thread p h k" p' h'] assms(2,3) by (simp add: one_thread_def)
  with assms(1) one_countable [OF assms(4)] show ?thesis
    unfolding threads_run_def by (auto intro: rtranclp.rtrancl_into_rtrancl)
qed

definition sample_key :: event where
  "sample_key = event_init ''/e'' None None None True"

abbreviation "sample_mem \<equiv> y_shared y_start"

lemma sample_run:
  "threads_run (one_thread (Get_new sample_key ''/x'') (sample_mem\<lparr>t_writer := [''/e'' \<mapsto> 0]\<rparr>) (\<lambda>_. 0))"
  "threads_run (one_thread (Got sample_key ''/x'' True (Some 7)) (with_new 7 sample_key ''/x'' sample_mem) (\<lambda>_. 0))"
proof -
  let ?r = "\<lambda>p h. threads_run (one_thread p h (\<lambda>_. 0))"
  have e: "ev_path sample_key = ''/e''" by (simp add: sample_key_def event_init_def)
  have y: "t_heap sample_mem = (\<lambda>_. None)" "t_table sample_mem = (\<lambda>_. None)" "t_readers sample_mem = (\<lambda>_. {})" "t_writer sample_mem = (\<lambda>_. None)"
    by (simp_all add: y_start_def)
  have "thread_step y_start (one_thread (Get_lock False sample_key ''/x'' True) sample_mem (\<lambda>_. 0))"
    using thread_step.call_get [of y_start 0 sample_key "''/x''" True] by (simp add: one_thread_def y_start_def)
  then have r: "?r (Get_lock False sample_key ''/x'' True) sample_mem"
    using one_countable [of "\<lambda>_. 0"] unfolding threads_run_def by (auto intro: rtranclp.rtrancl_into_rtrancl)
  note s = rw_lock_def rw_unlock_def get_missing_def e y
  have r: "?r (Get_look False sample_key ''/x'' True) (sample_mem\<lparr>t_readers := (\<lambda>_. {})(''/e'' := {0})\<rparr>)"
    by (rule run_one [OF r, of 7]) (simp_all add: s)
  have r: "?r (Get_unlock False sample_key ''/x'' True None) (sample_mem\<lparr>t_readers := (\<lambda>_. {})(''/e'' := {0})\<rparr>)"
    by (rule run_one [OF r, of 7]) (simp_all add: s)
  have m: "sample_mem\<lparr>t_readers := (\<lambda>_. {})\<rparr> = sample_mem" by (simp add: y_start_def)
  have r: "?r (Get_lock True sample_key ''/x'' True) sample_mem"
    by (rule run_one [OF r, of 7]) (simp_all add: s m)
  have r: "?r (Get_look True sample_key ''/x'' True) (sample_mem\<lparr>t_writer := [''/e'' \<mapsto> 0]\<rparr>)"
    by (rule run_one [OF r, of 7]) (simp_all add: s)
  show n: "?r (Get_new sample_key ''/x'') (sample_mem\<lparr>t_writer := [''/e'' \<mapsto> 0]\<rparr>)"
    by (rule run_one [OF r, of 7]) (simp_all add: s)
  have r: "?r (Get_unlock True sample_key ''/x'' True (Some 7)) (with_new 7 sample_key ''/x'' (sample_mem\<lparr>t_writer := [''/e'' \<mapsto> 0]\<rparr>))"
    by (rule run_one [OF n, of 7]) (simp_all add: s with_new_def)
  show "?r (Got sample_key ''/x'' True (Some 7)) (with_new 7 sample_key ''/x'' sample_mem)"
    by (rule run_one [OF r, of 6]) (simp_all add: s with_new_def y_start_def)
qed

section \<open>Properties\<close>

text \<open>
  C3. Subscriptions are safe under any interleaving of any number of threads, if no counter is asked to
  count \<open>2 ^ 32\<close> references: no thread touches freed memory, every count is the number of references there
  are, freed memory has none, and no key ever has two subscriptions that can be taken. \<open>sub_get\<close> returns a
  subscription of the key it was asked for, that the caller has a reference to, and always one if it may create
  it. When no call is running, exactly the subscriptions with references are in memory and in the tables.
\<close>

theorem sub_threads_safe:
  assumes "threads_run s"
  shows "\<not> t_fault (y_shared s) \<and>
    (\<forall>sub. owed s sub = (case t_heap (y_shared s) sub of None \<Rightarrow> 0 | Some m \<Rightarrow> unat (sub_refs m))) \<and>
    (\<forall>sub sub' m m'. t_heap (y_shared s) sub = Some m \<and> t_heap (y_shared s) sub' = Some m' \<and> sub_key m = sub_key m' \<and>
       sub_refs m \<noteq> 0 \<and> sub_refs m' \<noteq> 0 \<longrightarrow> sub = sub') \<and>
    (\<forall>i ev x oc r. y_pcs s i = Got ev x oc r \<longrightarrow>
       (oc \<longrightarrow> r \<noteq> None) \<and>
       (\<forall>sub. r = Some sub \<longrightarrow> (\<exists>m. t_heap (y_shared s) sub = Some m \<and> sub_key m = (ev_path ev, x) \<and> sub_refs m \<noteq> 0))) \<and>
    ((\<forall>i. y_pcs s i = Idle) \<longrightarrow>
       (\<forall>sub m. t_heap (y_shared s) sub = Some m \<longrightarrow> y_held s sub \<noteq> 0) \<and>
       (\<forall>sub k. t_table (y_shared s) k = Some sub \<longleftrightarrow> (\<exists>m. t_heap (y_shared s) sub = Some m \<and> sub_key m = k)))"
proof -
  have ok: "threads_ok s" by (rule threads_run_ok [OF assms])
  note k = threads_okD [OF ok] and d = memory_okD [OF threads_okD(3) [OF ok]] and c = counts_okD [OF threads_okD(4) [OF ok]]
  have "sub = sub'" if "t_heap (y_shared s) sub = Some m" "t_heap (y_shared s) sub' = Some m'" "sub_key m = sub_key m'"
    "sub_refs m \<noteq> 0" "sub_refs m' \<noteq> 0" for sub sub' m m'
    using d(3) [OF that(1,4)] d(3) [OF that(2,5)] that(3) by simp
  moreover have "(oc \<longrightarrow> r \<noteq> None) \<and>
       (\<forall>sub. r = Some sub \<longrightarrow> (\<exists>m. t_heap (y_shared s) sub = Some m \<and> sub_key m = (ev_path ev, x) \<and> sub_refs m \<noteq> 0))"
    if g: "y_pcs s i = Got ev x oc r" for i ev x oc r
  proof -
    have "sub_refs m \<noteq> 0" if m: "r = Some sub" "t_heap (y_shared s) sub = Some m" for sub m
    proof -
      have "i \<in> owners (y_pcs s) sub" using g m(1) by (simp add: owners_def)
      then have "owed s sub \<noteq> 0" using owners_finite [OF k(1), of sub] by (auto simp: owed_def)
      from held_refs [OF ok this] m(2) show ?thesis by auto
    qed
    then show ?thesis using k(6) [of i] g by auto
  qed
  moreover have "y_held s sub \<noteq> 0 \<and> t_table (y_shared s) (sub_key m) = Some sub"
    if "\<forall>i. y_pcs s i = Idle" "t_heap (y_shared s) sub = Some m" for sub m
  proof -
    have r: "sub_refs m \<noteq> 0" using ends_okD(2) [OF k(5) that(2)] that(1) by auto
    have "owners (y_pcs s) sub = {}" using that(1) by (simp add: owners_def)
    then have "y_held s sub = unat (sub_refs m)" using c [of sub] that(2) by (simp add: owed_def)
    with r d(3) [OF that(2) r] show ?thesis by (simp add: unat_eq_0)
  qed
  ultimately show ?thesis using d(1,2) c by blast
qed

text \<open>
  C2. The three operations are atomic: each step of each thread leaves the map from keys to countable
  subscriptions alone, or counts one reference more or less, or adds a subscription where there was none. The step
  at which \<open>sub_get\<close> gets its reference counts it for the key it was called with; the step at which it gives up
  finds nothing under that key.
\<close>

theorem sub_threads_atomic:
  assumes "threads_run s" "thread_step s t" "countable_refs t"
  shows "refs_spec (subs_of (y_shared s)) (subs_of (y_shared t)) \<and>
    (\<forall>i wr ev x oc r. y_pcs t i = Get_unlock wr ev x oc r \<and> y_pcs s i \<noteq> y_pcs t i \<longrightarrow>
       (case r of
          None \<Rightarrow> subs_of (y_shared s) (ev_path ev, x) = None
        | Some sub \<Rightarrow> subs_of (y_shared t) (ev_path ev, x) =
            Some (sub, Suc (case subs_of (y_shared s) (ev_path ev, x) of None \<Rightarrow> 0 | Some (b, n) \<Rightarrow> n))))"
proof -
  have ok: "threads_ok s" by (rule threads_run_ok [OF assms(1)])
  have ok': "threads_ok t" by (rule thread_step_ok [OF assms(2) ok assms(3)])
  note k = threads_okD [OF ok]
  have room: "unat (sub_refs m) + 1 < 2 ^ 32" if "t_heap (y_shared s) sub = Some m" "owed t sub = owed s sub + 1" for sub m
  proof -
    have "owed t sub < 2 ^ 32" using assms(3) unfolding countable_refs_def by blast
    with counts_okD [OF k(4), of sub] that show ?thesis by simp
  qed
  show ?thesis
    using assms(2)
  proof (cases rule: thread_step.cases)
    case (call_ref i sub)
    then have "owed s sub \<noteq> 0" by (simp add: owed_def)
    from held_refs [OF ok this] obtain m where m: "t_heap (y_shared s) sub = Some m" "sub_refs m \<noteq> 0" .
    have "y_shared t = set_refs sub m (sub_refs m + 1) (y_shared s)" "y_pcs t = y_pcs s" using call_ref m by (simp_all add: t_sub_ref_def)
    moreover have "unat (sub_refs m) + 1 < 2 ^ 32" by (rule room [OF m(1)]) (simp add: call_ref(1) owed_def)
    ultimately show ?thesis using inc_spec [OF k(3) m] by simp
  next
    case (run_get i a p h)
    from ok run_get(2) show ?thesis
    proof (cases rule: get_step_effect)
      case same
      with run_get(1) subs_of_cong [OF same(1,2)] show ?thesis
        by (auto intro: refs_spec.stay split: option.split if_splits)
    next
      case (cas wr ev x oc sub m)
      have "owed t sub = owed s sub + 1"
        using owed_upd [OF k(1), of i p h sub] cas(1,5) run_get(1) by simp
      note inc = inc_spec [OF k(3) cas(2,3) room [OF cas(2) this]]
      have "subs_of (y_shared s) (ev_path ev, x) = Some (sub, unat (sub_refs m))"
        using subs_of_Some [OF k(3) cas(2,3)] cas(4) by simp
      with inc cas(4-6) run_get(1) show ?thesis by (auto split: if_splits)
    next
      case (new ev x)
      have "pc_ok (y_shared s) (Get_new ev x)" using k(6) [of i] new(1) by simp
      with new_spec [OF k(3) run_get(3) this] new run_get(1) show ?thesis by (auto split: if_splits)
    qed
  next
    case (run_unref i p h)
    then show ?thesis using unref_step_effect [OF ok run_unref(2)] by auto
  qed (auto intro: refs_spec.stay split: if_splits)
qed


text \<open>
  C23. Calls end and nobody waits for ever on a lock: in every state in which a call is running, that call or one that holds
  a lock can go on; and a step of a call brings it nearer to its end (at most 12 steps for
  \<open>sub_get\<close>, 7 for \<open>sub_unref\<close>), unless it is a compare-and-swap that fails because another thread
  changed the count meanwhile.
\<close>

theorem sub_threads_progress:
  assumes "threads_run s" "y_pcs s i \<noteq> Idle"
  shows "(\<exists>j t. (j = i \<or> sect (y_pcs s j) \<noteq> None) \<and> thread_step s t \<and> y_pcs t j \<noteq> y_pcs s j) \<and>
    (\<forall>t. thread_step s t \<and> y_pcs t i \<noteq> y_pcs s i \<longrightarrow>
       steps_left (y_pcs t i) < steps_left (y_pcs s i) \<or> cas_fails (y_shared s) (y_pcs s i))"
proof -
  note l = locks_okD [OF threads_okD(2) [OF threads_run_ok [OF assms(1)]]]
  obtain a where a: "t_heap (y_shared s) a = None"
    using heap_finite [OF assms(1)] ex_new_if_finite [OF infinite_UNIV_nat] by (auto simp: dom_def)
  have "\<exists>j t. (j = i \<or> sect (y_pcs s j) \<noteq> None) \<and> thread_step s t \<and> y_pcs t j \<noteq> y_pcs s j"
  proof (cases "\<exists>e j wr. waits (y_pcs s i) = Some e \<and> sect (y_pcs s j) = Some (e, wr)")
    case True
    then obtain e j wr where j: "sect (y_pcs s j) = Some (e, wr)" by blast
    then have "waits (y_pcs s j) = None" "y_pcs s j \<noteq> Idle" by (cases "y_pcs s j"; simp)+
    with runs [OF _ a] j show ?thesis by blast
  next
    case False
    have "t_writer (y_shared s) e = None \<and> t_readers (y_shared s) e = {}" if "waits (y_pcs s i) = Some e" for e
      using False that l(1) [of _ e] l(2) [of e] by (cases "t_writer (y_shared s) e") auto
    then have "waits (y_pcs s i) = None \<or>
      (\<exists>e. waits (y_pcs s i) = Some e \<and> t_writer (y_shared s) e = None \<and> t_readers (y_shared s) e = {})"
      by (cases "waits (y_pcs s i)") auto
    from runs [OF assms(2) a this] show ?thesis by blast
  qed
  with call_left [OF _ assms(2)] show ?thesis by blast
qed

text \<open>
  A call that no other thread interferes with does what the sequential model says: result,
  memory and tables are those of \<open>sub_get\<close> and \<open>sub_unref\<close> in \<open>Sub_Refs\<close>, and it takes at most 12 and 7 steps.
\<close>

theorem sub_threads_alone:
  assumes "tables_live w" "w_sub_heap w sub = Some m"
  shows "alone 12 i (w_next_sid w) (Get_lock False ev x oc, shared_of w) =
      (Got ev x oc (fst (sub_get ev (Some x) oc w)), shared_of (snd (sub_get ev (Some x) oc w))) \<and>
    alone 7 i a (Unref_ev sub, shared_of w) = (Idle, shared_of (sub_unref sub w))"
  using alone_get [OF assms(1)] alone_unref [OF assms(2)] by blast

section \<open>The properties at the sample run\<close>

lemma sub_threads_safe_witness:
  "owed (one_thread (Got sample_key ''/x'' True (Some 7)) (with_new 7 sample_key ''/x'' sample_mem) (\<lambda>_. 0)) 7 = 1"
  using sub_threads_safe [OF sample_run(2)] by (simp add: one_thread_def with_new_def)

lemma sub_threads_atomic_witness:
  "refs_spec (subs_of (sample_mem\<lparr>t_writer := [''/e'' \<mapsto> 0]\<rparr>))
     (subs_of (with_new 7 sample_key ''/x'' (sample_mem\<lparr>t_writer := [''/e'' \<mapsto> 0]\<rparr>)))"
proof -
  let ?h = "sample_mem\<lparr>t_writer := [''/e'' \<mapsto> 0]\<rparr>"
  let ?s = "one_thread (Get_new sample_key ''/x'') ?h (\<lambda>_. 0)"
  let ?t = "one_thread (Get_unlock True sample_key ''/x'' True (Some 7)) (with_new 7 sample_key ''/x'' ?h) (\<lambda>_. 0)"
  have "thread_step ?s ?t"
    using thread_step.run_get [of 0 7 ?s "Get_unlock True sample_key ''/x'' True (Some 7)" "with_new 7 sample_key ''/x'' ?h"]
    by (simp add: one_thread_def with_new_def y_start_def)
  from sub_threads_atomic [OF sample_run(1) this one_countable] show ?thesis by (simp add: one_thread_def)
qed

lemma sub_threads_progress_witness:
  "\<exists>j t. thread_step (one_thread (Get_new sample_key ''/x'') (sample_mem\<lparr>t_writer := [''/e'' \<mapsto> 0]\<rparr>) (\<lambda>_. 0)) t \<and>
     y_pcs t j \<noteq> y_pcs (one_thread (Get_new sample_key ''/x'') (sample_mem\<lparr>t_writer := [''/e'' \<mapsto> 0]\<rparr>) (\<lambda>_. 0)) j"
proof -
  have "y_pcs (one_thread (Get_new sample_key ''/x'') (sample_mem\<lparr>t_writer := [''/e'' \<mapsto> 0]\<rparr>) (\<lambda>_. 0)) 0 \<noteq> Idle"
    by (simp add: one_thread_def)
  from sub_threads_progress [OF sample_run(1) this] show ?thesis by blast
qed

lemma sub_threads_alone_witness:
  "alone 7 0 0 (Unref_ev 0, shared_of (snd (sub_get sample_key None True init_world))) =
     (Idle, shared_of (sub_unref 0 (snd (sub_get sample_key None True init_world))))"
proof -
  let ?w = "snd (sub_get sample_key None True init_world)"
  let ?m = "\<lparr>sub_ev = sample_key, sub_ev_extra = [], sub_refs = 1\<rparr>"
  have "tables_live ?w" "w_sub_heap ?w 0 = Some ?m"
    by (simp_all add: tables_live_def sub_get_def get_if_exists_def new_sub_def init_world_def Let_def)
  from sub_threads_alone [OF this] show ?thesis by blast
qed

end
