(* ===== verification/Heartbeats.thy ===== *)
theory Heartbeats
  imports Read_Loop
begin

text \<open>
  Time (\<open>src/periodic.c\<close>, the intervals of \<open>src/protocols.c\<close>, and the heartbeats of the protocols): what one round of the
  periodic job does to a connection depends on how long it has been silent and how long nothing
  was sent to it. All times are in microseconds.
\<close>

section \<open>What callbacks leave alone\<close>

text \<open>The time, and of a client when it was last sent something.\<close>

definition clock :: "cid \<Rightarrow> world \<Rightarrow> int \<times> int" where
  "clock c w = (w_now w, c_last_send (w_clients w c))"

lemma clock_eqD:
  assumes "clock c v = clock c w"
  shows "w_now v = w_now w" "c_last_send (w_clients v c) = c_last_send (w_clients w c)"
  using assms by (simp_all add: clock_def)

lemma clock_steps [simp]:
  "clock c (emit e w) = clock c w" "clock c (stat_inc st w) = clock c w" "clock c (stat_dec st w) = clock c w"
  by (simp_all add: clock_def)

lemma clock_cb_free: "clock c (cb_free d i w) = clock c w"
  by (auto simp: cb_free_def cb_remove_def cb_data_free_def clock_def upd_client_def split: option.split)

lemma clock_upd [simp]: "(\<And>cl. c_last_send (f cl) = c_last_send cl) \<Longrightarrow> clock c (upd_client k f w) = clock c w"
  by (simp add: clock_def upd_client_def)

lemma clock_cb_new: "clock c (snd (client_cb_new E d fn data free_fn w)) = clock c w"
proof -
  have "clock c (cb_data_free a b u) = clock c u" for a b u by (simp add: cb_data_free_def split: option.split)
  moreover have "clock c (fault u) = clock c u" for u by (simp add: clock_def)
  ultimately show ?thesis by (simp add: client_cb_new_def clock_cb_free Let_def split: option.split)
qed

lemma clock_prune: "clock c (client_cb_prune d before w) = clock c w"
proof -
  have "clock c (fold (cb_prune_slot d before) is u) = clock c u" for "is" u
    by (induction "is" arbitrary: u) (simp_all add: cb_prune_slot_def clock_cb_free split: option.split)
  then show ?thesis by (simp add: client_cb_prune_def)
qed

section \<open>A heartbeat challenge\<close>

text \<open>The challenge is one event, and it counts as sent now.\<close>

lemma bruteforce_clock:
  assumes "c_handshaked (w_clients w c)" "c_prot (w_clients w c) = Some p" "p = P_raw \<or> p = P_rfc6455" "random_law E" "clients_ok w"
  shows "w_now (evs_send_bruteforce E c pre path x json fn data free_fn w) = w_now w \<and>
    c_last_send (w_clients (evs_send_bruteforce E c pre path x json fn data free_fn w) c) = w_now w \<and>
    (\<exists>bytes. writes (w_trace (evs_send_bruteforce E c pre path x json fn data free_fn w)) = writes (w_trace w) @ [(c, bytes)])"
proof -
  obtain cb w1 where n: "client_cb_new E (Some c) fn data free_fn w = (cb, w1)" by fastforce
  have k: "w_now w1 = w_now w" using clock_eqD(1) [OF clock_cb_new [of c E "Some c" fn data free_fn w]] n by simp
  have "calm w w1" using calm_cb_new [OF assms(4) clients_okD(2) [OF assms(5)], of c fn data free_fn] n by simp
  then have s: "c_handshaked (w_clients w1 c)" "c_prot (w_clients w1 c) = Some p" using assms(1,2) by (simp_all add: calm_def)
  have "writes (w_trace w1) = writes (w_trace w)" using writes_cb_new [of E "Some c" fn data free_fn w] n by simp
  then show ?thesis
    using s assms(3) k
    by (auto simp: evs_send_bruteforce_def n protocols_send_def send_frames_def touch_send_def prot_frame_def
        protocol_raw_frame_def protocol_rfc6455_frame_def Let_def)
qed

lemma silent_send_response:
  assumes "c_in_request (w_clients w c)"
  shows "w_now (snd (send_response E (Some c) st resp w)) = w_now w \<and>
    c_last_send (w_clients (snd (send_response E (Some c) st resp w)) c) = w_now w \<and>
    c_http_client (w_clients (snd (send_response E (Some c) st resp w)) c) = None"
proof -
  have "w_now (surr_release_client s d u) = w_now u" "c_last_send (w_clients (surr_release_client s d u) c) = c_last_send (w_clients u c)"
    "c_http_client (w_clients u c) = None \<Longrightarrow> c_http_client (w_clients (surr_release_client s d u) c) = None" for s d u
    by (auto simp: surr_release_client_def split: option.split)
  then show ?thesis using assms by (auto simp: send_response_eq steal_client_def respond_def touch_send_def Let_def split: option.split)
qed

section \<open>Properties\<close>

lemma intervals:
  "hb_dead (protocols_heartbeat_get_intervals E w) = w_now w - 960000000"
  "hb_challenge (protocols_heartbeat_get_intervals E w) = w_now w - 900000000"
  "hb_heartbeat (protocols_heartbeat_get_intervals E w) = w_now w - 51000000"
  "hb_poll (protocols_heartbeat_get_intervals E w) = w_now w - 45000000"
  "hb_timeout (protocols_heartbeat_get_intervals E w) = w_now w - cfg_timeout E * 1000"
  "HEARTBEAT_POLL = 55000000" "HEARTBEAT_INTERVAL = 61000000" "PERIODIC_INTERVAL_USEC = 10000000"
  by (simp_all add: protocols_heartbeat_get_intervals_def HEARTBEAT_POLL_def HEARTBEAT_INTERVAL_def
      HEARTBEAT_CHALLENGE_INTERVAL_def HEARTBEAT_DEAD_def PERIODIC_INTERVAL_USEC_def Let_def)





end
