(* ===== verification/Routed.thy ===== *)
theory Routed
  imports Apps
begin

text \<open>
  What handlers are handed. The registry only holds what \<open>evs_add_handler\<close> was called with, under
  cleaned paths, and a lookup splits the cleaned path of an event into the path of the event found and
  the segments behind it: an application never sees anything else.
\<close>

definition registers :: "registration list \<Rightarrow> string \<Rightarrow> event \<Rightarrow> bool" where
  "registers regs path ev \<longleftrightarrow>
     list_ex (\<lambda>(pre, p, h, on, off, ch). evs_make_path pre p None = path \<and> ev = event_init path h on off ch) regs"

definition typed_events :: "registration list \<Rightarrow> world \<Rightarrow> bool" where
  "typed_events regs w \<longleftrightarrow> wf_trie (w_events w) \<and>
     (\<forall>r ev. (\<forall>c \<in> set r. in_range c) \<longrightarrow> event_at (w_events w) r = Some ev \<longrightarrow> r \<noteq> [] \<and> registers regs (CHR ''/'' # r) ev)"

lemma typed_eventsD:
  assumes "typed_events regs w"
  shows "wf_trie (w_events w)"
    "\<forall>c \<in> set r. in_range c \<Longrightarrow> event_at (w_events w) r = Some ev \<Longrightarrow> r \<noteq> [] \<and> registers regs (CHR ''/'' # r) ev"
  using assms unfolding typed_events_def by blast+

lemma made_path:
  assumes "skip_slash (evs_make_path pre p None) \<noteq> []"
  shows "evs_make_path pre p None = CHR ''/'' # skip_slash (evs_make_path pre p None)"
  using evs_make_path_absolute [of pre p None] assms by (cases "evs_make_path pre p None") (auto simp: skip_slash_def)

lemma add_typed:
  assumes "typed_events regs w"
  shows "typed_events (regs @ [(pre, p, h, on, off, ch)]) (snd (evs_add_handler pre p h on off ch w))"
proof -
  let ?path = "evs_make_path pre p None"
  let ?s = "skip_slash ?path"
  note d = typed_eventsD [OF assms]
  have more: "registers (regs @ [(pre, p, h, on, off, ch)]) path ev \<longleftrightarrow>
      registers regs path ev \<or> ?path = path \<and> ev = event_init path h on off ch" for path ev
    by (simp add: registers_def)
  from d(1) show ?thesis
  proof (rule add_handler_events [of w pre p h on off ch])
    fix ok t assume t: "evs_query_insert (w_events w) ?path h on off ch = Some (ok, t)" "wf_trie t"
      "evs_add_handler pre p h on off ch w = (ok, w\<lparr>w_events := t\<rparr>)"
    show ?thesis
    proof (cases "?s = []")
      case True
      with t(1) have "t = w_events w" by (simp add: evs_query_insert_def)
      with t assms more show ?thesis by (auto simp: typed_events_def)
    next
      case False
      have r: "\<forall>c \<in> set ?s. in_range c"
        using clean_in_range evs_make_path_is_clean [of pre p None] skip_slash_set [of ?path] by blast
      have i: "insert_walk (w_events w) ?s (event_init ?path h on off ch) = Some (ok, t)"
        using t(1) False by (simp add: evs_query_insert_def Let_def)
      have "x \<noteq> [] \<and> registers (regs @ [(pre, p, h, on, off, ch)]) (CHR ''/'' # x) ev"
        if x: "\<forall>c \<in> set x. in_range c" "event_at t x = Some ev" for x ev
      proof (cases "ok \<and> x = ?s")
        case True
        with insert_walk_event_at [OF i x(1) r] x(2) have "ev = event_init ?path h on off ch" by simp
        with True False made_path [OF False] show ?thesis by (simp add: more)
      next
        case F: False
        with insert_walk_event_at [OF i x(1) r] x(2) have "event_at (w_events w) x = Some ev" by auto
        from d(2) [OF x(1) this] show ?thesis by (simp add: more)
      qed
      with t show ?thesis by (simp add: typed_events_def)
    qed
  qed
qed

lemma register_typed: "typed_events regs (register regs init_world)"
proof (induction regs rule: rev_induct)
  case Nil
  show ?case using trie.inv_emp by (simp add: typed_events_def register_def init_world_def empty_trie_def)
next
  case (snoc reg regs)
  obtain pre p h on off ch where reg: "reg = (pre, p, h, on, off, ch)" by (cases reg)
  from add_typed [OF snoc, of pre p h on off ch] show ?case by (simp add: register_def reg)
qed

lemma no_double_slash_append: "no_double_slash (a @ b) \<Longrightarrow> no_double_slash a \<and> no_double_slash b"
  by (induction a) (auto simp: no_double_slash_Cons)

lemma clean_suffix: "is_clean (a @ b) \<Longrightarrow> is_clean b"
  using no_double_slash_append [of a b] by (auto simp: is_clean_def)

lemma query_splits:
  assumes "wf_trie t" "\<forall>c \<in> set p. in_range c" "evs_query t p = Q_found ev x"
  shows "\<exists>r. skip_slash p = r @ x \<and> event_at t r = Some ev \<and> (x = [] \<or> hd x = CHR ''/'' \<and> handle_children ev)"
proof -
  let ?s = "skip_slash p"
  from assms(3) have q: "reg_query (event_at t) (\<lambda>s. node_at t s \<noteq> None) ?s = Q_found ev x"
    by (simp add: evs_query_spec [OF assms(1,2)])
  show ?thesis
  proof (cases "node_at t ?s \<noteq> None")
    case True
    with q show ?thesis by (intro exI [of _ ?s]) (auto simp: reg_query_def split: option.splits)
  next
    case False
    with q obtain n where n: "deepest (event_at t) ?s = Some n" "?s ! n = CHR ''/''" "ev = the (event_at t (take n ?s))" "x = drop n ?s"
      by (auto simp: reg_query_def split: option.splits if_splits)
    from deepest_Some [OF n(1)] have "n < length ?s" "handles_at (event_at t) (take n ?s)" by auto
    with n show ?thesis by (intro exI [of _ "take n ?s"]) (auto simp: handles_at_def hd_drop_conv_nth split: option.splits)
  qed
qed



end
