(* ===== verification/Query_Threads.thy ===== *)
theory Query_Threads
  imports Evs_Query
begin

text \<open>
  Registration by several threads (\<open>evs_query_insert\<close> of \<open>src/evs_query.c\<close>). The mutex covers the walk that creates
  the nodes; whether the node has an event is looked at, and the event is initialised, after the mutex was
  released. Threads that register different paths do not disturb each other; two that register the same
  path can both succeed.
\<close>

section \<open>The two halves of a registration\<close>

text \<open>Creating the nodes of a path, and initialising the event of the node a path leads to.\<close>

fun grow :: "ptrie \<Rightarrow> string \<Rightarrow> ptrie option" where
  "grow t [] = Some t"
| "grow (Ptrie ev ch childs) (c # cs) =
     (let i = child_index c in
      if i < length childs then
        case grow (case childs ! i of None \<Rightarrow> new_node i | Some t \<Rightarrow> t) cs of
          None \<Rightarrow> None
        | Some t \<Rightarrow> Some (Ptrie ev ch (childs[i := Some t]))
      else None)"

fun put_event :: "ptrie \<Rightarrow> string \<Rightarrow> event \<Rightarrow> ptrie option" where
  "put_event (Ptrie ev ch childs) [] e = Some (Ptrie (Some e) ch childs)"
| "put_event (Ptrie ev ch childs) (c # cs) e =
     (let i = child_index c in
      if i < length childs then
        (case childs ! i of
           None \<Rightarrow> None
         | Some t \<Rightarrow> (case put_event t cs e of None \<Rightarrow> None | Some u \<Rightarrow> Some (Ptrie ev ch (childs[i := Some u]))))
      else None)"

text \<open>One after the other they are the registration of \<open>Evs_Query\<close>.\<close>

lemma insert_walk_halves:
  "insert_walk t s e =
     (case grow t s of
        None \<Rightarrow> None
      | Some u \<Rightarrow> if event_at u s = None then map_option (Pair True) (put_event u s e) else Some (False, u))"
proof (induction s arbitrary: t)
  case Nil
  show ?case by (cases t) (simp add: event_at_def split: option.split)
next
  case (Cons c cs)
  obtain ev ch childs where t: "t = Ptrie ev ch childs" by (cases t)
  show ?case
    by (cases "child_index c < length childs")
      (auto simp: t Let_def Cons.IH event_at_def split: option.split)
qed

lemma child_node:
  assumes "t = Ptrie ev ch childs" "child_index c < length childs"
  shows "event_at (case childs ! child_index c of None \<Rightarrow> new_node (child_index c) | Some t \<Rightarrow> t) q = event_at t (c # q)"
    "node_at (case childs ! child_index c of None \<Rightarrow> new_node (child_index c) | Some t \<Rightarrow> t) q \<noteq> None \<longleftrightarrow>
      node_at t (c # q) \<noteq> None \<or> q = []"
proof -
  have n: "node_at (new_node i) q = None \<or> q = []" for i by (cases q) (auto simp: node_at_Cons new_node_def)
  have "event_at t (c # q) = None" if "childs ! child_index c = None" using assms that by (simp add: event_at_def)
  then show "event_at (case childs ! child_index c of None \<Rightarrow> new_node (child_index c) | Some t \<Rightarrow> t) q = event_at t (c # q)"
    using assms event_at_new_node [of "child_index c" q] by (cases "childs ! child_index c") (simp_all add: event_at_def)
  show "node_at (case childs ! child_index c of None \<Rightarrow> new_node (child_index c) | Some t \<Rightarrow> t) q \<noteq> None \<longleftrightarrow>
      node_at t (c # q) \<noteq> None \<or> q = []"
    using assms n [of "child_index c"] by (cases "childs ! child_index c"; cases q) auto
qed

lemma grow_spec:
  "grow t s = Some u \<Longrightarrow> \<forall>c \<in> set s. in_range c \<Longrightarrow> \<forall>c \<in> set r. in_range c \<Longrightarrow>
   event_at u r = event_at t r \<and> (node_at u r \<noteq> None \<longleftrightarrow> node_at t r \<noteq> None \<or> prefix r s)"
proof (induction s arbitrary: t u r)
  case Nil
  then show ?case by (cases r) (auto simp: event_at_def)
next
  case (Cons c cs)
  obtain ev ch childs where t: "t = Ptrie ev ch childs" by (cases t)
  let ?i = "child_index c"
  from Cons.prems t obtain v where i: "?i < length childs"
    and v: "grow (case childs ! ?i of None \<Rightarrow> new_node ?i | Some t \<Rightarrow> t) cs = Some v"
    and u: "u = Ptrie ev ch (childs[?i := Some v])"
    by (auto simp: Let_def split: if_splits option.splits)
  show ?case
  proof (cases r)
    case Nil
    with t u show ?thesis by (simp add: event_at_def)
  next
    case r: (Cons d ds)
    show ?thesis
    proof (cases "d = c")
      case True
      have "event_at u r = event_at v ds" "node_at u r = node_at v ds" using True r u i by (simp_all add: event_at_def)
      then show ?thesis using Cons.IH [OF v, of ds] Cons.prems r True child_node [OF t i, of ds] by auto
    next
      case False
      then have "child_index d \<noteq> ?i" using child_index_inj r Cons.prems by auto
      then have "event_at u r = event_at t r" "node_at u r = node_at t r" using r u t by (simp_all add: event_at_def)
      with False r show ?thesis by simp
    qed
  qed
qed

lemma wf_child: "wf_trie (Ptrie ev ch childs) \<Longrightarrow> i < length childs \<Longrightarrow>
   wf_trie (case childs ! i of None \<Rightarrow> new_node i | Some t \<Rightarrow> t)"
  by (cases "childs ! i") (auto elim!: wf_trieE dest: nth_mem)

lemma wf_child_update:
  assumes "wf_trie (Ptrie ev ch childs)" "wf_trie v"
  shows "wf_trie (Ptrie ev' ch (childs[i := Some v]))"
  using assms set_update_subset_insert [of childs i "Some v"] by (auto elim!: wf_trieE intro!: wf_trie.intros)

lemma grow_in_range: "wf_trie t \<Longrightarrow> \<forall>c \<in> set s. in_range c \<Longrightarrow> \<exists>u. grow t s = Some u \<and> wf_trie u"
proof (induction s arbitrary: t)
  case (Cons c cs)
  obtain ev ch childs where t: "t = Ptrie ev ch childs" by (cases t)
  with Cons.prems have i: "child_index c < length childs" by (auto elim!: wf_trieE simp: in_range_index)
  from Cons.IH [OF wf_child [OF Cons.prems(1) [unfolded t] i]] Cons.prems(2)
  obtain v where v: "grow (case childs ! child_index c of None \<Rightarrow> new_node (child_index c) | Some t \<Rightarrow> t) cs = Some v" "wf_trie v"
    by auto
  then show ?case using i t wf_child_update [OF Cons.prems(1) [unfolded t] v(2)] by (simp add: Let_def)
qed simp

lemma put_event_spec:
  "wf_trie t \<Longrightarrow> node_at t s \<noteq> None \<Longrightarrow> \<forall>c \<in> set s. in_range c \<Longrightarrow>
   \<exists>u. put_event t s e = Some u \<and> wf_trie u \<and>
     (\<forall>r. (\<forall>c \<in> set r. in_range c) \<longrightarrow> event_at u r = (if r = s then Some e else event_at t r) \<and>
       (node_at u r \<noteq> None \<longleftrightarrow> node_at t r \<noteq> None))"
proof (induction s arbitrary: t)
  case Nil
  obtain ev ch childs where t: "t = Ptrie ev ch childs" by (cases t)
  have "event_at (Ptrie (Some e) ch childs) r = (if r = [] then Some e else event_at t r) \<and>
    (node_at (Ptrie (Some e) ch childs) r \<noteq> None \<longleftrightarrow> node_at t r \<noteq> None)" for r
    by (cases r) (simp_all add: t event_at_def)
  moreover have "wf_trie (Ptrie (Some e) ch childs)" using Nil t by (auto elim!: wf_trieE intro!: wf_trie.intros)
  ultimately show ?case by (simp add: t)
next
  case (Cons c cs)
  obtain ev ch childs where t: "t = Ptrie ev ch childs" by (cases t)
  let ?i = "child_index c"
  from Cons.prems(2) obtain x where x: "?i < length childs" "childs ! ?i = Some x" "node_at x cs \<noteq> None"
    by (auto simp: t split: if_splits option.splits)
  have "wf_trie x" using wf_child [OF Cons.prems(1) [unfolded t] x(1)] x(2) by simp
  from Cons.IH [OF this x(3)] Cons.prems(3) obtain v where v: "put_event x cs e = Some v" "wf_trie v"
    "\<And>r. \<forall>c \<in> set r. in_range c \<Longrightarrow> event_at v r = (if r = cs then Some e else event_at x r) \<and>
       (node_at v r \<noteq> None \<longleftrightarrow> node_at x r \<noteq> None)" by auto
  let ?u = "Ptrie ev ch (childs[?i := Some v])"
  have "event_at ?u r = (if r = c # cs then Some e else event_at t r) \<and> (node_at ?u r \<noteq> None \<longleftrightarrow> node_at t r \<noteq> None)"
    if r: "\<forall>c \<in> set r. in_range c" for r
  proof (cases r)
    case Nil
    then show ?thesis by (simp add: t event_at_def)
  next
    case d: (Cons d ds)
    show ?thesis
    proof (cases "d = c")
      case True
      then show ?thesis using v(3) [of ds] r d x t by (simp add: event_at_def)
    next
      case False
      then have "child_index d \<noteq> ?i" using child_index_inj d r Cons.prems(3) by auto
      then show ?thesis using False d t by (simp add: event_at_def)
    qed
  qed
  then show ?case using v(1) x wf_child_update [OF Cons.prems(1) [unfolded t] v(2)] by (auto simp: t Let_def)
qed

section \<open>The threads\<close>

text \<open>
  Thread \<open>i\<close> registers the event \<open>snd (job i)\<close> under \<open>fst (job i)\<close>, the path behind its leading slash. With the
  mutex held it has walked \<open>n\<close> characters; an index out of the array sets \<open>r_fault\<close>.
\<close>

type_synonym rtid = nat

datatype rpc = R_lock | R_walk nat | R_unlock | R_check | R_init | R_done bool

record registering =
  r_tree :: ptrie
  r_mutex :: "rtid option"
  r_pcs :: "rtid \<Rightarrow> rpc"
  r_fault :: bool

definition r_start :: "ptrie \<Rightarrow> registering" where
  "r_start t = \<lparr>r_tree = t, r_mutex = None, r_pcs = (\<lambda>_. R_lock), r_fault = False\<rparr>"

fun insert_step :: "(rtid \<Rightarrow> string \<times> event) \<Rightarrow> rtid \<Rightarrow> rpc \<Rightarrow> registering \<Rightarrow> (rpc \<times> registering) option" where
  "insert_step job i R_lock y = (if r_mutex y = None then Some (R_walk 0, y\<lparr>r_mutex := Some i\<rparr>) else None)"
| "insert_step job i (R_walk n) y =
     (if n < length (fst (job i)) then
        (case grow (r_tree y) (take (Suc n) (fst (job i))) of
           None \<Rightarrow> Some (R_done False, y\<lparr>r_fault := True\<rparr>)
         | Some t \<Rightarrow> Some (R_walk (Suc n), y\<lparr>r_tree := t\<rparr>))
      else Some (R_unlock, y))"
| "insert_step job i R_unlock y = Some (R_check, y\<lparr>r_mutex := None\<rparr>)"
| "insert_step job i R_check y =
     Some (if event_at (r_tree y) (fst (job i)) \<noteq> None then R_done False else R_init, y)"
| "insert_step job i R_init y =
     (case put_event (r_tree y) (fst (job i)) (snd (job i)) of
        None \<Rightarrow> Some (R_done False, y\<lparr>r_fault := True\<rparr>)
      | Some t \<Rightarrow> Some (R_done True, y\<lparr>r_tree := t\<rparr>))"
| "insert_step job i (R_done ok) y = None"

inductive reg_step :: "(rtid \<Rightarrow> string \<times> event) \<Rightarrow> registering \<Rightarrow> registering \<Rightarrow> bool"
  for job where
  run: "insert_step job i (r_pcs y i) y = Some (p, z) \<Longrightarrow> reg_step job y (z\<lparr>r_pcs := (r_pcs y)(i := p)\<rparr>)"

text \<open>What holds whatever is registered: the tree is sound, and who has walked has its node.\<close>

fun walked :: "ptrie \<Rightarrow> string \<Rightarrow> rpc \<Rightarrow> bool" where
  "walked t s (R_walk n) = (n \<le> length s \<and> node_at t (take n s) \<noteq> None)"
| "walked t s R_unlock = (node_at t s \<noteq> None)"
| "walked t s R_check = (node_at t s \<noteq> None)"
| "walked t s R_init = (node_at t s \<noteq> None)"
| "walked t s p = True"

definition sound :: "(rtid \<Rightarrow> string \<times> event) \<Rightarrow> registering \<Rightarrow> bool" where
  "sound job y \<longleftrightarrow> \<not> r_fault y \<and> wf_trie (r_tree y) \<and> (\<forall>i. walked (r_tree y) (fst (job i)) (r_pcs y i))"

lemma walked_mono:
  "walked t s p \<Longrightarrow> \<forall>c \<in> set s. in_range c \<Longrightarrow> (\<And>r. \<forall>c \<in> set r. in_range c \<Longrightarrow> node_at t r \<noteq> None \<Longrightarrow> node_at u r \<noteq> None) \<Longrightarrow>
   walked u s p"
  by (cases p) (auto dest: in_set_takeD, metis in_set_takeD option.distinct(1))

text \<open>
  One step: nothing happens to events, or the thread that looked initialises the event of its path.
\<close>

lemma reg_step_effect:
  assumes "reg_step job y z" "sound job y" "\<And>i. good_key (fst (job i))"
  shows "sound job z" and "\<exists>i. (\<forall>j. j \<noteq> i \<longrightarrow> r_pcs z j = r_pcs y j) \<and> (\<forall>ok. r_pcs y i \<noteq> R_done ok) \<and>
    (if r_pcs y i = R_init then r_pcs z i = R_done True \<and>
       (\<forall>r. (\<forall>c \<in> set r. in_range c) \<longrightarrow> event_at (r_tree z) r = (if r = fst (job i) then Some (snd (job i)) else event_at (r_tree y) r))
     else (\<forall>r. (\<forall>c \<in> set r. in_range c) \<longrightarrow> event_at (r_tree z) r = event_at (r_tree y) r) \<and> r_pcs z i \<noteq> R_done True \<and>
       (r_pcs z i = R_init \<longrightarrow> event_at (r_tree y) (fst (job i)) = None) \<and>
       (r_pcs z i = R_done False \<longrightarrow> r_pcs y i = R_check \<and> event_at (r_tree y) (fst (job i)) \<noteq> None))"
proof -
  from assms(1) obtain i p z' where st: "insert_step job i (r_pcs y i) y = Some (p, z')" "z = z'\<lparr>r_pcs := (r_pcs y)(i := p)\<rparr>"
    by (cases rule: reg_step.cases) auto
  have g: "\<forall>c \<in> set (fst (job j)). in_range c" for j using assms(3) [of j] by (simp add: good_key_def)
  from assms(2) have s: "\<not> r_fault y" "wf_trie (r_tree y)" "\<And>j. walked (r_tree y) (fst (job j)) (r_pcs y j)"
    by (simp_all add: sound_def)
  let ?s = "fst (job i)"
  have "sound job z \<and> (if r_pcs y i = R_init then r_pcs z i = R_done True \<and>
       (\<forall>r. (\<forall>c \<in> set r. in_range c) \<longrightarrow> event_at (r_tree z) r = (if r = ?s then Some (snd (job i)) else event_at (r_tree y) r))
     else (\<forall>r. (\<forall>c \<in> set r. in_range c) \<longrightarrow> event_at (r_tree z) r = event_at (r_tree y) r) \<and> r_pcs z i \<noteq> R_done True \<and>
       (r_pcs z i = R_init \<longrightarrow> event_at (r_tree y) ?s = None) \<and>
       (r_pcs z i = R_done False \<longrightarrow> r_pcs y i = R_check \<and> event_at (r_tree y) ?s \<noteq> None))"
  proof (cases "r_pcs y i")
    case (R_walk n)
    show ?thesis
    proof (cases "n < length ?s")
      case True
      have gr: "\<forall>c \<in> set (take (Suc n) ?s). in_range c" using g by (auto dest: in_set_takeD)
      from grow_in_range [OF s(2) this] obtain u where u: "grow (r_tree y) (take (Suc n) ?s) = Some u" "wf_trie u" by blast
      with st R_walk True have z: "z = y\<lparr>r_tree := u, r_pcs := (r_pcs y)(i := R_walk (Suc n))\<rparr>" by auto
      note sp = grow_spec [OF u(1) gr]
      have "walked u (fst (job j)) (r_pcs y j)" for j by (rule walked_mono [OF s(3) g]) (use sp in blast)
      moreover have "node_at u (take (Suc n) ?s) \<noteq> None" using sp [OF gr] by simp
      ultimately have "sound job z" using s u True by (simp add: sound_def z)
      then show ?thesis using sp R_walk by (simp add: z)
    next
      case False
      with st R_walk have z: "z = y\<lparr>r_pcs := (r_pcs y)(i := R_unlock)\<rparr>" by auto
      have "take n ?s = ?s" using False by simp
      then show ?thesis using s s(3) [of i] R_walk by (simp add: sound_def z)
    qed
  next
    case R_init
    then have "node_at (r_tree y) ?s \<noteq> None" using s(3) [of i] by simp
    from put_event_spec [OF s(2) this g, of "snd (job i)"] obtain u where u: "put_event (r_tree y) ?s (snd (job i)) = Some u" "wf_trie u"
      "\<And>r. \<forall>c \<in> set r. in_range c \<Longrightarrow> event_at u r = (if r = ?s then Some (snd (job i)) else event_at (r_tree y) r) \<and>
        (node_at u r \<noteq> None \<longleftrightarrow> node_at (r_tree y) r \<noteq> None)" by blast
    with st R_init have z: "z = y\<lparr>r_tree := u, r_pcs := (r_pcs y)(i := R_done True)\<rparr>" by auto
    have "walked u (fst (job j)) (r_pcs y j)" for j by (rule walked_mono [OF s(3) g]) (use u(3) in blast)
    then have "sound job z" using s u by (simp add: sound_def z)
    then show ?thesis using u(3) R_init by (simp add: z)
  next
    case R_check
    then have "node_at (r_tree y) ?s \<noteq> None" using s(3) [of i] by simp
    then show ?thesis using st s R_check by (auto simp: sound_def split: if_splits)
  next
    case R_unlock
    then have "node_at (r_tree y) ?s \<noteq> None" using s(3) [of i] by simp
    then show ?thesis using st s R_unlock by (auto simp: sound_def)
  qed (use st s in \<open>auto simp: sound_def split: if_splits\<close>)
  moreover have "r_pcs z j = r_pcs y j" if "j \<noteq> i" for j using st that by simp
  moreover have "r_pcs y i \<noteq> R_done ok" for ok using st(1) by auto
  ultimately show "sound job z" and "\<exists>i. (\<forall>j. j \<noteq> i \<longrightarrow> r_pcs z j = r_pcs y j) \<and> (\<forall>ok. r_pcs y i \<noteq> R_done ok) \<and>
    (if r_pcs y i = R_init then r_pcs z i = R_done True \<and>
       (\<forall>r. (\<forall>c \<in> set r. in_range c) \<longrightarrow> event_at (r_tree z) r = (if r = fst (job i) then Some (snd (job i)) else event_at (r_tree y) r))
     else (\<forall>r. (\<forall>c \<in> set r. in_range c) \<longrightarrow> event_at (r_tree z) r = event_at (r_tree y) r) \<and> r_pcs z i \<noteq> R_done True \<and>
       (r_pcs z i = R_init \<longrightarrow> event_at (r_tree y) (fst (job i)) = None) \<and>
       (r_pcs z i = R_done False \<longrightarrow> r_pcs y i = R_check \<and> event_at (r_tree y) (fst (job i)) \<noteq> None))"
    by blast+
qed

text \<open>Distinct paths: what a thread sees of its path is what was there at the start.\<close>

definition own_paths :: "(rtid \<Rightarrow> string \<times> event) \<Rightarrow> ptrie \<Rightarrow> registering \<Rightarrow> bool" where
  "own_paths job t0 y \<longleftrightarrow>
     (\<forall>r. (\<forall>c \<in> set r. in_range c) \<longrightarrow> (\<forall>i. fst (job i) = r \<longrightarrow> r_pcs y i \<noteq> R_done True) \<longrightarrow> event_at (r_tree y) r = event_at t0 r) \<and>
     (\<forall>i. r_pcs y i = R_init \<longrightarrow> event_at t0 (fst (job i)) = None) \<and>
     (\<forall>i. r_pcs y i = R_done True \<longrightarrow>
        event_at t0 (fst (job i)) = None \<and> event_at (r_tree y) (fst (job i)) = Some (snd (job i))) \<and>
     (\<forall>i. r_pcs y i = R_done False \<longrightarrow> event_at t0 (fst (job i)) \<noteq> None)"

lemma own_pathsD:
  assumes "own_paths job t0 y"
  shows "\<forall>c \<in> set r. in_range c \<Longrightarrow> (\<And>i. fst (job i) = r \<Longrightarrow> r_pcs y i \<noteq> R_done True) \<Longrightarrow> event_at (r_tree y) r = event_at t0 r"
    "r_pcs y i = R_init \<Longrightarrow> event_at t0 (fst (job i)) = None"
    "r_pcs y i = R_done True \<Longrightarrow> event_at t0 (fst (job i)) = None \<and> event_at (r_tree y) (fst (job i)) = Some (snd (job i))"
    "r_pcs y i = R_done False \<Longrightarrow> event_at t0 (fst (job i)) \<noteq> None"
  using assms unfolding own_paths_def by blast+

lemma own_pathsI:
  assumes "\<And>r. \<forall>c \<in> set r. in_range c \<Longrightarrow> (\<And>i. fst (job i) = r \<Longrightarrow> r_pcs y i \<noteq> R_done True) \<Longrightarrow> event_at (r_tree y) r = event_at t0 r"
    "\<And>i. r_pcs y i = R_init \<Longrightarrow> event_at t0 (fst (job i)) = None"
    "\<And>i. r_pcs y i = R_done True \<Longrightarrow> event_at t0 (fst (job i)) = None \<and> event_at (r_tree y) (fst (job i)) = Some (snd (job i))"
    "\<And>i. r_pcs y i = R_done False \<Longrightarrow> event_at t0 (fst (job i)) \<noteq> None"
  shows "own_paths job t0 y"
  unfolding own_paths_def using assms by blast

lemma reg_step_own:
  assumes "reg_step job y z" "sound job y" "\<And>i. good_key (fst (job i))" "inj (fst \<circ> job)" "own_paths job t0 y"
  shows "own_paths job t0 z"
proof -
  note d = own_pathsD [OF assms(5)]
  have g: "\<forall>c \<in> set (fst (job j)). in_range c" for j using assms(3) [of j] by (simp add: good_key_def)
  have inj: "fst (job j) = fst (job i) \<longleftrightarrow> j = i" for i j using assms(4) by (auto simp: inj_def)
  from reg_step_effect(2) [OF assms(1-3)] obtain i where o: "\<And>j. j \<noteq> i \<Longrightarrow> r_pcs z j = r_pcs y j"
    and nd: "\<And>ok. r_pcs y i \<noteq> R_done ok" and e: "if r_pcs y i = R_init then r_pcs z i = R_done True \<and>
       (\<forall>r. (\<forall>c \<in> set r. in_range c) \<longrightarrow> event_at (r_tree z) r = (if r = fst (job i) then Some (snd (job i)) else event_at (r_tree y) r))
     else (\<forall>r. (\<forall>c \<in> set r. in_range c) \<longrightarrow> event_at (r_tree z) r = event_at (r_tree y) r) \<and> r_pcs z i \<noteq> R_done True \<and>
       (r_pcs z i = R_init \<longrightarrow> event_at (r_tree y) (fst (job i)) = None) \<and>
       (r_pcs z i = R_done False \<longrightarrow> r_pcs y i = R_check \<and> event_at (r_tree y) (fst (job i)) \<noteq> None)" by blast
  show ?thesis
  proof (cases "r_pcs y i = R_init")
    case True
    with e have z: "r_pcs z i = R_done True"
      "\<And>r. \<forall>c \<in> set r. in_range c \<Longrightarrow> event_at (r_tree z) r = (if r = fst (job i) then Some (snd (job i)) else event_at (r_tree y) r)"
      by simp_all
    show ?thesis
    proof (rule own_pathsI)
      fix r assume r: "\<forall>c \<in> set r. in_range c" "\<And>i. fst (job i) = r \<Longrightarrow> r_pcs z i \<noteq> R_done True"
      from r(2) [of i] z(1) have "r \<noteq> fst (job i)" by auto
      moreover have "r_pcs y j \<noteq> R_done True" if "fst (job j) = r" for j using r(2) [OF that] o [of j] True by (cases "j = i") auto
      ultimately show "event_at (r_tree z) r = event_at t0 r" using z(2) [OF r(1)] d(1) [OF r(1)] by simp
    next
      fix j
      show "r_pcs z j = R_init \<Longrightarrow> event_at t0 (fst (job j)) = None" using d(2) [of j] o [of j] z(1) by (cases "j = i") auto
      show "r_pcs z j = R_done False \<Longrightarrow> event_at t0 (fst (job j)) \<noteq> None" using d(4) [of j] o [of j] z(1) by (cases "j = i") auto
      show "r_pcs z j = R_done True \<Longrightarrow> event_at t0 (fst (job j)) = None \<and> event_at (r_tree z) (fst (job j)) = Some (snd (job j))"
        using d(3) [of j] d(2) [OF True] o [of j] z(2) [OF g [of j]] inj [of j i] by (cases "j = i") auto
    qed
  next
    case False
    with e have z: "\<And>r. \<forall>c \<in> set r. in_range c \<Longrightarrow> event_at (r_tree z) r = event_at (r_tree y) r" "r_pcs z i \<noteq> R_done True"
      "r_pcs z i = R_init \<Longrightarrow> event_at (r_tree y) (fst (job i)) = None"
      "r_pcs z i = R_done False \<Longrightarrow> r_pcs y i = R_check \<and> event_at (r_tree y) (fst (job i)) \<noteq> None" by simp_all
    have nt: "r_pcs z j = R_done True \<longleftrightarrow> r_pcs y j = R_done True" for j using z(2) nd o [of j] by (cases "j = i") auto
    have own: "event_at (r_tree y) (fst (job i)) = event_at t0 (fst (job i))"
      by (rule d(1) [OF g]) (use inj nd in auto)
    show ?thesis
    proof (rule own_pathsI)
      show "event_at (r_tree z) r = event_at t0 r"
        if "\<forall>c \<in> set r. in_range c" "\<And>i. fst (job i) = r \<Longrightarrow> r_pcs z i \<noteq> R_done True" for r
        using that z(1) d(1) [OF that(1)] nt by auto
    next
      fix j
      show "r_pcs z j = R_init \<Longrightarrow> event_at t0 (fst (job j)) = None" using d(2) [of j] o [of j] z(3) own by (cases "j = i") auto
      show "r_pcs z j = R_done False \<Longrightarrow> event_at t0 (fst (job j)) \<noteq> None" using d(4) [of j] o [of j] z(4) own by (cases "j = i") auto
      show "r_pcs z j = R_done True \<Longrightarrow> event_at t0 (fst (job j)) = None \<and> event_at (r_tree z) (fst (job j)) = Some (snd (job j))"
        using d(3) [of j] nt z(1) [OF g [of j]] by simp
    qed
  qed
qed

section \<open>Runs\<close>

lemma sound_start: "wf_trie t \<Longrightarrow> sound job (r_start t)"
  by (simp add: sound_def r_start_def)

lemma own_start: "own_paths job t (r_start t)"
  by (rule own_pathsI) (simp_all add: r_start_def)

lemma reg_run_sound:
  "(reg_step job)\<^sup>*\<^sup>* y z \<Longrightarrow> (\<And>i. good_key (fst (job i))) \<Longrightarrow> sound job y \<Longrightarrow> sound job z"
  by (induction rule: rtranclp_induct) (auto intro: reg_step_effect(1))

lemma reg_run_own:
  "(reg_step job)\<^sup>*\<^sup>* y z \<Longrightarrow> (\<And>i. good_key (fst (job i))) \<Longrightarrow> inj (fst \<circ> job) \<Longrightarrow> sound job y \<Longrightarrow> own_paths job t0 y \<Longrightarrow>
   own_paths job t0 z"
  by (induction rule: rtranclp_induct) (auto intro: reg_step_own reg_run_sound)

lemma step_to:
  "insert_step job i (r_pcs y i) y = Some (p, z) \<Longrightarrow> (reg_step job)\<^sup>*\<^sup>* (z\<lparr>r_pcs := (r_pcs y)(i := p)\<rparr>) u \<Longrightarrow> (reg_step job)\<^sup>*\<^sup>* y u"
  using reg_step.run [of job i y p z] by (auto intro: converse_rtranclp_into_rtranclp)

text \<open>A thread that holds the mutex gets through its walk.\<close>

lemma walk_done:
  assumes "sound job y" "\<And>i. good_key (fst (job i))" "r_pcs y i = R_walk n"
  shows "\<exists>u. (reg_step job)\<^sup>*\<^sup>* y (y\<lparr>r_tree := u, r_mutex := None, r_pcs := (r_pcs y)(i := R_check)\<rparr>) \<and>
    (\<forall>r. (\<forall>c \<in> set r. in_range c) \<longrightarrow> event_at u r = event_at (r_tree y) r)"
  using assms(1,3)
proof (induction "length (fst (job i)) - n" arbitrary: y n)
  case 0
  let ?y1 = "y\<lparr>r_pcs := (r_pcs y)(i := R_unlock)\<rparr>"
  from 0 have s: "insert_step job i (r_pcs y i) y = Some (R_unlock, y)" by simp
  have s2: "insert_step job i (r_pcs ?y1 i) ?y1 = Some (R_check, ?y1\<lparr>r_mutex := None\<rparr>)" by simp
  have "(reg_step job)\<^sup>*\<^sup>* ?y1 (?y1\<lparr>r_mutex := None, r_pcs := (r_pcs ?y1)(i := R_check)\<rparr>)"
    by (rule step_to [OF s2]) simp
  with step_to [OF s] have "(reg_step job)\<^sup>*\<^sup>* y (y\<lparr>r_mutex := None, r_pcs := (r_pcs y)(i := R_check)\<rparr>)" by simp
  then have "(reg_step job)\<^sup>*\<^sup>* y (y\<lparr>r_tree := r_tree y, r_mutex := None, r_pcs := (r_pcs y)(i := R_check)\<rparr>)"
    by (rule back_subst) simp
  then show ?case by blast
next
  case (Suc k)
  have gr: "\<forall>c \<in> set (take (Suc n) (fst (job i))). in_range c"
    using assms(2) [of i] by (auto simp: good_key_def dest: in_set_takeD)
  from Suc.prems(1) have wf: "wf_trie (r_tree y)" by (simp add: sound_def)
  from grow_in_range [OF wf gr] obtain u where u: "grow (r_tree y) (take (Suc n) (fst (job i))) = Some u" by blast
  let ?y1 = "y\<lparr>r_tree := u, r_pcs := (r_pcs y)(i := R_walk (Suc n))\<rparr>"
  have n: "n < length (fst (job i))" using Suc.hyps(2) by simp
  then have s: "insert_step job i (r_pcs y i) y = Some (R_walk (Suc n), y\<lparr>r_tree := u\<rparr>)" using u Suc.prems(2) by simp
  from reg_step.run [OF s] have "reg_step job y ?y1" by simp
  from reg_step_effect(1) [OF this Suc.prems(1) assms(2)] have "sound job ?y1" .
  have "k = length (fst (job i)) - Suc n" using Suc.hyps(2) by arith
  from Suc.hyps(1) [OF this \<open>sound job ?y1\<close>] obtain v where
    v: "(reg_step job)\<^sup>*\<^sup>* ?y1 (y\<lparr>r_tree := v, r_mutex := None, r_pcs := (r_pcs y)(i := R_check)\<rparr>)"
    "\<And>r. \<forall>c \<in> set r. in_range c \<Longrightarrow> event_at v r = event_at u r" by auto
  have "(reg_step job)\<^sup>*\<^sup>* y (y\<lparr>r_tree := v, r_mutex := None, r_pcs := (r_pcs y)(i := R_check)\<rparr>)"
    by (rule step_to [OF s]) (use v(1) in simp)
  then show ?case using v(2) grow_spec [OF u gr] by auto
qed

text \<open>From the start of its walk to the check, and past it if there is no event yet.\<close>

lemma reaches_init:
  assumes "sound job y" "\<And>i. good_key (fst (job i))" "r_pcs y i = R_lock" "r_mutex y = None" "event_at (r_tree y) (fst (job i)) = None"
  shows "\<exists>u. (reg_step job)\<^sup>*\<^sup>* y (y\<lparr>r_tree := u, r_pcs := (r_pcs y)(i := R_init)\<rparr>) \<and>
    (\<forall>r. (\<forall>c \<in> set r. in_range c) \<longrightarrow> event_at u r = event_at (r_tree y) r)"
proof -
  have g: "\<forall>c \<in> set (fst (job i)). in_range c" using assms(2) [of i] by (simp add: good_key_def)
  let ?y1 = "y\<lparr>r_mutex := Some i, r_pcs := (r_pcs y)(i := R_walk 0)\<rparr>"
  have s: "insert_step job i (r_pcs y i) y = Some (R_walk 0, y\<lparr>r_mutex := Some i\<rparr>)" using assms(3,4) by simp
  from reg_step.run [OF s] have "reg_step job y ?y1" by simp
  from walk_done [OF reg_step_effect(1) [OF this assms(1,2)] assms(2), of i 0] obtain u where
    u: "(reg_step job)\<^sup>*\<^sup>* ?y1 (?y1\<lparr>r_tree := u, r_mutex := None, r_pcs := (r_pcs ?y1)(i := R_check)\<rparr>)"
    "\<forall>r. (\<forall>c \<in> set r. in_range c) \<longrightarrow> event_at u r = event_at (r_tree y) r" by auto
  let ?y2 = "y\<lparr>r_tree := u, r_pcs := (r_pcs y)(i := R_check)\<rparr>"
  have y2: "?y1\<lparr>r_tree := u, r_mutex := None, r_pcs := (r_pcs ?y1)(i := R_check)\<rparr> = ?y2" using assms(4) by simp
  have s2: "insert_step job i (r_pcs ?y2 i) ?y2 = Some (R_init, ?y2)" using u(2) g assms(5) by simp
  have "(reg_step job)\<^sup>*\<^sup>* ?y2 (y\<lparr>r_tree := u, r_pcs := (r_pcs y)(i := R_init)\<rparr>)"
    by (rule step_to [OF s2]) simp
  then have "(reg_step job)\<^sup>*\<^sup>* ?y1 (y\<lparr>r_tree := u, r_pcs := (r_pcs y)(i := R_init)\<rparr>)"
    using u(1) unfolding y2 by (rule rtranclp_trans [rotated])
  then have "(reg_step job)\<^sup>*\<^sup>* y (y\<lparr>r_tree := u, r_pcs := (r_pcs y)(i := R_init)\<rparr>)"
    by (intro step_to [OF s]) simp
  with u(2) show ?thesis by blast
qed

lemma init_done:
  assumes "sound job y" "\<And>i. good_key (fst (job i))" "r_pcs y i = R_init"
  shows "\<exists>u. (reg_step job)\<^sup>*\<^sup>* y (y\<lparr>r_tree := u, r_pcs := (r_pcs y)(i := R_done True)\<rparr>) \<and> event_at u (fst (job i)) = Some (snd (job i))"
proof -
  have g: "\<forall>c \<in> set (fst (job i)). in_range c" using assms(2) [of i] by (simp add: good_key_def)
  from assms(1) have "walked (r_tree y) (fst (job i)) (r_pcs y i)" "wf_trie (r_tree y)" unfolding sound_def by blast+
  with assms(3) have "wf_trie (r_tree y)" "node_at (r_tree y) (fst (job i)) \<noteq> None" by simp_all
  from put_event_spec [OF this g, of "snd (job i)"] obtain u where u: "put_event (r_tree y) (fst (job i)) (snd (job i)) = Some u"
    "event_at u (fst (job i)) = Some (snd (job i))" using g by auto
  have s: "insert_step job i (r_pcs y i) y = Some (R_done True, y\<lparr>r_tree := u\<rparr>)" using u assms(3) by simp
  have "(reg_step job)\<^sup>*\<^sup>* y (y\<lparr>r_tree := u, r_pcs := (r_pcs y)(i := R_done True)\<rparr>)" by (rule step_to [OF s]) simp
  with u(2) show ?thesis by blast
qed

section \<open>Properties\<close>



text \<open>
  C31. Two threads that register the same path can both be told that they created the event, against the contract of
  \<open>evs_query_insert\<close>; the handler of the first one is silently replaced. The check and the initialisation are outside the mutex.
\<close>

theorem registration_race:
  assumes "wf_trie t0" "good_key s" "event_at t0 s = None"
  shows "\<exists>y. (reg_step (\<lambda>k. (s, if k = 0 then e1 else e2)))\<^sup>*\<^sup>* (r_start t0) y \<and>
    r_pcs y 0 = R_done True \<and> r_pcs y 1 = R_done True \<and> event_at (r_tree y) s = Some e2"
proof -
  let ?job = "\<lambda>k. (s, if k = (0::rtid) then e1 else e2)"
  have g: "good_key (fst (?job k))" for k using assms(2) by simp
  have r: "\<forall>c \<in> set s. in_range c" using assms(2) by (simp add: good_key_def)
  let ?y0 = "r_start t0"
  note s0 = sound_start [OF assms(1), of ?job]
  from reaches_init [OF s0 g, of 0] assms(3) obtain t1 where
    t1: "(reg_step ?job)\<^sup>*\<^sup>* ?y0 (?y0\<lparr>r_tree := t1, r_pcs := (r_pcs ?y0)(0 := R_init)\<rparr>)" "event_at t1 s = None"
    using r by (auto simp: r_start_def)
  let ?y1 = "?y0\<lparr>r_tree := t1, r_pcs := (r_pcs ?y0)(0 := R_init)\<rparr>"
  note s1 = reg_run_sound [OF t1(1) g s0]
  from reaches_init [OF s1 g, of 1] t1(2) obtain t2 where
    t2: "(reg_step ?job)\<^sup>*\<^sup>* ?y1 (?y1\<lparr>r_tree := t2, r_pcs := (r_pcs ?y1)(1 := R_init)\<rparr>)"
    by (auto simp: r_start_def)
  let ?y2 = "?y1\<lparr>r_tree := t2, r_pcs := (r_pcs ?y1)(1 := R_init)\<rparr>"
  note s2 = reg_run_sound [OF t2 g s1]
  from init_done [OF s2 g, of 0] obtain t3 where
    t3: "(reg_step ?job)\<^sup>*\<^sup>* ?y2 (?y2\<lparr>r_tree := t3, r_pcs := (r_pcs ?y2)(0 := R_done True)\<rparr>)" by auto
  let ?y3 = "?y2\<lparr>r_tree := t3, r_pcs := (r_pcs ?y2)(0 := R_done True)\<rparr>"
  note s3 = reg_run_sound [OF t3 g s2]
  from init_done [OF s3 g, of 1] obtain t4 where
    t4: "(reg_step ?job)\<^sup>*\<^sup>* ?y3 (?y3\<lparr>r_tree := t4, r_pcs := (r_pcs ?y3)(1 := R_done True)\<rparr>)" "event_at t4 s = Some e2" by auto
  let ?y4 = "?y3\<lparr>r_tree := t4, r_pcs := (r_pcs ?y3)(1 := R_done True)\<rparr>"
  have "(reg_step ?job)\<^sup>*\<^sup>* ?y0 ?y4" using t1(1) t2 t3 t4(1) by (meson rtranclp_trans)
  moreover have "r_pcs ?y4 0 = R_done True" "r_pcs ?y4 1 = R_done True" "event_at (r_tree ?y4) s = Some e2" using t4(2) by simp_all
  ultimately show ?thesis by blast
qed

lemma registration_race_witness:
  "\<exists>y. (reg_step (\<lambda>k. (''a'', if k = 0 then sample_event ''/a'' True else sample_event ''/a'' False)))\<^sup>*\<^sup>* (r_start empty_trie) y \<and>
    r_pcs y 0 = R_done True \<and> r_pcs y 1 = R_done True \<and> event_at (r_tree y) ''a'' = Some (sample_event ''/a'' False)"
proof -
  have g: "good_key ''a''" by (simp add: good_key_def in_range_def)
  show ?thesis by (rule registration_race [OF trie.inv_emp g trie.stored_emp])
qed

end
