(* ===== verification/Lasting.thy ===== *)
theory Lasting
  imports Server
begin

text \<open>
  Who events come from and go to stays so: a client that is \<open>proper\<close> (it speaks raw frames or WebSocket, or is the
  surrogate of a session) remains proper whatever the server does. An application may therefore keep a
  reference to the client of an event and answer at any later time.
\<close>

definition lasts :: "env \<Rightarrow> cid set \<Rightarrow> world \<Rightarrow> world \<Rightarrow> bool" where
  "lasts E C w v \<longleftrightarrow> (\<forall>d. proper E C w d \<longrightarrow> proper E C v d)"

lemma lasts_refl [simp]: "lasts E C w w"
  by (simp add: lasts_def)

lemma lasts_trans: "lasts E C u v \<Longrightarrow> lasts E C v w \<Longrightarrow> lasts E C u w"
  by (simp add: lasts_def)

lemma lastsD: "lasts E C w v \<Longrightarrow> proper E C w d \<Longrightarrow> proper E C v d"
  by (simp add: lasts_def)

lemma lasts_prot:
  assumes "\<And>d. c_prot (w_clients v d) = c_prot (w_clients w d)" "opened w \<subseteq> opened v"
  shows "lasts E C w v"
  using assms by (auto simp: lasts_def proper_def live_def)

lemma lasts_idle: "idle w v \<Longrightarrow> lasts E C w v"
  by (simp add: lasts_def idle_proper)

lemma lasts_civil: "civil E C N w v \<Longrightarrow> lasts E C w v"
  by (simp add: lasts_def civil_fields(5))

lemma lasts_core: "same_core w v \<Longrightarrow> opened v = opened w \<Longrightarrow> lasts E C w v"
  by (rule lasts_prot) (simp_all add: same_core_poll)

lemma lasts_upd: "(\<And>cl. c_prot (f cl) = c_prot cl) \<Longrightarrow> lasts E C w (upd_client c f w)"
  by (rule lasts_prot) simp_all

text \<open>A client whose protocol was unknown, or HTTP on a connection, may get one.\<close>

lemma lasts_unfit:
  "\<not> proper E C w c \<Longrightarrow> lasts E C w (upd_client c f w)"
  by (auto simp: lasts_def proper_def live_def split: if_splits)

lemma lasts_response: "lasts E C w (snd (send_response E d st resp w))" "lasts E C w (snd (send_error E d st w))"
  by (rule lasts_core [OF same_core_send_response], simp)
    (simp add: send_error_def lasts_core [OF same_core_send_response])

lemma lasts_prot_step:
  "lasts E C u w \<Longrightarrow> (\<And>d. c_prot (w_clients v d) = c_prot (w_clients w d)) \<Longrightarrow> opened w \<subseteq> opened v \<Longrightarrow> lasts E C u v"
  by (blast intro: lasts_trans lasts_prot)

lemma lasts_steps:
  "lasts E C u w \<Longrightarrow> lasts E C u (emit e w)"
  "lasts E C u w \<Longrightarrow> lasts E C u (stat_inc s w)"
  "lasts E C u w \<Longrightarrow> lasts E C u (fault w)"
  "lasts E C u w \<Longrightarrow> lasts E C u (qev_close c r w)"
  "lasts E C u w \<Longrightarrow> lasts E C u (touch_send c w)"
  "lasts E C u w \<Longrightarrow> lasts E C u (set_rbuff c b w)"
  by (erule lasts_prot_step, auto simp: opened_def touch_send_def set_rbuff_def qev_close_def)+

lemma lasts_response_step:
  "lasts E C u w \<Longrightarrow> lasts E C u (snd (send_response E d st resp w))"
  "lasts E C u w \<Longrightarrow> lasts E C u (snd (send_error E d st w))"
  by (blast intro: lasts_trans lasts_response)+

lemma lasts_upd_step: "lasts E C u w \<Longrightarrow> (\<And>cl. c_prot (f cl) = c_prot cl) \<Longrightarrow> lasts E C u (upd_client c f w)"
  by (erule lasts_trans) (rule lasts_upd)

lemmas lasts_intros = lasts_steps lasts_response_step lasts_upd_step lasts_refl

section \<open>Requests\<close>

lemma lasts_steal: "lasts E C u w \<Longrightarrow> lasts E C u (snd (steal_client d w))"
  by (auto simp: steal_client_def Let_def intro!: lasts_intros)

lemma lasts_surr_replace: "lasts E C u w \<Longrightarrow> lasts E C u (surr_replace E s c w)"
  by (auto simp: surr_replace_def Let_def split: option.split intro!: lasts_intros)

lemma lasts_surr_send: "lasts E C u w \<Longrightarrow> lasts E C u (surr_send E s c m w)"
  by (auto simp: surr_send_def steal_client_def Let_def case_prod_beta split: option.split intro!: lasts_intros lasts_surr_replace)

lemma lasts_messages:
  "civil_law E C N \<Longrightarrow> proper E C w s \<Longrightarrow> surr_messages E s msgs w = (ok, v) \<Longrightarrow> lasts E C w v"
proof (induction msgs arbitrary: w)
  case (Cons m ms)
  obtain st u where h: "protocol_raw_handle E s m w = (st, u)" by (cases "protocol_raw_handle E s m w")
  from civil_handle [OF Cons.prems(1,2), of m] have k: "lasts E C w u" by (simp add: h lasts_civil)
  from Cons.IH [OF Cons.prems(1) lastsD [OF k Cons.prems(2)]] Cons.prems(3) k show ?case
    by (auto simp: h split: if_splits intro: lasts_trans)
qed simp

lemma lasts_surr_route:
  assumes "civil_law E C N" "proper E C w s"
  shows "lasts E C w (surr_route E s c body w)"
proof -
  let ?w1 = "upd_client s (\<lambda>cl. cl\<lparr>c_incoming := True\<rparr>) w"
  obtain ok u where m: "surr_messages E s (strtok_all (CHR 0x0A) body) ?w1 = (ok, u)"
    by (cases "surr_messages E s (strtok_all (CHR 0x0A) body) ?w1")
  have k: "lasts E C w ?w1" by (rule lasts_upd) simp
  from lasts_trans [OF k lasts_messages [OF assms(1) lastsD [OF k assms(2)] m]] show ?thesis
    by (auto simp: surr_route_def m Let_def split: option.split intro!: lasts_intros lasts_surr_replace lasts_surr_send)
qed

lemma lasts_do_body:
  assumes "civil_law E C N" "served E C N L B D w" "\<not> is_surrogate E c"
  shows "lasts E C w (do_body E c body w)"
proof -
  have "lasts E C w (surr_route E s c body w)" if "link w c = Some s" for s
    by (rule lasts_surr_route [OF assms(1) surrogate_proper [OF served_links [OF assms(2,3) that]]])
  then show ?thesis by (auto simp: do_body_def split: option.split intro!: lasts_intros)
qed

lemma lasts_new_surrogate:
  assumes "surrogate_new_law E C" "protocols_new_surrogate E p w = (r, v)"
  shows "lasts E C w v"
proof (cases "surrogate_new E (w_trace w)")
  case None
  with assms(2) show ?thesis by (simp add: protocols_new_surrogate_def)
next
  case (Some s)
  with assms(1) have "\<not> proper E C w s" by (auto simp: surrogate_new_law_def proper_def live_def opened_def)
  then have "lasts E C w (upd_client s f (emit (E_surrogate s) w))" for f
    by (auto simp: lasts_def proper_def live_def opened_def)
  from lasts_steps(1) [OF lasts_upd_step [OF this]] Some assms(2) show ?thesis
    by (auto simp: protocols_new_surrogate_def set_handshaked_def)
qed

lemma lasts_get_surrogate:
  assumes "surrogate_new_law E C" "get_surrogate E url w = (r, v)"
  shows "lasts E C w v"
proof -
  have tab: "lasts E C u (x\<lparr>w_surrogates := t\<rparr>)" if "lasts E C u x" for u x t
    using that by (auto simp: lasts_def proper_def live_def opened_def)
  have "lasts E C w v" if "surr_find E sid oc w = (r, v)" for sid oc
    using that lasts_new_surrogate [OF assms(1), of P_http w]
    by (auto simp: surr_find_def Let_def split: option.splits if_splits prod.splits intro!: lasts_intros tab)
  with assms(2) show ?thesis by (auto simp: get_surrogate_def split: option.splits prod.splits if_splits)
qed

lemma lasts_headers_http:
  assumes "surrogate_new_law E C" "do_headers_http E c h w = (st, v)"
  shows "lasts E C w v"
  using assms(2) lasts_get_surrogate [OF assms(1), of "hr_url h" w]
  by (auto simp: do_headers_http_def Let_def split: option.splits sum.splits if_splits prod.splits intro!: lasts_intros)

lemma lasts_headers_websocket:
  assumes "\<not> is_surrogate E c" "c_prot (w_clients w c) = Some P_http" "do_headers_websocket E c h cn key w = (st, v)"
  shows "lasts E C w v"
proof -
  have "lasts E C w (upd_client c f (emit e w))" for f e
    by (rule lasts_trans [OF lasts_steps(1) [OF lasts_refl] lasts_unfit]) (use assms(1,2) in \<open>simp add: proper_def\<close>)
  then have "lasts E C w (protocol_rfc6455_upgrade E c k w)" for k
    unfolding protocol_rfc6455_upgrade_def protocols_switch_def Let_def by (intro lasts_steps(2))
  with assms(3) show ?thesis
    by (auto simp: do_headers_websocket_def Let_def split: option.splits if_splits intro!: lasts_intros)
qed

lemma lasts_route_body:
  assumes "civil_law E C N" "served E C N L B D w" "\<not> is_surrogate E c"
  shows "lasts E C w (snd (snd (http_route_body E c st used w)))"
  using lasts_do_body [OF assms]
  by (auto simp: http_route_body_def Let_def split: option.split intro!: lasts_intros)

lemma lasts_http_route:
  assumes "server_laws E C N L" "served E C N L {} D w" "conn E C D c" "c_prot (w_clients w c) = Some P_http"
  shows "lasts E C w (snd (snd (protocol_http_route E c used w)))"
proof -
  note l = server_lawsD [OF assms(1)]
  have nc: "\<not> is_surrogate E c" using assms(3) by (simp add: conn_def)
  let ?w0 = "touch_send c w" let ?w1 = "snd (send_error E (Some c) STATUS_200 ?w0)"
  let ?w2 = "\<lambda>k. upd_client c (\<lambda>cl. cl\<lparr>c_in_request := True, c_keep_alive := k\<rparr>) ?w1"
  have k: "lasts E C w ?w0" "lasts E C w (?w2 k)" for k by (auto intro!: lasts_intros)
  have w0: "served E C N L {} D ?w0" by (rule idle_served [OF idle_steps(3) [OF idle_refl] assms(2)])
  have w1: "served E C N L {} D ?w1" by (rule error_served [OF w0 nc])
  have p1: "c_prot (w_clients ?w1 c) = Some P_http"
    using same_core_poll(1) [OF same_core_send_error [of ?w0 E "Some c" STATUS_200], of c] assms(4) by (simp add: touch_send_def)
  have w2: "served E C N L {} D (?w2 k)" "reading E C D c (?w2 k)" for k
    using p1 assms(3) clients_okD(1) [OF servedD(6) [OF w1], of c]
    by (auto intro!: conn_upd_served [OF w1 nc _ refl] unpolled_unlinked [OF w1] simp: reading_def prot_ok_def send_error_facts)
  have body: "lasts E C w (snd (snd (http_route_body E c st u v)))" if "lasts E C w v" "served E C N L {} D v" for st u v
    using lasts_trans [OF that(1) lasts_route_body [OF l(3) that(2) nc]] .
  show ?thesis
  proof (cases "c_http_body_len (w_clients ?w0 c) = 0")
    case False
    with body [OF k(1) w0] show ?thesis by (simp add: protocol_http_route_def Let_def)
  next
    case True
    let ?h = "http_parse E (cstr (drop used (rbuff_of c ?w0)))"
    let ?k = "request_keep_alive ?h"
    obtain s a where hw: "do_headers_websocket E c ?h (hr_header ?h ''Connection'') (hr_header ?h ''Sec-WebSocket-Key'') (?w2 ?k) = (s, a)"
      by (cases "do_headers_websocket E c ?h (hr_header ?h ''Connection'') (hr_header ?h ''Sec-WebSocket-Key'') (?w2 ?k)")
    obtain s' a' where hh: "do_headers_http E c ?h (?w2 ?k) = (s', a')" by (cases "do_headers_http E c ?h (?w2 ?k)")
    have sv: "served E C N L {} D a" "served E C N L {} D a'"
      using do_headers_websocket_served [OF w2 hw] do_headers_http_served [OF l(4) w2 hh] by blast+
    have "lasts E C w a" "lasts E C w a'"
      using lasts_trans [OF k(2) lasts_headers_websocket [OF nc _ hw]] p1 lasts_trans [OF k(2) lasts_headers_http [OF l(4) hh]] by simp_all
    note la = this
    have cl: "served E C N L {} D (qev_close c x v)" if "served E C N L {} D v" for x v
      by (rule idle_served [OF idle_steps(5) [OF idle_refl] that])
    show ?thesis
      using True hw hh k(1)
      by (simp add: protocol_http_route_def Let_def split: option.split)
        (auto intro!: body cl sv la k w2 lasts_steps)
  qed
qed

section \<open>Reading\<close>

lemma lasts_raw_route:
  assumes "civil_law E C N" "proper E C w c"
  shows "lasts E C w (snd (snd (protocol_raw_route E c used w)))" "lasts E C w (snd (snd (protocol_rfc6455_route E c used w)))"
proof -
  have h: "lasts E C w (snd (protocol_raw_handle E c ev v))" if "lasts E C w v" for ev v
    using lasts_trans [OF that lasts_civil [OF civil_handle [OF assms(1) lastsD [OF that assms(2)]]]] .
  then show "lasts E C w (snd (snd (protocol_raw_route E c used w)))"
    by (auto simp: protocol_raw_route_def Let_def case_prod_beta split: option.split intro!: lasts_intros)
  obtain st len n v where d: "ws_decode E c used w = (st, len, n, v)" by (metis prod_cases4)
  have "lasts E C w v" by (rule lasts_idle [OF idle_ws_decode [OF d]])
  with h show "lasts E C w (snd (snd (protocol_rfc6455_route E c used w)))"
    by (auto simp: protocol_rfc6455_route_def d Let_def case_prod_beta intro!: lasts_intros)
qed

lemma lasts_prot_route:
  assumes "server_laws E C N L" "served E C N L {} D w" "conn E C D c"
    and "c_prot (w_clients w c) = Some p" "prot_route E p = Some r"
  shows "lasts E C w (snd (snd (r c used w)))"
  using assms(4,5) lasts_http_route [OF assms(1-3), of used] lasts_raw_route [OF server_lawsD(3) [OF assms(1)] conn_proper [OF assms(3)]]
  by (cases p) (auto simp: prot_route_def)

lemma lasts_route_loop:
  assumes "server_laws E C N L" "conn E C D c"
  shows "served E C N L {} D w \<Longrightarrow> used \<le> length (rbuff_of c w) \<Longrightarrow> length (rbuff_of c w) < 2 ^ 64 \<Longrightarrow>
    c_prot (w_clients w c) \<noteq> None \<Longrightarrow>
    route_loop E c fuel status used w = Some (used1, v) \<Longrightarrow> lasts E C w v"
proof (induction fuel arbitrary: status used w)
  case (Suc fuel)
  have rl: "read_laws E c" using server_lawsD(6) [OF assms(1)] assms(2) by (simp add: conn_def)
  from Suc.prems(4) obtain p where p: "c_prot (w_clients w c) = Some p" by auto
  obtain st u x where r: "(case prot_route E p of None \<Rightarrow> (status, used, w) | Some f \<Rightarrow> f c used w) = (st, u, x)"
    by (metis prod_cases3)
  have x: "lasts E C w x \<and> served E C N L {} D x \<and> length (rbuff_of c x) = length (rbuff_of c w) \<and> u \<le> length (rbuff_of c w) \<and>
      c_prot (w_clients x c) \<noteq> None"
  proof (cases "prot_route E p")
    case None
    with r Suc.prems show ?thesis by simp
  next
    case (Some f)
    with r prot_route_served [OF assms(1) Suc.prems(1) assms(2) p Some, of used] lasts_prot_route [OF assms(1) Suc.prems(1) assms(2) p Some, of used]
      prot_route_progress [OF rl Suc.prems(2,3) p Some] p show ?thesis by (auto simp: progress_step_def)
  qed
  let ?n = "note_recv c x"
  have n: "served E C N L {} D ?n" by (rule idle_served [OF idle_note_recv(1)]) (use x in blast)
  have k: "lasts E C w ?n" "lasts E C w (start_timeout c x)" "lasts E C w (qev_close c k x)" for k
    using x lasts_trans [OF _ lasts_idle [OF idle_note_recv(1)], of E C w x] lasts_trans [OF _ lasts_idle [OF idle_note_recv(2)], of E C w x]
    by (auto intro: lasts_intros)
  have nf: "rbuff_of c ?n = rbuff_of c x" "c_prot (w_clients ?n c) = c_prot (w_clients x c)"
    by (simp_all add: note_recv_def Let_def rbuff_of_def)
  have "lasts E C w v" if "st = PROT_OK" "u < length (rbuff_of c ?n)" "route_loop E c fuel PROT_OK u ?n = Some (used1, v)"
    using lasts_trans [OF k(1) Suc.IH [OF n _ _ _ that(3)]] that(2) x Suc.prems(3) by (simp add: nf)
  with Suc.prems(5) p r k show ?case
    by (auto simp: Let_def split: protocol_status.splits if_splits)
qed simp

lemma lasts_find_handler:
  assumes "c_prot (w_clients w c) = None" "find_handler c w = (go, v)"
  shows "lasts E C w v"
proof -
  have "lasts E C w (upd_client c f w)" for f by (rule lasts_unfit) (use assms(1) in \<open>simp add: proper_def\<close>)
  then show ?thesis
    using assms(2) find_handler_yes [of _ c w] find_handler_no [of c w]
    by (cases "\<exists>p. prot_handles p c w = PROT_YES") (auto split: if_splits intro: lasts_intros)
qed

lemma lasts_set_handshaked: "lasts E C u w \<Longrightarrow> lasts E C u (set_handshaked c w)"
  by (simp add: set_handshaked_def lasts_intros)

lemma lasts_handshake:
  assumes "prot_handshake E p = Some hs"
  shows "lasts E C w (handshake hs c w)"
proof -
  obtain st v where h: "hs c w = (st, v)" by (cases "hs c w")
  have "lasts E C w v" using lasts_idle [OF idle_handshake(1) [OF assms, of w c]] by (simp add: h)
  then show ?thesis
    by (auto simp: handshake_def h split: protocol_status.split intro: lasts_intros lasts_set_handshaked)
qed

lemma lasts_protocols_route:
  assumes "server_laws E C N L" "served E C N L {} D w" "conn E C D c" "length (rbuff_of c w) < 2 ^ 64"
    and "protocols_route E c w = Some v"
  shows "lasts E C w v"
proof -
  let ?w1 = "upd_client c (\<lambda>cl. cl\<lparr>c_last_recv := w_now w\<rparr>) w"
  have i1: "idle w ?w1" by (rule idle_upd) (simp_all add: poll_view_def)
  have w1: "served E C N L {} D ?w1" "rbuff_of c ?w1 = rbuff_of c w" by (rule idle_served [OF i1 assms(2)]) (simp add: rbuff_of_def)
  have k1: "lasts E C w ?w1" by (rule lasts_idle [OF i1])
  obtain go w2 where f: "(if c_prot (w_clients ?w1 c) = None then find_handler c ?w1 else (True, ?w1)) = (go, w2)"
    by (cases "if c_prot (w_clients ?w1 c) = None then find_handler c ?w1 else (True, ?w1)")
  have w2: "served E C N L {} D w2" "rbuff_of c w2 = rbuff_of c w" "go \<Longrightarrow> c_prot (w_clients w2 c) \<noteq> None"
    using f w1 find_handler_frame [of c ?w1 go w2] find_handler_served [OF w1(1) assms(3)] by (auto split: if_splits)
  have k2: "lasts E C w w2"
    using f k1 lasts_trans [OF k1 lasts_find_handler [of ?w1 c go w2]] by (auto split: if_splits)
  have route: "lasts E C w v"
    if "served E C N L {} D x" "rbuff_of c x = rbuff_of c w" "c_prot (w_clients x c) \<noteq> None" "route E c x = Some v" "lasts E C w x" for x
  proof -
    from that(4) obtain used y where y: "route_loop E c (route_fuel c x) PROT_FATAL 0 x = Some (used, y)"
      "v = set_rbuff c (drop used (rbuff_of c y)) y" by (auto simp: route_def split: option.splits)
    have "lasts E C x y"
      by (rule lasts_route_loop [OF assms(1,3) that(1) _ _ that(3) y(1)]) (use that(2) assms(4) in simp_all)
    from lasts_steps(6) [OF lasts_trans [OF that(5) this]] show ?thesis unfolding y(2) .
  qed
  have hs: "served E C N L {} D (set_handshaked c w2)" if "c_prot (w_clients w2 c) = Some p" "prot_handshake E p = None" for p
    by (rule handshaked_served [OF w2(1) assms(3)]) (use that in \<open>cases p; simp add: prot_handshake_def\<close>)
  show ?thesis
    using assms(5) f w2 k2 route [OF w2(1,2) _ _ k2] route [OF hs _ _ _ lasts_set_handshaked [OF k2]]
      lasts_trans [OF k2 lasts_handshake]
    by (auto simp: protocols_route_def Let_def split: if_splits option.splits)
qed

section \<open>Everything else\<close>

lemma lasts_heartbeat:
  assumes "civil_law E C N" "live E C w c"
  shows "lasts E C w (protocols_heartbeat E c hb w)"
proof -
  have "lasts E C w (protocol_raw_do_heartbeat E c hb frame w)" if "c_prot (w_clients w c) = Some p" "p \<noteq> P_http" for frame p
    using civil_frame.heartbeat_framed [of E C N w c hb frame] that assms by (intro lasts_civil) (auto simp: proper_def)
  moreover have "lasts E C w (protocol_http_heartbeat E c hb w)"
    by (auto simp: protocol_http_heartbeat_def Let_def intro!: lasts_intros)
  ultimately show ?thesis
    by (auto simp: protocols_heartbeat_def prot_heartbeat_def protocol_raw_heartbeat_def protocol_rfc6455_heartbeat_def
        split: option.split prot.split intro!: lasts_intros)
qed

lemma lasts_periodic:
  assumes "server_laws E C N L"
  shows "served E C N L {} D w \<Longrightarrow> list_all (live E C w) cs \<Longrightarrow> lasts E C w (fold (periodic_foreach E hb b) cs w)"
proof (induction cs arbitrary: w)
  case (Cons c cs)
  have l: "live E C w c" using Cons.prems(2) by simp
  let ?h = "protocols_heartbeat E c hb w" let ?v = "periodic_foreach E hb b c w"
  have v: "?v = client_cb_prune c b ?h" by (simp add: periodic_foreach_def)
  have s: "served E C N L {} D ?v"
    unfolding v by (rule idle_served [OF idle_prune protocols_heartbeat_served [OF assms Cons.prems(1) l]])
  have k: "lasts E C w ?v"
    unfolding v by (rule lasts_trans [OF lasts_heartbeat [OF server_lawsD(3) [OF assms] l] lasts_idle [OF idle_prune]])
  have "opened ?v = opened w"
    using heartbeat_opened [OF assms Cons.prems(1) l, of hb] idle_prune [of ?h c b] by (simp add: v idle_def)
  then have "live E C ?v = live E C w" by (simp add: live_def fun_eq_iff)
  with Cons.IH [OF s] Cons.prems(2) k show ?case by (auto intro: lasts_trans)
qed simp

lemma lasts_protocols_closed: "lasts E C u w \<Longrightarrow> lasts E C u (protocols_closed E c r w)"
proof -
  assume u: "lasts E C u w"
  have t: "lasts E C u (w\<lparr>w_surrogates := t\<rparr>)" for t
    using u by (auto simp: lasts_def proper_def live_def opened_def)
  have "lasts E C u (protocol_http_close E c r w)"
    using u t by (auto simp: protocol_http_close_def steal_client_def Let_def split: option.split close_reason.split intro!: lasts_intros)
  with u show ?thesis
    by (auto simp: protocols_closed_def prot_close_def protocol_rfc6455_close_def split: option.split prot.split intro: lasts_intros)
qed

lemma lasts_client_closed:
  assumes "civil_law E C N" "served E C N L B D w"
  shows "lasts E C w (client_closed E c w)"
proof (cases "c_subs (w_clients w c)")
  case None
  then show ?thesis by (simp add: client_closed_def)
next
  case (Some l)
  then have "proper E C w c" using servedD(3) [OF assms(2)] by (simp add: limits_def)
  then show ?thesis using civil_frame.closed_framed [of E C N w c] assms(1) by (intro lasts_civil) blast
qed

lemma lasts_close:
  assumes "server_laws E C N L" "served E C N L {} D w"
  shows "lasts E C w (qev_on_close E c r w)"
proof -
  let ?w1 = "emit (E_timeout_clear c) (upd_client c (\<lambda>cl. cl\<lparr>c_timeout := False\<rparr>) w)"
  have "idle w (upd_client c (\<lambda>cl. cl\<lparr>c_timeout := False\<rparr>) w)" by (rule idle_upd) (simp_all add: poll_view_def)
  then have "served E C N L {} (insert c D) (protocols_closed E c r ?w1)"
    by (intro protocols_closed_served effect_served idle_served [OF _ assms(2)]) simp_all
  note k = lasts_client_closed [OF server_lawsD(3) [OF assms(1)] this]
  have "lasts E C w (protocols_closed E c r ?w1)" by (rule lasts_protocols_closed) (simp add: lasts_intros)
  from lasts_trans [OF this k] show ?thesis by (simp add: qev_on_close_def Let_def)
qed

lemma lasts_tick: "items_law E \<Longrightarrow> served E C N L B D w \<Longrightarrow> lasts E C w (evs_broadcast_tick E w)"
proof (induction E w rule: evs_broadcast_tick.induct)
  case (1 E w)
  show ?case
  proof (cases "w_broadcasts w")
    case Nil
    then show ?thesis by (simp add: evs_broadcast_tick.simps [of E w])
  next
    case (Cons b bs)
    let ?w1 = "w\<lparr>w_broadcasts := bs\<rparr>"
    have "length bs \<le> N" using servedD(3) [OF 1(3)] Cons by (simp add: limits_def)
    with pop_inv [OF servedD(1) [OF 1(3)], of "fst b" "snd b" bs] Cons
    have s: "served E C N (L(fst b := Suc (L (fst b)))) B D ?w1" by (intro queue_served [OF 1(3)]) simp_all
    have "lasts E C w ?w1" by (rule lasts_prot) (simp_all add: opened_def)
    from lasts_trans [OF this lasts_civil [OF broadcast_one_civil [OF 1(2) s]]]
      1(1) [OF Cons 1(2) broadcast_one_served [OF 1(2) s]] Cons show ?thesis
      by (auto simp: evs_broadcast_tick.simps [of E w] intro: lasts_trans)
  qed
qed

lemma lasts_broadcast: "lasts E C w (evs_broadcast ev x json w)"
proof -
  obtain q u where g: "sub_get ev x False w = (q, u)" by (cases "sub_get ev x False w")
  have "w_clients u = w_clients w" "opened u = opened w"
    using sub_get_frame [of ev x False w] sub_get_opened(1) [of ev x False w] by (simp_all add: g)
  then show ?thesis by (intro lasts_prot) (auto simp: evs_broadcast_def g opened_def split: option.split)
qed

section \<open>The machine\<close>

lemma step_lasts:
  assumes "server_laws E C N L" "server_step E C N (D, w) (D', v)" "served E C N L {} D w"
  shows "lasts E C w v"
  using assms(2)
proof (cases rule: server_step.cases)
  case (accept c)
  then show ?thesis by (auto simp: qev_on_open_def intro: lasts_idle idle_note_recv)
next
  case (receive c bytes)
  let ?w1 = "set_rbuff c (rbuff_of c w @ bytes) w"
  have "served E C N L {} D ?w1" by (rule idle_served [OF idle_steps(4) [OF idle_refl] assms(3)])
  from lasts_protocols_route [OF assms(1) this receive(2)] receive
  have "lasts E C ?w1 v" by (simp add: qev_on_read_def)
  with lasts_steps(6) [OF lasts_refl] show ?thesis by (rule lasts_trans)
next
  case (close c r)
  then show ?thesis using lasts_close [OF assms(1,3)] by simp
next
  case (free c)
  then show ?thesis using lasts_idle [OF idle_free_all] by (simp add: qev_client_free_def)
next
  case (periodic cs)
  then show ?thesis using lasts_periodic [OF assms(1,3)] by (simp add: periodic_run_def)
next
  case tick
  then show ?thesis using lasts_tick [OF server_lawsD(2) [OF assms(1)] assms(3)] by simp
next
  case (broadcast ev x json)
  then show ?thesis using lasts_broadcast by simp
next
  case (send c)
  then show ?thesis
    using civil_frame.send_framed [of E C N w c] server_lawsD(3) [OF assms(1)] by (auto intro!: lasts_civil)
next
  case (handler pre path h on off ch)
  have "w_clients v = w_clients w" "w_trace v = w_trace w"
    using handler by (auto simp: evs_add_handler_def split: option.split prod.split)
  then show ?thesis by (intro lasts_prot) (simp_all add: opened_def)
next
  case (pass now)
  then show ?thesis using lasts_idle [OF idle_now] by simp
qed

lemma steps_last:
  "(server_step E C N)\<^sup>*\<^sup>* (D, w) (D', v) \<Longrightarrow> server_laws E C N L \<Longrightarrow> served E C N L {} D w \<Longrightarrow>
   served E C N L {} D' v \<and> lasts E C w v"
  by (induction rule: rtranclp_induct2) (auto intro: step_served step_lasts lasts_trans)

end
