(* ===== verification/Skeleton.thy ===== *)
theory Skeleton
  imports Lasting
begin

text \<open>
  The application of the documentation, \<open>src/docs/overview/app_skeleton.c\<close>, which answers events asynchronously: its
  handler takes a reference to the client and queues the event; a thread of its own counts, answers,
  gives the reference back and broadcasts. The thread is a program with a program counter that runs between
  the steps of the server. Parsing and printing JSON are quick-event's and parameters (\<open>unpack\<close>, \<open>pack\<close>); so is
  whether the queue of GLib takes a NULL (\<open>takes_null\<close>). \<open>gint64\<close> is a word that is read with its sign.
\<close>

type_synonym gint64 = "64 word"

section \<open>The code\<close>

record pending =
  babies_born :: gint64
  p_client :: cid
  p_client_cb :: guint64

text \<open>Where the thread is in \<open>_run\<close>, with the event it handles; a NULL in the queue is None.\<close>

datatype run_pc = Run_pop | Run_reply pending | Run_release pending | Run_broadcast | Run_ended

record skeleton =
  sk_events :: "pending option list"
  sk_population :: gint64
  sk_thread :: run_pc

definition sk_event :: "string \<Rightarrow> string" where
  "sk_event path = ''/skeleton'' @ path"

definition ev_population :: event where
  "ev_population = event_init (sk_event ''/population'') None None None False"

definition ev_baby_born_handler ::
  "(string \<Rightarrow> gint64 option) \<Rightarrow> env \<Rightarrow> cid \<Rightarrow> guint64 \<Rightarrow> string \<Rightarrow> skeleton \<times> world \<Rightarrow> evs_status \<times> skeleton \<times> world" where
  "ev_baby_born_handler unpack E client client_cb json s =
     (EVS_STATUS_HANDLED,
      case unpack json of
        None \<Rightarrow> (fst s, evs_err_cb E client client_cb CODE_BAD (Some ''could not parse JSON'') None (snd s))
      | Some n \<Rightarrow>
          if sint n \<le> 0
          then (fst s, evs_err_cb E client client_cb CODE_BAD (Some ''invalid number of babies born'') None (snd s))
          else
            (let p = \<lparr>babies_born = n, p_client = client, p_client_cb = client_cb\<rparr>
             in ((fst s)\<lparr>sk_events := sk_events (fst s) @ [Some p]\<rparr>, emit (E_ref client) (snd s))))"

text \<open>One step of the thread. It waits for an event while the queue is empty. Only it uses the population.\<close>

fun run_step :: "(gint64 \<Rightarrow> string) \<Rightarrow> env \<Rightarrow> run_pc \<Rightarrow> skeleton \<times> world \<Rightarrow> (skeleton \<times> world) option" where
  "run_step pack E Run_pop (sk, w) =
     (case sk_events sk of
        [] \<Rightarrow> None
      | None # q \<Rightarrow> Some (sk\<lparr>sk_events := q, sk_thread := Run_ended\<rparr>, w)
      | Some p # q \<Rightarrow>
          Some (sk\<lparr>sk_events := q, sk_population := sk_population sk + babies_born p, sk_thread := Run_reply p\<rparr>, w))"
| "run_step pack E (Run_reply p) (sk, w) =
     Some (sk\<lparr>sk_thread := Run_release p\<rparr>, evs_cb E (p_client p) (p_client_cb p) None w)"
| "run_step pack E (Run_release p) (sk, w) =
     Some (sk\<lparr>sk_thread := Run_broadcast\<rparr>, emit (E_unref (Some (p_client p))) w)"
| "run_step pack E Run_broadcast (sk, w) =
     Some (sk\<lparr>sk_thread := Run_pop\<rparr>, evs_broadcast ev_population None (Some (pack (sk_population sk))) w)"
| "run_step pack E Run_ended (sk, w) = None"

definition sk_app_init :: "gint64 \<Rightarrow> world \<Rightarrow> skeleton \<times> world" where
  "sk_app_init population w =
     (let w1 = snd (evs_add_handler (Some ''/skeleton'') (Some ''/baby-born'') (Some (H_app 0)) (Some On_no_on) None False w);
          w2 = snd (evs_add_handler (Some ''/skeleton'') (Some ''/population'') None None None False w1)
      in (\<lparr>sk_events = [], sk_population = population, sk_thread = Run_pop\<rparr>, w2))"

text \<open>\<open>_app_exit\<close> pushes NULL and joins the thread: it returns when the thread has ended.\<close>

definition sk_app_exit :: "bool \<Rightarrow> skeleton \<Rightarrow> skeleton" where
  "sk_app_exit takes_null sk = (if takes_null then sk\<lparr>sk_events := sk_events sk @ [None]\<rparr> else sk)"

section \<open>The machine\<close>

text \<open>
  The server and the application together. A step is labelled with the births the handler accepts in it; \<open>births\<close> says
  which these are.
\<close>

definition births :: "(string \<Rightarrow> gint64 option) \<Rightarrow> cid \<Rightarrow> guint64 \<Rightarrow> string \<Rightarrow> pending list" where
  "births unpack c client_cb json =
     (case unpack json of
        Some n \<Rightarrow> if 0 < sint n then [\<lparr>babies_born = n, p_client = c, p_client_cb = client_cb\<rparr>] else []
      | None \<Rightarrow> [])"

type_synonym sk_state = "cid set \<times> world \<times> skeleton"

inductive skeleton_step ::
  "(string \<Rightarrow> gint64 option) \<Rightarrow> (gint64 \<Rightarrow> string) \<Rightarrow> env \<Rightarrow> cid set \<Rightarrow> nat \<Rightarrow> sk_state \<Rightarrow> pending list \<Rightarrow> sk_state \<Rightarrow> bool"
  for unpack pack E C N where
  server: "server_step E C N (D, w) (D', v) \<Longrightarrow> skeleton_step unpack pack E C N (D, w, sk) [] (D', v, sk)"
| born: "proper E C w c \<Longrightarrow> ev_baby_born_handler unpack E c client_cb json (sk, w) = (st, sk', v) \<Longrightarrow>
    skeleton_step unpack pack E C N (D, w, sk) (births unpack c client_cb json) (D, v, sk')"
| thread: "run_step pack E (sk_thread sk) (sk, w) = Some (sk', v) \<Longrightarrow>
    (sk_thread sk = Run_broadcast \<Longrightarrow> length (w_broadcasts w) < N) \<Longrightarrow>
    skeleton_step unpack pack E C N (D, w, sk) [] (D, v, sk')"

inductive skeleton_run ::
  "(string \<Rightarrow> gint64 option) \<Rightarrow> (gint64 \<Rightarrow> string) \<Rightarrow> env \<Rightarrow> cid set \<Rightarrow> nat \<Rightarrow> sk_state \<Rightarrow> pending list \<Rightarrow> sk_state \<Rightarrow> bool"
  for unpack pack E C N s where
  start: "skeleton_run unpack pack E C N s [] s"
| more: "skeleton_run unpack pack E C N s bs t \<Longrightarrow> skeleton_step unpack pack E C N t cs u \<Longrightarrow>
    skeleton_run unpack pack E C N s (bs @ cs) u"

text \<open>The events that are not counted yet, and those whose client is still referenced.\<close>

definition queued :: "skeleton \<Rightarrow> pending list" where
  "queued sk = concat (map (\<lambda>x. case x of None \<Rightarrow> [] | Some p \<Rightarrow> [p]) (sk_events sk))"

definition in_hand :: "skeleton \<Rightarrow> pending list" where
  "in_hand sk = (case sk_thread sk of Run_reply p \<Rightarrow> [p] | Run_release p \<Rightarrow> [p] | _ \<Rightarrow> [])"

lemma queued_simps [simp]:
  "queued (sk\<lparr>sk_thread := pc\<rparr>) = queued sk" "queued (sk\<lparr>sk_population := n\<rparr>) = queued sk"
  "queued (sk\<lparr>sk_events := q @ [Some p]\<rparr>) = queued (sk\<lparr>sk_events := q\<rparr>) @ [p]"
  "queued (sk\<lparr>sk_events := q @ [None]\<rparr>) = queued (sk\<lparr>sk_events := q\<rparr>)"
  "queued (sk\<lparr>sk_events := sk_events sk\<rparr>) = queued sk"
  by (simp_all add: queued_def)

lemma queued_Cons:
  "sk_events sk = None # q \<Longrightarrow> queued sk = queued (sk\<lparr>sk_events := q\<rparr>)"
  "sk_events sk = Some p # q \<Longrightarrow> queued sk = p # queued (sk\<lparr>sk_events := q\<rparr>)"
  by (simp_all add: queued_def)

lemma in_hand_simps [simp]:
  "in_hand (sk\<lparr>sk_events := q\<rparr>) = in_hand sk" "in_hand (sk\<lparr>sk_population := n\<rparr>) = in_hand sk"
  "in_hand (sk\<lparr>sk_thread := Run_reply p\<rparr>) = [p]" "in_hand (sk\<lparr>sk_thread := Run_release p\<rparr>) = [p]"
  "in_hand (sk\<lparr>sk_thread := Run_broadcast\<rparr>) = []" "in_hand (sk\<lparr>sk_thread := Run_pop\<rparr>) = []"
  "in_hand (sk\<lparr>sk_thread := Run_ended\<rparr>) = []"
  by (simp_all add: in_hand_def)

section \<open>The server stays in order\<close>

lemma civil_cb:
  assumes "civil_law E C N" "proper E C w c"
  shows "civil E C N w (evs_cb E c cb json w)" "civil E C N w (evs_err_cb E c cb code err json w)"
proof -
  have "civil_law E C N \<longrightarrow> proper E C w c" using assms(2) by blast
  from civil_frame.to_evs_cb [OF civil_frame.to_refl [OF this]] assms(1)
  show "civil E C N w (evs_cb E c cb json w)" "civil E C N w (evs_err_cb E c cb code err json w)"
    unfolding civil_frame.to_def by blast+
qed

lemma cb_served:
  assumes "server_laws E C N L" "served E C N L B D w" "proper E C w c"
  shows "served E C N L B D (evs_cb E c cb json w)" "served E C N L B D (evs_err_cb E c cb code err json w)"
proof -
  note l = server_lawsD [OF assms(1)]
  note a = app_lawsD(1) [OF l(1)] and s = servedD [OF assms(2)]
  show "served E C N L B D (evs_cb E c cb json w)"
    by (rule civil_served [OF civil_cb(1) [OF l(3) assms(3)] calm_inv [OF calm_evs_cb [OF a s(6)] s(1)] assms(2)])
  show "served E C N L B D (evs_err_cb E c cb code err json w)"
    by (rule civil_served [OF civil_cb(2) [OF l(3) assms(3)] calm_inv [OF calm_evs_err_cb [OF a s(6)] s(1)] assms(2)])
qed

text \<open>Every client that is still to be answered is one that events go to.\<close>

definition sk_ok :: "env \<Rightarrow> cid set \<Rightarrow> nat \<Rightarrow> sk_state \<Rightarrow> bool" where
  "sk_ok E C N s \<longleftrightarrow> (case s of (D, w, sk) \<Rightarrow>
     served E C N (\<lambda>_. 0) {} D w \<and> (\<forall>p \<in> set (in_hand sk @ queued sk). proper E C w (p_client p)))"

lemma skeleton_step_ok:
  assumes "server_laws E C N (\<lambda>_. 0)" "skeleton_step unpack pack E C N s bs t" "sk_ok E C N s"
  shows "sk_ok E C N t"
  using assms(2)
proof (cases rule: skeleton_step.cases)
  case (server D w D' v sk)
  have s: "served E C N (\<lambda>_. 0) {} D w" using assms(3) server by (simp add: sk_ok_def)
  from step_served [OF assms(1) server(4) s] lastsD [OF step_lasts [OF assms(1) server(4) s]] assms(3) server
  show ?thesis by (auto simp: sk_ok_def)
next
  case (born w c cb json sk st sk' v D)
  have s: "served E C N (\<lambda>_. 0) {} D w" using assms(3) born by (simp add: sk_ok_def)
  note l = server_lawsD [OF assms(1)]
  have p: "proper E C (evs_err_cb E c cb code err j w) = proper E C w" "proper E C (emit (E_ref c) w) = proper E C w" for code err j
    using civil_fields(5) [OF civil_cb(2) [OF l(3) born(4)]] by (auto simp: fun_eq_iff proper_def live_def)
  show ?thesis
    using born assms(3) s cb_served(2) [OF assms(1) s born(4)] effect_served [OF s, of "E_ref c"] p
    by (auto simp: sk_ok_def ev_baby_born_handler_def Let_def split: option.splits if_splits)
next
  case (thread sk w sk' v D)
  have s: "served E C N (\<lambda>_. 0) {} D w" and q: "\<forall>p \<in> set (in_hand sk @ queued sk). proper E C w (p_client p)"
    using assms(3) thread by (simp_all add: sk_ok_def)
  note l = server_lawsD [OF assms(1)]
  show ?thesis
  proof (cases "sk_thread sk")
    case Run_pop
    then show ?thesis
      using thread s q queued_Cons [of sk] by (auto simp: sk_ok_def in_hand_def split: list.splits option.splits)
  next
    case (Run_reply p)
    then have p: "proper E C w (p_client p)" using q by (simp add: in_hand_def)
    from Run_reply thread have v: "t = (D, evs_cb E (p_client p) (p_client_cb p) None w, sk\<lparr>sk_thread := Run_release p\<rparr>)" by simp
    show ?thesis
      using cb_served(1) [OF assms(1) s p] civil_fields(5) [OF civil_cb(1) [OF l(3) p]] p q by (simp add: v sk_ok_def)
  next
    case (Run_release p)
    then have v: "t = (D, emit (E_unref (Some (p_client p))) w, sk\<lparr>sk_thread := Run_broadcast\<rparr>)" using thread by simp
    show ?thesis
      using effect_served [OF s, of "E_unref (Some (p_client p))"] q by (simp add: v sk_ok_def proper_def live_def)
  next
    case Run_broadcast
    then have v: "t = (D, evs_broadcast ev_population None (Some (pack (sk_population sk))) w, sk\<lparr>sk_thread := Run_pop\<rparr>)"
      and b: "length (w_broadcasts w) < N" using thread by simp_all
    show ?thesis
      using evs_broadcast_served [OF l(5) s b] lastsD [OF lasts_broadcast] q by (simp add: v sk_ok_def)
  next
    case Run_ended
    with thread show ?thesis by simp
  qed
qed

lemma skeleton_run_ok:
  "skeleton_run unpack pack E C N s bs t \<Longrightarrow> server_laws E C N (\<lambda>_. 0) \<Longrightarrow> sk_ok E C N s \<Longrightarrow> sk_ok E C N t"
  by (induction rule: skeleton_run.induct) (auto intro: skeleton_step_ok)

lemma init_ok:
  assumes "sk_app_init n start_world = (sk, w)"
  shows "sk_ok E C N ({}, w, sk)"
  using assms add_handler_served [OF add_handler_served [OF start_served]]
  by (auto simp: sk_app_init_def sk_ok_def Let_def queued_def in_hand_def)

section \<open>Counting\<close>

abbreviation total_born :: "pending list \<Rightarrow> gint64" where
  "total_born ps \<equiv> sum_list (map babies_born ps)"

text \<open>Counted are the births \<open>seen\<close>, of which the last one may be in the hands of the thread.\<close>

definition counted :: "gint64 \<Rightarrow> pending list \<Rightarrow> skeleton \<Rightarrow> pending list \<Rightarrow> bool" where
  "counted n bs sk seen \<longleftrightarrow> bs = seen @ queued sk \<and> sk_population sk = n + total_born seen \<and>
     (\<forall>p \<in> set bs. 0 < sint (babies_born p)) \<and> (\<exists>before. seen = before @ in_hand sk)"

lemma counted_birth:
  assumes "counted n bs sk seen" "ev_baby_born_handler unpack E c cb json (sk, w) = (st, sk', v)"
  shows "counted n (bs @ births unpack c cb json) sk' seen"
  using assms
  by (auto simp: counted_def ev_baby_born_handler_def births_def Let_def split: option.splits if_splits)

lemma counted_thread:
  assumes "counted n bs sk seen" "run_step pack E (sk_thread sk) (sk, w) = Some (sk', v)"
  shows "\<exists>seen'. counted n bs sk' seen'"
proof (cases "sk_thread sk")
  case Run_pop
  show ?thesis
  proof (cases "sk_events sk")
    case Nil
    with Run_pop assms(2) show ?thesis by simp
  next
    case (Cons x q)
    show ?thesis
    proof (cases x)
      case None
      with Cons Run_pop assms queued_Cons(1) [of sk q] have "counted n bs sk' seen"
        by (auto simp: counted_def)
      then show ?thesis by blast
    next
      case (Some p)
      with Cons Run_pop assms queued_Cons(2) [of sk p q] have "counted n bs sk' (seen @ [p])"
        by (auto simp: counted_def)
      then show ?thesis by blast
    qed
  qed
next
  case (Run_reply p)
  with assms have "counted n bs sk' seen" by (auto simp: counted_def in_hand_def)
  then show ?thesis by blast
qed (use assms in \<open>auto simp: counted_def\<close>)

lemma counted_run:
  "skeleton_run unpack pack E C N (D0, w0, sk0) bs t \<Longrightarrow> counted n [] sk0 [] \<Longrightarrow> \<exists>seen. counted n bs (snd (snd t)) seen"
proof (induction rule: skeleton_run.induct)
  case (more bs t cs u)
  then obtain seen where c: "counted n bs (snd (snd t)) seen" by auto
  from more.hyps(2) show ?case
    by (cases rule: skeleton_step.cases) (use c counted_birth counted_thread in \<open>auto, blast+\<close>)
qed auto

lemma sint_sum:
  fixes n :: gint64
  assumes "0 \<le> sint n" "\<forall>p \<in> set ps. 0 < sint (babies_born p)" "sint n + sum_list (map (\<lambda>p. sint (babies_born p)) ps) < 2 ^ 63"
  shows "sint (n + total_born ps) = sint n + sum_list (map (\<lambda>p. sint (babies_born p)) ps)"
  using assms(2,3)
proof (induction ps rule: rev_induct)
  case (snoc p ps)
  let ?m = "n + total_born ps"
  have i: "sint ?m = sint n + sum_list (map (\<lambda>p. sint (babies_born p)) ps)" using snoc by simp
  have "0 \<le> sum_list (map (\<lambda>p. sint (babies_born p)) ps)" by (rule sum_list_nonneg) (use snoc.prems(1) in force)
  then have r: "0 \<le> sint ?m + sint (babies_born p)" "sint ?m + sint (babies_born p) < 2 ^ 63"
    using i snoc.prems assms(1) by simp_all
  have "sint (?m + babies_born p) = signed_take_bit 63 (sint ?m + sint (babies_born p))"
    by (simp add: sint_word_ariths)
  also have "\<dots> = sint ?m + sint (babies_born p)" by (rule signed_take_bit_int_eq_self) (use r in simp_all)
  finally show ?case by (simp add: i add.assoc)
qed simp

section \<open>References\<close>

definition held_clients :: "skeleton \<Rightarrow> cid \<Rightarrow> int" where
  "held_clients sk c = int (count_list (map p_client (in_hand sk @ queued sk)) c)"

lemma cb_bal:
  assumes "fin_links w"
  shows "bal (evs_cb_full E c cb code err json None None None w) = bal w"
proof -
  have f: "bal (fault u) = bal u" for u by (simp add: bal_def linkers_def fun_eq_iff)
  have "bal (protocols_send E c path x s j w) = bal w" for path x s j
    using send_frames_bal(2) [OF assms] f
    by (cases "c_prot (w_clients w c)") (simp_all add: protocols_send_def Let_def split: option.split)
  then show ?thesis by (simp add: evs_cb_full_def client_cb_new_def cb_data_free_def)
qed

lemma broadcast_bal: "bal (evs_broadcast ev x json w) = bal w"
proof -
  obtain q u where g: "sub_get ev x False w = (q, u)" by (cases "sub_get ev x False w")
  have "w_clients u = w_clients w" "w_trace u = w_trace w"
    using sub_get_frame [of ev x False w] by (simp_all add: g)
  then show ?thesis by (auto simp: evs_broadcast_def g bal_def linkers_def fun_eq_iff split: option.split)
qed

section \<open>The end\<close>

definition work :: "(gint64 \<Rightarrow> string) \<Rightarrow> env \<Rightarrow> skeleton \<times> world \<Rightarrow> skeleton \<times> world \<Rightarrow> bool" where
  "work pack E s t \<longleftrightarrow> run_step pack E (sk_thread (fst s)) s = Some t"

lemma work_next: "work pack E s t \<Longrightarrow> (work pack E)\<^sup>*\<^sup>* t u \<Longrightarrow> (work pack E)\<^sup>*\<^sup>* s u"
  by (rule converse_rtranclp_into_rtranclp)

lemma work_to_pop:
  assumes "sk_thread sk \<noteq> Run_ended"
  shows "\<exists>v. (work pack E)\<^sup>*\<^sup>* (sk, w) (sk\<lparr>sk_thread := Run_pop\<rparr>, v)"
proof -
  have b: "\<exists>v. (work pack E)\<^sup>*\<^sup>* (k, w) (k\<lparr>sk_thread := Run_pop\<rparr>, v)" if "sk_thread k = Run_broadcast" for k w
    by (rule exI, rule r_into_rtranclp) (simp add: work_def that)
  have r: "\<exists>v. (work pack E)\<^sup>*\<^sup>* (k, w) (k\<lparr>sk_thread := Run_pop\<rparr>, v)" if "sk_thread k = Run_release p" for k w p
  proof -
    let ?t = "(k\<lparr>sk_thread := Run_broadcast\<rparr>, emit (E_unref (Some (p_client p))) w)"
    have "work pack E (k, w) ?t" using that by (simp add: work_def)
    with b [of "k\<lparr>sk_thread := Run_broadcast\<rparr>" "snd ?t"] show ?thesis by (auto dest: work_next)
  qed
  have a: "\<exists>v. (work pack E)\<^sup>*\<^sup>* (k, w) (k\<lparr>sk_thread := Run_pop\<rparr>, v)" if "sk_thread k = Run_reply p" for k w p
  proof -
    let ?t = "(k\<lparr>sk_thread := Run_release p\<rparr>, evs_cb E (p_client p) (p_client_cb p) None w)"
    have "work pack E (k, w) ?t" using that by (simp add: work_def)
    with r [of "k\<lparr>sk_thread := Run_release p\<rparr>" p "snd ?t"] show ?thesis by (auto dest: work_next)
  qed
  have "\<exists>v. (work pack E)\<^sup>*\<^sup>* (k, w) (k\<lparr>sk_thread := Run_pop\<rparr>, v)" if "sk_thread k = Run_pop" for k w
  proof -
    have "k\<lparr>sk_thread := Run_pop\<rparr> = k" using that by simp
    then show ?thesis by auto
  qed
  then show ?thesis using a b r assms by (cases "sk_thread sk") blast+
qed

lemma work_drains:
  "sk_events sk = map Some ps @ rest \<Longrightarrow> sk_thread sk \<noteq> Run_ended \<Longrightarrow>
   \<exists>v. (work pack E)\<^sup>*\<^sup>* (sk, w) (\<lparr>sk_events = rest, sk_population = sk_population sk + total_born ps, sk_thread = Run_pop\<rparr>, v)"
proof (induction ps arbitrary: sk w)
  case Nil
  from work_to_pop [OF Nil(2), of pack E w] obtain v where v: "(work pack E)\<^sup>*\<^sup>* (sk, w) (sk\<lparr>sk_thread := Run_pop\<rparr>, v)" ..
  have "sk\<lparr>sk_thread := Run_pop\<rparr> = \<lparr>sk_events = rest, sk_population = sk_population sk + total_born [], sk_thread = Run_pop\<rparr>"
    using Nil(1) by (cases sk) simp
  with v show ?case by auto
next
  case (Cons p ps)
  let ?k = "sk\<lparr>sk_thread := Run_pop\<rparr>"
  let ?n = "sk\<lparr>sk_events := map Some ps @ rest, sk_population := sk_population sk + babies_born p, sk_thread := Run_reply p\<rparr>"
  from work_to_pop [OF Cons.prems(2), of pack E w] obtain v where v: "(work pack E)\<^sup>*\<^sup>* (sk, w) (?k, v)" ..
  have "work pack E (?k, v) (?n, v)" using Cons.prems(1) by (simp add: work_def)
  with v have n: "(work pack E)\<^sup>*\<^sup>* (sk, w) (?n, v)" by (rule rtranclp.rtrancl_into_rtrancl)
  from Cons.IH [of ?n v] obtain u where "(work pack E)\<^sup>*\<^sup>* (?n, v)
    (\<lparr>sk_events = rest, sk_population = sk_population sk + babies_born p + total_born ps, sk_thread = Run_pop\<rparr>, u)" by auto
  with n show ?case by (auto simp: add.assoc intro: rtranclp_trans)
qed

lemma queued_all: "None \<notin> set (sk_events sk) \<Longrightarrow> sk_events sk = map Some (queued sk)"
proof -
  have "None \<notin> set q \<Longrightarrow> q = map Some (concat (map (\<lambda>x. case x of None \<Rightarrow> [] | Some p \<Rightarrow> [p]) q))" for q :: "pending option list"
  proof (induction q)
    case (Cons a q)
    then show ?case by (cases a) auto
  qed simp
  then show "None \<notin> set (sk_events sk) \<Longrightarrow> sk_events sk = map Some (queued sk)" by (simp add: queued_def)
qed

text \<open>Without a NULL in the queue the thread does not end.\<close>

lemma work_never_ends:
  "(work pack E)\<^sup>*\<^sup>* s t \<Longrightarrow> None \<notin> set (sk_events (fst s)) \<and> sk_thread (fst s) \<noteq> Run_ended \<Longrightarrow>
   None \<notin> set (sk_events (fst t)) \<and> sk_thread (fst t) \<noteq> Run_ended"
proof (induction rule: rtranclp_induct)
  case (step t u)
  obtain sk w where t: "t = (sk, w)" by (cases t)
  from step have i: "None \<notin> set (sk_events sk)" "sk_thread sk \<noteq> Run_ended" "run_step pack E (sk_thread sk) (sk, w) = Some u"
    by (simp_all add: t work_def)
  show ?case using i by (cases "sk_thread sk") (auto split: list.splits option.splits)
qed

section \<open>Properties\<close>


text \<open>A client connects, speaks the raw protocol, sends a birth, and the thread counts it.\<close>

lemma sample_connects:
  assumes "rbuff_of 5 w = []" "c_prot (w_clients w 5) = None" "\<not> c_handshaked (w_clients w 5)"
  shows "\<exists>v. server_step sample_server_env {5, 6, 9} 100 (D, w) (D, v) \<and> proper sample_server_env {5, 6, 9} v 5 \<or> 5 \<in> D"
proof (cases "5 \<in> D")
  case False
  let ?w0 = "set_rbuff 5 ''/qio/ohai'' w" let ?w1 = "upd_client 5 (\<lambda>cl. cl\<lparr>c_last_recv := w_now ?w0\<rparr>) ?w0"
  let ?w2 = "upd_client 5 (\<lambda>cl. cl\<lparr>c_prot := Some P_raw\<rparr>) ?w1"
  have "rbuff_of 5 ?w1 = ''/qio/ohai''" by (simp add: set_rbuff_def rbuff_of_def)
  then have "prot_handles P_raw 5 ?w1 = PROT_YES"
    by (simp add: prot_handles_def protocol_raw_handles_def HANDSHAKE_def cstr_def)
  from find_handler_yes [OF this] have f: "find_handler 5 ?w1 = (True, ?w2)" .
  obtain hs where hs: "prot_handshake sample_server_env P_raw = Some hs" by (simp add: prot_handshake_def)
  have r: "qev_on_read sample_server_env 5 ?w0 = Some (handshake hs 5 ?w2)"
    using f assms(2,3) hs by (simp add: qev_on_read_def protocols_route_def Let_def set_rbuff_def)
  have c: "conn sample_server_env {5, 6, 9} D 5" using False by (simp add: conn_def sample_server_env_def)
  have "proper sample_server_env {5, 6, 9} ?w2 5" by (simp add: proper_def live_def sample_server_env_def)
  from lastsD [OF lasts_handshake [OF hs] this] server_step.receive [OF c, of w "''/qio/ohai''" "handshake hs 5 ?w2" 100] r assms(1)
  show ?thesis by auto
qed simp


text \<open>
  The references of the application: accepting a birth takes one for its client, the thread gives it back after
  the answer, and nothing else of the application changes the balance; so it holds exactly one for each
  birth that is queued or in the hands of the thread, and a client lives until it is answered.
\<close>

theorem skeleton_references:
  assumes "fin_links w"
    and "ev_baby_born_handler unpack E d client_cb json (sk, w) = (st, sk', v) \<or>
      run_step pack E (sk_thread sk) (sk, w) = Some (sk', v)"
  shows "bal v c - held_clients sk' c = bal w c - held_clients sk c"
proof -
  have cb: "bal (evs_cb E k x j w) = bal w" "bal (evs_err_cb E k x code err j w) = bal w" for k x j code err
    using cb_bal [OF assms(1)] by (simp_all add: evs_cb_def evs_err_cb_def)
  from assms(2) show ?thesis
  proof
    assume "ev_baby_born_handler unpack E d client_cb json (sk, w) = (st, sk', v)"
    then show ?thesis
      using cb by (auto simp: ev_baby_born_handler_def Let_def held_clients_def bal_ref owed_def split: option.splits if_splits)
  next
    assume r: "run_step pack E (sk_thread sk) (sk, w) = Some (sk', v)"
    show ?thesis
    proof (cases "sk_thread sk")
      case Run_pop
      then show ?thesis
        using r queued_Cons [of sk] by (auto simp: held_clients_def in_hand_def split: list.splits option.splits)
    next
      case (Run_reply p)
      then have h: "in_hand sk = [p]" by (simp add: in_hand_def)
      from Run_reply r have "sk' = sk\<lparr>sk_thread := Run_release p\<rparr>" "v = evs_cb E (p_client p) (p_client_cb p) None w" by simp_all
      then show ?thesis using cb(1) by (simp add: held_clients_def h)
    next
      case (Run_release p)
      then have h: "in_hand sk = [p]" by (simp add: in_hand_def)
      from Run_release r have "sk' = sk\<lparr>sk_thread := Run_broadcast\<rparr>" "v = emit (E_unref (Some (p_client p))) w" by simp_all
      then show ?thesis by (auto simp: held_clients_def h bal_unref owed_def)
    next
      case Run_broadcast
      then have h: "in_hand sk = []" by (simp add: in_hand_def)
      from Run_broadcast r have "sk' = sk\<lparr>sk_thread := Run_pop\<rparr>"
        "v = evs_broadcast ev_population None (Some (pack (sk_population sk))) w" by simp_all
      then show ?thesis by (simp add: held_clients_def h broadcast_bal)
    next
      case Run_ended
      with r show ?thesis by simp
    qed
  qed
qed

lemma skeleton_references_witness:
  "bal (emit (E_ref 5) init_world) 5 -
     held_clients \<lparr>sk_events = [Some \<lparr>babies_born = 3, p_client = 5, p_client_cb = 7\<rparr>], sk_population = 0, sk_thread = Run_pop\<rparr> 5 =
   bal init_world 5 - held_clients \<lparr>sk_events = [], sk_population = 0, sk_thread = Run_pop\<rparr> 5"
proof -
  have f: "fin_links init_world" by (simp add: fin_links_def linkers_def init_world_def qev_client_new_def)
  have "ev_baby_born_handler (\<lambda>_. Some 3) sample_env 5 7 ''3'' (\<lparr>sk_events = [], sk_population = 0, sk_thread = Run_pop\<rparr>, init_world) =
    (EVS_STATUS_HANDLED, \<lparr>sk_events = [Some \<lparr>babies_born = 3, p_client = 5, p_client_cb = 7\<rparr>], sk_population = 0, sk_thread = Run_pop\<rparr>,
     emit (E_ref 5) init_world)" by (simp add: ev_baby_born_handler_def)
  from skeleton_references [OF f disjI1 [OF this]] show ?thesis by blast
qed

text \<open>
  C33. The end of the application depends on the queue. If it took a NULL, the thread would process everything that
  was queued, then end, and \<open>_app_exit\<close> return. If it refuses NULL, which GLib documents, the thread never ends: it gets
  to a state in which it waits for an event forever, and so does the join of \<open>_app_exit\<close>.
\<close>

theorem skeleton_exit:
  assumes "None \<notin> set (sk_events sk)" "sk_thread sk \<noteq> Run_ended"
  shows "if takes_null
    then \<exists>v. (work pack E)\<^sup>*\<^sup>* (sk_app_exit True sk, w)
      (\<lparr>sk_events = [], sk_population = sk_population sk + total_born (queued sk), sk_thread = Run_ended\<rparr>, v)
    else (\<forall>t. (work pack E)\<^sup>*\<^sup>* (sk_app_exit False sk, w) t \<longrightarrow> sk_thread (fst t) \<noteq> Run_ended) \<and>
      (\<exists>t. (work pack E)\<^sup>*\<^sup>* (sk_app_exit False sk, w) t \<and> (\<nexists>u. work pack E t u))"
proof (cases takes_null)
  case True
  let ?k = "\<lparr>sk_events = [None], sk_population = sk_population sk + total_born (queued sk), sk_thread = Run_pop\<rparr>"
  have "sk_events (sk_app_exit True sk) = map Some (queued sk) @ [None]" using queued_all [OF assms(1)] by (simp add: sk_app_exit_def)
  from work_drains [OF this, of pack E w] assms(2) obtain v where "(work pack E)\<^sup>*\<^sup>* (sk_app_exit True sk, w) (?k, v)"
    by (auto simp: sk_app_exit_def)
  moreover have "work pack E (?k, v) (\<lparr>sk_events = [], sk_population = sk_population sk + total_born (queued sk), sk_thread = Run_ended\<rparr>, v)"
    by (simp add: work_def)
  ultimately show ?thesis using True by (auto intro: rtranclp.rtrancl_into_rtrancl)
next
  case False
  let ?k = "\<lparr>sk_events = [], sk_population = sk_population sk + total_born (queued sk), sk_thread = Run_pop\<rparr>"
  have k: "sk_app_exit False sk = sk" by (simp add: sk_app_exit_def)
  from work_drains [of sk "queued sk" "[]" pack E w] queued_all [OF assms(1)] assms(2)
  obtain v where "(work pack E)\<^sup>*\<^sup>* (sk, w) (?k, v)" by auto
  moreover have "\<nexists>u. work pack E (?k, v) u" by (simp add: work_def)
  ultimately show ?thesis using False work_never_ends [of pack E "(sk, w)"] assms by (auto simp: k)
qed

lemma skeleton_exit_witness:
  "\<exists>t. (work (\<lambda>_. ''0'') sample_env)\<^sup>*\<^sup>* (sk_app_exit False \<lparr>sk_events = [], sk_population = 0, sk_thread = Run_pop\<rparr>, init_world) t \<and>
     (\<nexists>u. work (\<lambda>_. ''0'') sample_env t u) \<and> sk_thread (fst t) \<noteq> Run_ended"
  using skeleton_exit [of "\<lparr>sk_events = [], sk_population = 0, sk_thread = Run_pop\<rparr>" False "\<lambda>_. ''0''" sample_env init_world] by auto

end
