(* ===== verification/Shutdown.thy ===== *)
theory Shutdown
  imports Routed
begin

text \<open>
  The start and the end of the process: the order of \<open>qio_main\<close> (\<open>src/quickio.c\<close>), and what the cleanup functions that
  \<open>evs_pre_init\<close> registers do (\<open>_broadcast_free\<close> and \<open>event_clear\<close> of \<open>src/evs.c\<close>, \<open>_ptrie_free\<close> of
  \<open>src/evs_query.c\<close>). The order in which quick-event runs them decides whether freed memory is used.
\<close>

section \<open>The start\<close>

text \<open>The queue of broadcasts and the registry are empty; then the events of the server are registered.\<close>

definition evs_pre_init :: "world \<Rightarrow> world" where
  "evs_pre_init w = w\<lparr>w_broadcasts := [], w_events := empty_trie\<rparr>"

definition evs_init :: "world \<Rightarrow> world" where
  "evs_init w = evs_qio_init w"

definition apps_init :: "modules \<Rightarrow> (string \<times> string) list \<Rightarrow> world \<Rightarrow> (app list \<times> world) option" where
  "apps_init M entries w = apps_load M entries ([], w)"

definition qev_on_before_run :: "modules \<Rightarrow> (string \<times> string) list \<Rightarrow> world \<Rightarrow> (app list \<times> world) option" where
  "qev_on_before_run M entries w = apps_init M entries w"

text \<open>\<open>qev_run\<close> calls \<open>qev_on_before_run\<close>; the other init functions keep only counters and a timer. The process then waits for its end, unless it
  runs the tests of its applications.\<close>

definition qio_main :: "modules \<Rightarrow> (string \<times> string) list \<Rightarrow> (app list \<times> world) option" where
  "qio_main M entries = qev_on_before_run M entries (evs_init (evs_pre_init init_world))"

lemma qio_main_start: "qio_main M entries = apps_load M entries ([], start_world)"
proof -
  have "evs_pre_init init_world = init_world" by (simp add: evs_pre_init_def init_world_def empty_trie_def)
  then show ?thesis by (simp add: qio_main_def qev_on_before_run_def apps_init_def evs_init_def start_world_def)
qed

definition main :: "bool \<Rightarrow> modules \<Rightarrow> (string \<times> string) list \<Rightarrow> world option" where
  "main cfg_run_app_tests M entries =
     (case qio_main M entries of
        None \<Rightarrow> None
      | Some (apps, w) \<Rightarrow> if cfg_run_app_tests then apps_test M apps w else Some w)"

definition qev_on_tick :: "env \<Rightarrow> world \<Rightarrow> world" where
  "qev_on_tick E w = evs_broadcast_tick E w"

section \<open>The end\<close>

text \<open>The world, the paths of the events whose memory is gone, in order, and the number of nodes given back.\<close>

record closing =
  s_world :: world
  s_freed :: "string list"
  s_nodes :: nat

definition closing_start :: "world \<Rightarrow> closing" where
  "closing_start w = \<lparr>s_world = w, s_freed = [], s_nodes = 0\<rparr>"

text \<open>The last reference takes the lock and the table of the event.\<close>

definition uses_event :: "sid \<Rightarrow> closing \<Rightarrow> bool" where
  "uses_event sub s \<longleftrightarrow>
     (case w_sub_heap (s_world s) sub of
        None \<Rightarrow> False
      | Some m \<Rightarrow> sub_refs m - 1 = 0 \<and> ev_path (sub_ev m) \<in> set (s_freed s))"

definition broadcast_free :: "sid \<times> string \<Rightarrow> closing \<Rightarrow> closing" where
  "broadcast_free b s =
     s\<lparr>s_world := (if uses_event (fst b) s then fault (s_world s) else sub_unref (fst b) (s_world s))\<rparr>"

fun broadcasts_unref :: "(sid \<times> string) list \<Rightarrow> closing \<Rightarrow> closing" where
  "broadcasts_unref [] s = s"
| "broadcasts_unref (b # bs) s = broadcasts_unref bs (broadcast_free b (s\<lparr>s_world := (s_world s)\<lparr>w_broadcasts := bs\<rparr>\<rparr>))"

text \<open>Clearing an event a second time gives back a table that is NULL.\<close>

definition event_clear :: "event \<Rightarrow> closing \<Rightarrow> closing" where
  "event_clear ev s =
     (if ev_path ev \<in> set (s_freed s) then s\<lparr>s_world := fault (s_world s)\<rparr>
      else s\<lparr>s_freed := s_freed s @ [ev_path ev],
             s_world := (s_world s)\<lparr>w_ev_subs := (\<lambda>k. if fst k = ev_path ev then None else w_ev_subs (s_world s) k)\<rparr>\<rparr>)"

fun ptrie_free :: "bool \<Rightarrow> ptrie option \<Rightarrow> closing \<Rightarrow> closing" where
  "ptrie_free root None s = s"
| "ptrie_free root (Some (Ptrie ev ch childs)) s =
     (let s1 = fold (ptrie_free False) childs s;
          s2 = (case ev of None \<Rightarrow> s1 | Some e \<Rightarrow> event_clear e s1)
      in if root then s2 else s2\<lparr>s_nodes := Suc (s_nodes s2)\<rparr>)"

definition events_free :: "closing \<Rightarrow> closing" where
  "events_free s =
     (let s1 = ptrie_free True (Some (w_events (s_world s))) s
      in s1\<lparr>s_world := (s_world s1)\<lparr>w_events := empty_trie\<rparr>\<rparr>)"

datatype cleanup = Cleanup_broadcasts | Cleanup_events

fun run_cleanup :: "cleanup \<Rightarrow> closing \<Rightarrow> closing" where
  "run_cleanup Cleanup_broadcasts s = broadcasts_unref (w_broadcasts (s_world s)) s"
| "run_cleanup Cleanup_events s = events_free s"

text \<open>In the order of their registration, first the queue.\<close>

definition evs_cleanups :: "cleanup list" where
  "evs_cleanups = [Cleanup_broadcasts, Cleanup_events]"

section \<open>The tree\<close>

text \<open>The events in the order in which they are cleared.\<close>

fun ptrie_events :: "ptrie option \<Rightarrow> event list" where
  "ptrie_events None = []"
| "ptrie_events (Some (Ptrie ev ch childs)) = concat (map ptrie_events childs) @ (case ev of None \<Rightarrow> [] | Some e \<Rightarrow> [e])"

lemma event_clear_nodes: "event_clear e (s\<lparr>s_nodes := n\<rparr>) = (event_clear e s)\<lparr>s_nodes := n\<rparr>"
  by (cases s) (simp add: event_clear_def cong: if_cong)

lemma fold_clear_nodes: "fold event_clear es (s\<lparr>s_nodes := n\<rparr>) = (fold event_clear es s)\<lparr>s_nodes := n\<rparr>"
  by (induction es arbitrary: s) (simp_all add: event_clear_nodes)

lemma ptrie_free_clears: "\<exists>n. ptrie_free root t s = (fold event_clear (ptrie_events t) s)\<lparr>s_nodes := n\<rparr>"
proof (induction root t s rule: ptrie_free.induct)
  case (1 root s)
  show ?case by (rule exI [of _ "s_nodes s"]) simp
next
  case (2 root ev ch childs s)
  have "\<exists>n. fold (ptrie_free False) cs s = (fold event_clear (concat (map ptrie_events cs)) s)\<lparr>s_nodes := n\<rparr>"
    if "set cs \<subseteq> set childs" for cs s
    using that
  proof (induction cs arbitrary: s)
    case Nil
    show ?case by (rule exI [of _ "s_nodes s"]) simp
  next
    case (Cons c cs)
    from 2 [of c s] Cons.prems obtain n where n: "ptrie_free False c s = (fold event_clear (ptrie_events c) s)\<lparr>s_nodes := n\<rparr>" by auto
    from Cons.IH [of "ptrie_free False c s"] Cons.prems obtain m where
      "fold (ptrie_free False) cs (ptrie_free False c s) = (fold event_clear (concat (map ptrie_events cs)) (ptrie_free False c s))\<lparr>s_nodes := m\<rparr>"
      by auto
    then show ?case by (auto simp: n fold_clear_nodes)
  qed
  from this [of childs s] obtain n where n: "fold (ptrie_free False) childs s = (fold event_clear (concat (map ptrie_events childs)) s)\<lparr>s_nodes := n\<rparr>" by auto
  show ?case by (auto simp: n Let_def event_clear_nodes split: option.split)
qed

lemma distinct_concat_nth:
  "(\<And>i. i < length xss \<Longrightarrow> distinct (xss ! i)) \<Longrightarrow>
   (\<And>i j. i < j \<Longrightarrow> j < length xss \<Longrightarrow> set (xss ! i) \<inter> set (xss ! j) = {}) \<Longrightarrow> distinct (concat xss)"
proof (induction xss)
  case (Cons xs xss)
  have "distinct (concat xss)" using Cons.prems [of "Suc _"] Cons.prems(2) [of "Suc _" "Suc _"] by (intro Cons.IH) auto
  moreover have "set xs \<inter> set (concat xss) = {}"
  proof -
    have "set xs \<inter> set (xss ! j) = {}" if "j < length xss" for j using Cons.prems(2) [of 0 "Suc j"] that by simp
    then show ?thesis by (fastforce simp: in_set_conv_nth)
  qed
  moreover have "distinct xs" using Cons.prems(1) [of 0] by simp
  ultimately show ?case by simp
qed simp

text \<open>The character that leads to a child.\<close>

definition child_char :: "nat \<Rightarrow> char" where
  "child_char i = char_of (i + 45)"

lemma child_char:
  assumes "i < n_childs"
  shows "in_range (child_char i)" "child_index (child_char i) = i"
  using assms by (simp_all add: child_char_def in_range_def child_index_eq n_childs_def)

lemma child_char_inj: "i < n_childs \<Longrightarrow> j < n_childs \<Longrightarrow> child_char i = child_char j \<Longrightarrow> i = j"
  using child_char(2) by metis

text \<open>In a tree whose events are named by their positions every event is found once.\<close>

lemma ptrie_events_paths:
  "wf_trie t \<Longrightarrow> (\<And>r e. \<forall>c \<in> set r. in_range c \<Longrightarrow> event_at t r = Some e \<Longrightarrow> ev_path e = before @ r) \<Longrightarrow>
   distinct (map ev_path (ptrie_events (Some t))) \<and>
   set (ptrie_events (Some t)) = {e. \<exists>r. (\<forall>c \<in> set r. in_range c) \<and> event_at t r = Some e}"
proof (induction arbitrary: before rule: wf_trie.induct)
  case (wf_node childs ev ch)
  let ?t = "Ptrie ev ch childs"
  note len = wf_node(1)
  have at: "event_at ?t (child_char i # r) = event_at u r" if "i < n_childs" "childs ! i = Some u" for i u r
    using that child_char(2) len by (simp add: event_at_def)
  have child: "distinct (map ev_path (ptrie_events (childs ! i))) \<and>
      (\<forall>e. e \<in> set (ptrie_events (childs ! i)) \<longleftrightarrow> (\<exists>r. (\<forall>c \<in> set r. in_range c) \<and> event_at ?t (child_char i # r) = Some e))"
    if i: "i < n_childs" for i
  proof (cases "childs ! i")
    case None
    then have "event_at ?t (child_char i # r) = None" for r using i child_char(2) len by (simp add: event_at_def)
    with None show ?thesis by simp
  next
    case (Some u)
    then have u: "Some u \<in> set childs" using i len by (metis nth_mem)
    have "ev_path e = (before @ [child_char i]) @ r" if "\<forall>c \<in> set r. in_range c" "event_at u r = Some e" for r e
      using wf_node.prems [of "child_char i # r" e] that at [OF i Some] child_char(1) [OF i] by simp
    from wf_node(3) [OF u this] show ?thesis by (simp add: Some at [OF i Some])
  qed
  have named: "\<exists>r. ev_path e = before @ child_char i # r" if "i < n_childs" "e \<in> set (ptrie_events (childs ! i))" for i e
    using child [OF that(1)] that wf_node.prems [of "child_char i # _" e] child_char(1) [OF that(1)] by auto
  have "distinct (concat (map (map ev_path \<circ> ptrie_events) childs))"
  proof (rule distinct_concat_nth)
    show "distinct (map (map ev_path \<circ> ptrie_events) childs ! i)" if "i < length (map (map ev_path \<circ> ptrie_events) childs)" for i
      using child [of i] that len by simp
  next
    fix i j :: nat
    assume ij: "i < j" "j < length (map (map ev_path \<circ> ptrie_events) childs)"
    show "set (map (map ev_path \<circ> ptrie_events) childs ! i) \<inter> set (map (map ev_path \<circ> ptrie_events) childs ! j) = {}"
    proof (rule ccontr)
      assume "set (map (map ev_path \<circ> ptrie_events) childs ! i) \<inter> set (map (map ev_path \<circ> ptrie_events) childs ! j) \<noteq> {}"
      then obtain a b where "a \<in> set (ptrie_events (childs ! i))" "b \<in> set (ptrie_events (childs ! j))" "ev_path a = ev_path b"
        using ij by auto
      with named [of i a] named [of j b] ij len have "child_char i = child_char j" by auto
      with child_char_inj [of i j] ij len show False by simp
    qed
  qed
  moreover have "ev_path e \<notin> ev_path ` set (concat (map ptrie_events childs))" if "ev = Some e" for e
  proof
    assume "ev_path e \<in> ev_path ` set (concat (map ptrie_events childs))"
    then obtain x d where x: "x \<in> set childs" "d \<in> set (ptrie_events x)" "ev_path d = ev_path e" by auto
    from x(1) len obtain i where "i < n_childs" "childs ! i = x" by (auto simp: in_set_conv_nth)
    with x have "i < n_childs" "d \<in> set (ptrie_events (childs ! i))" "ev_path d = ev_path e" by simp_all
    moreover have "ev_path e = before" using wf_node.prems [of "[]" e] that by (simp add: event_at_def)
    ultimately show False using named [of i d] by auto
  qed
  ultimately have "distinct (map ev_path (ptrie_events (Some ?t)))"
    by (auto simp: map_concat split: option.split)
  moreover have "e \<in> set (ptrie_events (Some ?t)) \<longleftrightarrow> (\<exists>r. (\<forall>c \<in> set r. in_range c) \<and> event_at ?t r = Some e)" for e
  proof
    assume "e \<in> set (ptrie_events (Some ?t))"
    then consider "ev = Some e" | x where "x \<in> set childs" "e \<in> set (ptrie_events x)"
      by (auto split: option.splits)
    then consider "ev = Some e" | i where "i < n_childs" "e \<in> set (ptrie_events (childs ! i))"
      using len by (metis in_set_conv_nth)
    then show "\<exists>r. (\<forall>c \<in> set r. in_range c) \<and> event_at ?t r = Some e"
    proof cases
      case 1
      then show ?thesis by (intro exI [of _ "[]"]) (simp add: event_at_def)
    next
      case (2 i)
      with child [of i] obtain r where "\<forall>c \<in> set r. in_range c" "event_at ?t (child_char i # r) = Some e" by blast
      with child_char(1) [of i] 2 show ?thesis by (intro exI [of _ "child_char i # r"]) simp
    qed
  next
    assume "\<exists>r. (\<forall>c \<in> set r. in_range c) \<and> event_at ?t r = Some e"
    then obtain r where r: "\<forall>c \<in> set r. in_range c" "event_at ?t r = Some e" by blast
    show "e \<in> set (ptrie_events (Some ?t))"
    proof (cases r)
      case Nil
      with r(2) show ?thesis by (simp add: event_at_def)
    next
      case (Cons c cs)
      then have i: "child_index c < n_childs" using r(1) by (simp add: in_range_index)
      then have "child_char (child_index c) = c" using child_index_inj child_char [OF i] r(1) Cons by auto
      with r Cons child [OF i] have "e \<in> set (ptrie_events (childs ! child_index c))" by auto
      then show ?thesis using i len by (auto intro!: bexI [of _ "childs ! child_index c"])
    qed
  qed
  ultimately show ?case by blast
qed

definition wipe :: "string set \<Rightarrow> world \<Rightarrow> world" where
  "wipe P w = w\<lparr>w_ev_subs := (\<lambda>k. if fst k \<in> P then None else w_ev_subs w k)\<rparr>"

lemma wipe_wipe: "wipe P (wipe Q w) = wipe (Q \<union> P) w"
proof -
  have "(\<lambda>k. if fst k \<in> P then None else if fst k \<in> Q then None else w_ev_subs w k) =
    (\<lambda>k. if fst k \<in> Q \<union> P then None else w_ev_subs w k)" by (rule ext) simp
  then show ?thesis by (simp add: wipe_def cong: if_cong)
qed

lemma wipe_none: "wipe {} w = w"
  by (simp add: wipe_def)

lemma clear_one:
  "ev_path e \<notin> set (s_freed s) \<Longrightarrow>
   event_clear e s = \<lparr>s_world = wipe {ev_path e} (s_world s), s_freed = s_freed s @ [ev_path e], s_nodes = s_nodes s\<rparr>"
  by (cases s) (simp add: event_clear_def wipe_def cong: if_cong)

lemma clear_all:
  "distinct (map ev_path es) \<Longrightarrow> ev_path ` set es \<inter> set (s_freed s) = {} \<Longrightarrow>
   fold event_clear es s =
     \<lparr>s_world = wipe (ev_path ` set es) (s_world s), s_freed = s_freed s @ map ev_path es, s_nodes = s_nodes s\<rparr>"
proof (induction es arbitrary: s)
  case (Cons e es)
  have n: "ev_path e \<notin> set (s_freed s)" using Cons.prems(2) by simp
  have "ev_path ` set es \<inter> set (s_freed (event_clear e s)) = {}" using Cons.prems by (auto simp: clear_one [OF n])
  from Cons.IH [OF _ this] Cons.prems(1) show ?case by (simp add: clear_one [OF n] wipe_wipe)
qed (simp add: wipe_none)

text \<open>The registry is what applications and the server registered.\<close>

definition registered :: "world \<Rightarrow> string set" where
  "registered w = {ev_path e | e. \<exists>r. (\<forall>c \<in> set r. in_range c) \<and> event_at (w_events w) r = Some e}"

lemma registeredI: "event_at (w_events w) r = Some e \<Longrightarrow> \<forall>c \<in> set r. in_range c \<Longrightarrow> ev_path e \<in> registered w"
  unfolding registered_def by blast

lemma events_free_spec:
  assumes "w_events (s_world s) = w_events (register regs init_world)" "s_freed s = []"
  shows "\<exists>order n. distinct order \<and> set order = registered (s_world s) \<and>
    events_free s = \<lparr>s_world = (wipe (registered (s_world s)) (s_world s))\<lparr>w_events := empty_trie\<rparr>, s_freed = order, s_nodes = n\<rparr>"
proof -
  let ?t = "w_events (s_world s)" let ?es = "ptrie_events (Some ?t)"
  note ty = typed_eventsD [OF register_typed [of regs], folded assms(1)]
  have "ev_path e = ''/'' @ r" if "\<forall>c \<in> set r. in_range c" "event_at ?t r = Some e" for r e
    using ty(2) [OF that] by (auto simp: registers_def list_ex_iff event_init_def)
  from ptrie_events_paths [OF ty(1) this]
  have d: "distinct (map ev_path ?es)" "ev_path ` set ?es = registered (s_world s)"
    by (auto simp: registered_def)
  obtain n where n: "ptrie_free True (Some ?t) s = (fold event_clear ?es s)\<lparr>s_nodes := n\<rparr>"
    using ptrie_free_clears [of True "Some ?t" s] by blast
  have "events_free s = \<lparr>s_world = (wipe (registered (s_world s)) (s_world s))\<lparr>w_events := empty_trie\<rparr>,
      s_freed = map ev_path ?es, s_nodes = n\<rparr>"
    using clear_all [OF d(1), of s] assms(2) d(2) unfolding events_free_def n by (simp add: Let_def del: ptrie_events.simps)
  with d show ?thesis by (intro exI [of _ "map ev_path ?es"] exI [of _ n]) simp
qed

section \<open>The queue\<close>

lemma unref_live:
  assumes "subs_inv (\<lambda>_. 0) (s_world s)" "w_broadcasts (s_world s) = bs" "s_freed s = []"
  shows "subs_inv (\<lambda>_. 0) (s_world (broadcasts_unref bs s)) \<and> w_broadcasts (s_world (broadcasts_unref bs s)) = [] \<and>
    s_freed (broadcasts_unref bs s) = [] \<and> w_clients (s_world (broadcasts_unref bs s)) = w_clients (s_world s) \<and>
    w_events (s_world (broadcasts_unref bs s)) = w_events (s_world s)"
  using assms
proof (induction bs arbitrary: s)
  case (Cons b bs)
  let ?w = "(s_world s)\<lparr>w_broadcasts := bs\<rparr>" let ?s = "s\<lparr>s_world := ?w\<rparr>"
  let ?L = "(\<lambda>_. 0)(fst b := Suc 0)"
  have i: "subs_inv ?L ?w" using pop_inv [of "\<lambda>_. 0" "s_world s" "fst b" "snd b" bs] Cons.prems by simp
  have "\<not> uses_event (fst b) ?s" using Cons.prems(3) by (auto simp: uses_event_def split: option.split)
  then have f: "broadcast_free b ?s = s\<lparr>s_world := sub_unref (fst b) ?w\<rparr>" by (simp add: broadcast_free_def)
  have "subs_inv (?L(fst b := ?L (fst b) - 1)) (sub_unref (fst b) ?w)" by (rule sub_unref_inv [OF i]) simp
  moreover have "?L(fst b := ?L (fst b) - 1) = (\<lambda>_. 0)" by (simp add: fun_eq_iff)
  ultimately have "subs_inv (\<lambda>_. 0) (sub_unref (fst b) ?w)" by simp
  with Cons.IH [of "broadcast_free b ?s"] Cons.prems show ?case by (simp add: f frame_simps)
qed simp

lemma fault_stays: "w_fault (s_world s) \<Longrightarrow> w_fault (s_world (broadcasts_unref bs s))"
proof (induction bs arbitrary: s)
  case (Cons b bs)
  have "w_fault (sub_unref sub w)" if "w_fault w" for sub w
    using that by (simp add: sub_unref_def set_sub_def Let_def split: option.split)
  with Cons show ?case by (simp add: broadcast_free_def)
qed simp

text \<open>With the events gone, somebody gives back the last reference.\<close>

lemma unref_dead:
  "bs \<noteq> [] \<Longrightarrow> (\<And>b. b \<in> set bs \<Longrightarrow> \<exists>m. w_sub_heap (s_world s) (fst b) = Some m \<and> ev_path (sub_ev m) \<in> set (s_freed s) \<and>
     unat (sub_refs m) = length (filter (\<lambda>x. fst x = fst b) bs)) \<Longrightarrow>
   w_fault (s_world (broadcasts_unref bs s))"
proof (induction bs arbitrary: s)
  case (Cons b bs)
  let ?w = "(s_world s)\<lparr>w_broadcasts := bs\<rparr>" let ?s = "s\<lparr>s_world := ?w\<rparr>"
  from Cons.prems(2) [of b] obtain m where m: "w_sub_heap (s_world s) (fst b) = Some m" "ev_path (sub_ev m) \<in> set (s_freed s)"
    "unat (sub_refs m) = Suc (length (filter (\<lambda>x. fst x = fst b) bs))" by auto
  show ?case
  proof (cases "sub_refs m - 1 = 0")
    case True
    then have "uses_event (fst b) ?s" using m by (simp add: uses_event_def)
    then show ?thesis using fault_stays [of "broadcast_free b ?s" bs] by (simp add: broadcast_free_def)
  next
    case False
    then have f: "broadcast_free b ?s = s\<lparr>s_world := set_sub (fst b) (m\<lparr>sub_refs := sub_refs m - 1\<rparr>) ?w\<rparr>"
      using m by (simp add: broadcast_free_def uses_event_def sub_unref_def)
    have u: "unat (sub_refs m - 1) = length (filter (\<lambda>x. fst x = fst b) bs)"
      using m(3) by (metis False diff_Suc_1 eq_iff_diff_eq_0 unat_minus_one unsigned_0 nat.distinct(1))
    have "bs \<noteq> []" using u False by (auto simp: unat_eq_0)
    moreover have "\<exists>m'. w_sub_heap (s_world (broadcast_free b ?s)) (fst x) = Some m' \<and>
        ev_path (sub_ev m') \<in> set (s_freed (broadcast_free b ?s)) \<and> unat (sub_refs m') = length (filter (\<lambda>y. fst y = fst x) bs)"
      if "x \<in> set bs" for x
      using Cons.prems(2) [of x] that m u by (cases "fst x = fst b") (auto simp: f set_sub_def)
    ultimately show ?thesis using Cons.IH [of "broadcast_free b ?s"] by simp
  qed
qed simp

section \<open>Properties\<close>

lemma no_holders:
  assumes "\<And>c. c_subs (w_clients w c) = None"
  shows "held w sub = bcast_refs w sub"
  by (simp add: held_def client_holds_def client_subs_def assms)

lemma nothing_left:
  assumes "subs_inv (\<lambda>_. 0) w" "\<And>c. c_subs (w_clients w c) = None" "w_broadcasts w = []"
  shows "w_sub_heap w = (\<lambda>_. None)" "w_ev_subs w = (\<lambda>_. None)"
proof -
  note d = subs_wfD [OF subs_invD(1) [OF assms(1)]]
  have "held w sub = 0" for sub by (simp add: no_holders [OF assms(2)] bcast_refs_def assms(3))
  then have "w_sub_heap w sub = None" for sub
    using d(2) [of sub] by (cases "w_sub_heap w sub") (auto simp: sub_ok_def unat_eq_0)
  then show h: "w_sub_heap w = (\<lambda>_. None)" by (simp add: fun_eq_iff)
  show "w_ev_subs w = (\<lambda>_. None)"
  proof
    fix k show "w_ev_subs w k = None" using d(1) [of k] h by (cases "w_ev_subs w k") auto
  qed
qed

text \<open>
  C34. The shutdown, in the order of the registrations: when all clients are closed, freeing the queue of broadcasts and then
  the events leaves nothing behind and uses nothing freed. Every subscription is freed, every registered event is cleared
  exactly once, and the registry is empty.
\<close>

theorem shutdown_clean:
  assumes "subs_inv (\<lambda>_. 0) w" "\<And>c. c_subs (w_clients w c) = None" "w_events w = w_events (register regs init_world)"
    and "s = fold run_cleanup evs_cleanups (closing_start w)"
  shows "\<not> w_fault (s_world s) \<and> w_broadcasts (s_world s) = [] \<and> w_sub_heap (s_world s) = (\<lambda>_. None) \<and>
    w_ev_subs (s_world s) = (\<lambda>_. None) \<and> w_events (s_world s) = empty_trie \<and>
    distinct (s_freed s) \<and> set (s_freed s) = registered w"
proof -
  let ?s = "broadcasts_unref (w_broadcasts w) (closing_start w)"
  have u: "subs_inv (\<lambda>_. 0) (s_world ?s)" "w_broadcasts (s_world ?s) = []" "s_freed ?s = []"
    "w_clients (s_world ?s) = w_clients w" "w_events (s_world ?s) = w_events w"
    using unref_live [of "closing_start w" "w_broadcasts w"] assms(1) by (simp_all add: closing_start_def)
  have l: "w_sub_heap (s_world ?s) = (\<lambda>_. None)" "w_ev_subs (s_world ?s) = (\<lambda>_. None)"
    using nothing_left [OF u(1) _ u(2)] assms(2) u(4) by simp_all
  have "registered (s_world ?s) = registered w" by (simp add: registered_def u(5))
  with events_free_spec [of ?s regs] assms(3) u obtain order n where o: "distinct order" "set order = registered w"
    "events_free ?s = \<lparr>s_world = (wipe (registered w) (s_world ?s))\<lparr>w_events := empty_trie\<rparr>, s_freed = order, s_nodes = n\<rparr>"
    by auto
  have "s = events_free ?s" using assms(4) by (simp add: evs_cleanups_def closing_start_def)
  with o u l subs_wfD(6) [OF subs_invD(1) [OF u(1)]] show ?thesis by (simp add: wipe_def cong: if_cong)
qed

text \<open>
  C35. In the reverse order, in which the events go before the queue that was registered before them, memory is used after it
  was freed, exactly if a broadcast is still queued: its subscription is given back to an event that is gone.
\<close>

theorem shutdown_reversed:
  assumes "subs_inv (\<lambda>_. 0) w" "\<And>c. c_subs (w_clients w c) = None" "w_events w = w_events (register regs init_world)"
    and "\<And>sub m. w_sub_heap w sub = Some m \<Longrightarrow> ev_path (sub_ev m) \<in> registered w"
  shows "w_fault (s_world (fold run_cleanup (rev evs_cleanups) (closing_start w))) \<longleftrightarrow> w_broadcasts w \<noteq> []"
proof -
  note d = subs_wfD [OF subs_invD(1) [OF assms(1)]]
  from events_free_spec [of "closing_start w" regs] assms(3) obtain order n where o: "set order = registered w"
    "events_free (closing_start w) = \<lparr>s_world = (wipe (registered w) w)\<lparr>w_events := empty_trie\<rparr>, s_freed = order, s_nodes = n\<rparr>"
    by (auto simp: closing_start_def)
  let ?s = "events_free (closing_start w)"
  have e: "fold run_cleanup (rev evs_cleanups) (closing_start w) = broadcasts_unref (w_broadcasts w) ?s"
    by (simp add: evs_cleanups_def o(2) wipe_def)
  have f: "w_sub_heap (s_world ?s) = w_sub_heap w" "w_fault (s_world ?s) = w_fault w" "set (s_freed ?s) = registered w"
    by (simp_all add: o wipe_def)
  show ?thesis
  proof (cases "w_broadcasts w = []")
    case True
    then show ?thesis using d(6) f by (simp add: e)
  next
    case False
    have "\<exists>m. w_sub_heap (s_world ?s) (fst b) = Some m \<and> ev_path (sub_ev m) \<in> set (s_freed ?s) \<and>
        unat (sub_refs m) = length (filter (\<lambda>x. fst x = fst b) (w_broadcasts w))" if "b \<in> set (w_broadcasts w)" for b
    proof -
      have "bcast_refs w (fst b) \<noteq> 0" using that by (auto simp: bcast_refs_def filter_empty_conv)
      then obtain m where m: "w_sub_heap w (fst b) = Some m"
        using d(3) [of "fst b"] no_holders [OF assms(2)] by (cases "w_sub_heap w (fst b)") auto
      with d(2) [OF m] no_holders [OF assms(2)] assms(4) [OF m] show ?thesis by (simp add: f sub_ok_def bcast_refs_def)
    qed
    from unref_dead [OF False this] False show ?thesis by (simp add: e)
  qed
qed

text \<open>One event, one subscription, and one broadcast of it in the queue.\<close>

definition sample_queued :: world where
  "sample_queued =
     (snd (sub_get (event_init ''/e'' None None None True) None True
       (register [(None, Some ''/e'', None, None, None, True)] init_world)))\<lparr>w_broadcasts := [(0, ''null'')]\<rparr>"

lemma sample_queued:
  "subs_inv (\<lambda>_. 0) sample_queued" "c_subs (w_clients sample_queued c) = None"
  "w_events sample_queued = w_events (register [(None, Some ''/e'', None, None, None, True)] init_world)"
  "w_sub_heap sample_queued sub = Some m \<Longrightarrow> ev_path (sub_ev m) \<in> registered sample_queued"
  "w_broadcasts sample_queued \<noteq> []"
proof -
  let ?regs = "[(None, Some ''/e'', None, None, None, True)]" let ?e = "event_init ''/e'' None None None True"
  let ?w = "register ?regs init_world" let ?v = "snd (sub_get ?e None True ?w)"
  have "evs_make_path None (Some ''/e'') None = ''/e''" by code_simp
  note m = this
  have sk: "skip_slash ''/e'' = ''e''" by (simp add: skip_slash_def)
  have g: "good_key ''e''" by (simp add: good_key_def in_range_def)
  have "registry init_world []" using trie.inv_emp by (simp add: registry_def init_world_def trie.stored_emp)
  from registry_add [OF this m, unfolded sk, OF g, of None None None True]
  have "registry ?w [(''e'', ?e)]" by (simp add: register_def)
  then have at: "event_at (w_events ?w) ''e'' = Some ?e" using g by (simp add: registry_def)
  have wf: "wf_trie (w_events init_world)" using trie.inv_emp by (simp add: init_world_def empty_trie_def)
  obtain t where w: "?w = init_world\<lparr>w_events := t\<rparr>"
    by (rule add_handler_events [OF wf, of None "Some ''/e''" None None None True]) (simp add: register_def)
  have "subs_view ?w = subs_view init_world" by (simp add: w subs_view_def)
  from subs_view_wf [OF this] have "subs_wf (\<lambda>_. 0) ?w" using subs_invD(1) [OF subs_inv_init] by simp
  moreover have "lists_ok ?w = lists_ok init_world" "clients_ok ?w = clients_ok init_world"
    unfolding w by (simp_all add: lists_ok_def clients_ok_def csub_get_def)
  ultimately have iw: "subs_inv (\<lambda>_. 0) ?w" using subs_inv_init unfolding subs_inv_def by blast
  have r: "sub_room 1 ?w" unfolding w by (simp add: sub_room_def init_world_def)
  have q: "sub_get ?e None True ?w = (Some 0, ?v)"
    unfolding w by (simp add: sub_get_def get_if_exists_def new_sub_def init_world_def Let_def)
  have h: "w_sub_heap ?v = (\<lambda>_. None)(0 := Some (the (w_sub_heap ?v 0)))" "sub_ev (the (w_sub_heap ?v 0)) = ?e"
    unfolding w by (simp_all add: sub_get_def get_if_exists_def new_sub_def init_world_def Let_def)
  have f: "w_clients ?v = w_clients init_world" "w_events ?v = w_events ?w" "w_broadcasts ?v = []"
    by (simp_all add: frame_simps) (simp_all only: w, simp_all add: init_world_def)
  have "subs_inv ((\<lambda>_. 0)(0 := Suc 0)) ?v" using sub_get_inv [OF iw r q] by simp
  from push_inv [of "\<lambda>_. 0" 0 ?v "''null''"] this f(3)
  show "subs_inv (\<lambda>_. 0) sample_queued" by (simp add: sample_queued_def)
  show "c_subs (w_clients sample_queued c) = None" by (simp add: sample_queued_def f(1)) (simp add: init_world_def qev_client_new_def)
  show "w_events sample_queued = w_events ?w" by (simp add: sample_queued_def f(2))
  then have "event_at (w_events sample_queued) ''e'' = Some ?e" "\<forall>c \<in> set ''e''. in_range c"
    using at g by (simp_all add: good_key_def)
  from registeredI [OF this] have "''/e'' \<in> registered sample_queued" by (simp add: event_init_def)
  moreover have hs: "w_sub_heap sample_queued = w_sub_heap ?v" by (simp add: sample_queued_def)
  have "ev_path (sub_ev m) = ''/e''" if "w_sub_heap ?v sub = Some m"
  proof -
    have "sub = 0" using that fun_cong [OF h(1), of sub] by (cases "sub = 0") simp_all
    then have "m = the (w_sub_heap ?v 0)" using that by simp
    with h(2) show ?thesis by (simp add: event_init_def)
  qed
  ultimately show "ev_path (sub_ev m) \<in> registered sample_queued" if "w_sub_heap sample_queued sub = Some m"
    using that unfolding hs by simp
  show "w_broadcasts sample_queued \<noteq> []" by (simp add: sample_queued_def)
qed

lemma shutdown_clean_witness:
  "\<not> w_fault (s_world (fold run_cleanup evs_cleanups (closing_start sample_queued))) \<and>
   w_sub_heap (s_world (fold run_cleanup evs_cleanups (closing_start sample_queued))) = (\<lambda>_. None)"
  using shutdown_clean [OF sample_queued(1-3) refl] by blast

lemma shutdown_reversed_witness:
  "w_fault (s_world (fold run_cleanup (rev evs_cleanups) (closing_start sample_queued)))"
  by (rule iffD2 [OF shutdown_reversed [OF sample_queued(1-3)]]) (rule sample_queued, assumption, rule sample_queued)

end
