(* ===== verification/Poll_Threads.thy ===== *)
theory Poll_Threads
  imports Sub_Refs
begin

text \<open>
  Long polling under concurrency (\<open>src/protocols_http.c\<close>). One surrogate, the connections that poll it, and any
  number of threads: some read requests, some send events to the surrogate, some run heartbeats, one closes the
  surrogate. A step is one critical section on a connection, one access without a lock, or taking or
  releasing the lock of the surrogate, which is held over several steps and which its holder may take again.
  The lock of a connection is only held inside one step. Heartbeats and close callbacks may run while a connection is read
  and while something is sent to it: \<open>_send_response\<close> is written for that (it ``might fail if another thread already sent
  a response''), and \<open>protocol_http_route\<close> runs without the lock of the connection.
\<close>

section \<open>The program\<close>

type_synonym ptid = nat

text \<open>What a thread does after \<open>_send_response\<close> on a connection: where the call stands in the code.\<close>

datatype kont =
    K_done  \<comment> \<open>heartbeat, and refusals of \<open>_do_body\<close> and \<open>_surr_route\<close>\<close>
  | K_unref  \<comment> \<open>\<open>protocol_http_close\<close>\<close>
  | K_ask  \<comment> \<open>\<open>protocol_http_route\<close>, before it accepts the request\<close>
  | K_sent string  \<comment> \<open>\<open>protocol_http_send\<close>\<close>
  | K_old "cid option"  \<comment> \<open>\<open>_surr_replace\<close>, the new poller\<close>
  | K_unlock  \<comment> \<open>\<open>_surr_replace\<close>, the old poller\<close>
  | K_replace cid "string list"  \<comment> \<open>\<open>_surr_send\<close>, the waiting poller\<close>
  | K_assert "string list"  \<comment> \<open>\<open>_surr_send\<close>, the new poller\<close>

datatype ppc =
    Q_idle
  | Q_respond cid "string list" kont
  | Q_release cid bool kont
  | Q_return cid bool kont
  | Q_touch cid
  | Q_ask cid
  | Q_link cid
  | Q_body cid
  | Q_incoming cid
  | Q_handle cid
  | Q_route cid
  | Q_flush cid
  | Q_replace cid
  | Q_old "cid option"
  | Q_steal cid "string list"
  | Q_send string
  | Q_check string
  | Q_write string
  | Q_unlock
  | Q_beat cid
  | Q_close
  | Q_drop cid
  | Q_abort "string list"

text \<open>
  The fields of the surrogate, of each connection, and what was written. \<open>q_refs c\<close> counts the references to
  \<open>c\<close> that the surrogate and the threads took from it own. \<open>q_sent\<close> and \<open>q_requests\<close> are not in the code: the messages
  that senders came with, in the order in which they got the lock, and the requests accepted.
\<close>

record poll_state =
  q_poller :: "cid option"
  q_incoming :: bool
  q_buff :: "string list"
  q_lock :: "ptid option"
  q_closing :: bool
  q_linked :: "cid \<Rightarrow> bool"
  q_asks :: "cid \<Rightarrow> bool"
  q_await :: "cid \<Rightarrow> bool"  \<comment> \<open>\<open>body_len\<close> is set, the body has not arrived\<close>
  q_due :: "cid \<Rightarrow> bool"  \<comment> \<open>\<open>last_send < hb->poll\<close>\<close>
  q_shut :: "cid \<Rightarrow> bool"
  q_refs :: "cid \<Rightarrow> int"
  q_out :: "(cid \<times> string list) list"
  q_sent :: "string list"
  q_requests :: "cid \<Rightarrow> nat"

text \<open>\<open>_send_response\<close> up to its \<open>qev_unlock\<close>; then \<open>_surr_release_client\<close>.\<close>

definition q_respond :: "cid \<Rightarrow> string list \<Rightarrow> poll_state \<Rightarrow> poll_state" where
  "q_respond c ms h =
     (if q_asks h c
      then h\<lparr>q_linked := (q_linked h)(c := False), q_asks := (q_asks h)(c := False), q_due := (q_due h)(c := False),
             q_out := q_out h @ [(c, ms)]\<rparr>
      else h\<lparr>q_linked := (q_linked h)(c := False)\<rparr>)"

definition q_unref :: "cid \<Rightarrow> poll_state \<Rightarrow> poll_state" where
  "q_unref c h = h\<lparr>q_refs := (q_refs h)(c := q_refs h c - 1)\<rparr>"

definition q_release :: "cid \<Rightarrow> poll_state \<Rightarrow> poll_state" where
  "q_release c h = (if q_poller h = Some c then q_unref c (h\<lparr>q_poller := None\<rparr>) else h)"

text \<open>The lock of the surrogate.\<close>

definition free_for :: "ptid \<Rightarrow> poll_state \<Rightarrow> bool" where
  "free_for i h \<longleftrightarrow> q_lock h = None \<or> q_lock h = Some i"

fun return_step :: "cid \<Rightarrow> bool \<Rightarrow> kont \<Rightarrow> poll_state \<Rightarrow> ppc \<times> poll_state" where
  "return_step c sent K_done h = (Q_idle, h)"
| "return_step c sent K_unref h = (Q_idle, q_unref c h)"
| "return_step c sent K_ask h = (Q_ask c, h)"
| "return_step c sent (K_sent m) h = (if sent then Q_unlock else Q_write m, q_unref c h)"
| "return_step c sent (K_old old) h = (Q_old old, h)"
| "return_step c sent K_unlock h = (Q_unlock, q_unref c h)"
| "return_step c sent (K_replace d ms) h = (if sent then Q_replace d else Q_respond d ms (K_assert ms), q_unref c h)"
| "return_step c sent (K_assert ms) h = (if sent then Q_unlock else Q_abort ms, h)"

text \<open>
  The critical sections of the functions, each with the point of the program it leads to: \<open>_do_headers_http\<close> stores the surrogate;
  \<open>_do_body\<close> reads it without a lock; \<open>_surr_route\<close> empties the buffer; \<open>_surr_replace\<close> and \<open>_surr_send\<close>; \<open>protocol_http_send\<close>,
  the heartbeat, and the two halves of \<open>protocol_http_close\<close>.
\<close>

definition q_headers :: "bool \<Rightarrow> cid \<Rightarrow> poll_state \<Rightarrow> ppc \<times> poll_state" where [simp]:
  "q_headers ok c h =
     (if ok then Q_body c else Q_idle,
      h\<lparr>q_linked := (q_linked h)(c := (q_linked h c \<or> \<not> q_closing h \<and> \<not> q_shut h c)),
        q_await := (q_await h)(c := \<not> ok)\<rparr>)"

definition q_do_body :: "cid \<Rightarrow> poll_state \<Rightarrow> ppc \<times> poll_state" where [simp]:
  "q_do_body c h =
     (if q_linked h c then Q_incoming c else Q_respond c [] K_done, h\<lparr>q_await := (q_await h)(c := False)\<rparr>)"

definition q_surr_flush :: "cid \<Rightarrow> poll_state \<Rightarrow> ppc \<times> poll_state" where [simp]:
  "q_surr_flush c h =
     (if q_buff h = [] then Q_replace c else Q_steal c (q_buff h), h\<lparr>q_incoming := False, q_buff := []\<rparr>)"

definition q_surr_replace :: "cid \<Rightarrow> poll_state \<Rightarrow> ppc \<times> poll_state" where [simp]:
  "q_surr_replace c h =
     (if q_closing h \<or> q_shut h c
      then (Q_respond c [] (K_old (q_poller h)), h\<lparr>q_poller := None\<rparr>)
      else (Q_old (q_poller h), h\<lparr>q_poller := Some c, q_refs := (q_refs h)(c := q_refs h c + 1)\<rparr>))"

definition q_surr_send :: "cid \<Rightarrow> string list \<Rightarrow> poll_state \<Rightarrow> ppc \<times> poll_state" where [simp]:
  "q_surr_send c ms h =
     (case q_poller h of None \<Rightarrow> Q_respond c ms (K_assert ms) | Some p \<Rightarrow> Q_respond p ms (K_replace c ms),
      h\<lparr>q_poller := None\<rparr>)"

definition q_http_send :: "string \<Rightarrow> poll_state \<Rightarrow> ppc \<times> poll_state" where [simp]:
  "q_http_send m h =
     (if q_incoming h then (Q_write m, h)
      else (case q_poller h of None \<Rightarrow> Q_write m | Some p \<Rightarrow> Q_respond p [m] (K_sent m), h\<lparr>q_poller := None\<rparr>))"

definition q_heartbeat :: "cid \<Rightarrow> poll_state \<Rightarrow> ppc \<times> poll_state" where [simp]:
  "q_heartbeat c h = (if q_linked h c \<and> q_due h c then Q_respond c [] K_done else Q_idle, h)"

definition q_close_surrogate :: "poll_state \<Rightarrow> ppc \<times> poll_state" where [simp]:
  "q_close_surrogate h =
     (case q_poller h of None \<Rightarrow> Q_idle | Some p \<Rightarrow> Q_respond p [] K_unref, h\<lparr>q_poller := None\<rparr>)"

definition q_close_client :: "bool \<Rightarrow> cid \<Rightarrow> poll_state \<Rightarrow> ppc \<times> poll_state" where [simp]:
  "q_close_client ok c h =
     (if ok then Q_respond c [] K_done else Q_idle, h\<lparr>q_linked := (q_linked h)(c := False)\<rparr>)"

text \<open>
  One step of thread \<open>i\<close>. The flag \<open>ok\<close> is what the bytes that arrived decide: whether a head or a body is complete,
  whether the messages of the body are well-formed, and whether a connection is closed for a reason that is answered.
  The requests are those that name the surrogate. What the messages of a body make the server send to the surrogate is
  sent by \<open>Q_send\<close> steps, like everything else that is sent to it.
\<close>

fun poll_step :: "ptid \<Rightarrow> bool \<Rightarrow> ppc \<Rightarrow> poll_state \<Rightarrow> (ppc \<times> poll_state) option" where
  "poll_step i ok (Q_respond c ms k) h =
     Some (if q_linked h c then Q_release c (q_asks h c) k else Q_return c (q_asks h c) k, q_respond c ms h)"
| "poll_step i ok (Q_release c sent k) h =
     (if free_for i h then Some (Q_return c sent k, q_release c h) else None)"
| "poll_step i ok (Q_return c sent k) h = Some (return_step c sent k h)"
| "poll_step i ok (Q_touch c) h =
     Some (if \<not> ok then Q_idle else if q_await h c then Q_body c else Q_respond c [] K_ask,
       h\<lparr>q_due := (q_due h)(c := False)\<rparr>)"
| "poll_step i ok (Q_ask c) h =
     Some (Q_link c, h\<lparr>q_asks := (q_asks h)(c := True), q_requests := (q_requests h)(c := Suc (q_requests h c))\<rparr>)"
| "poll_step i ok (Q_link c) h =
     (if free_for i h then Some (q_headers ok c h) else None)"
| "poll_step i ok (Q_body c) h = Some (q_do_body c h)"
| "poll_step i ok (Q_incoming c) h = Some (Q_handle c, h\<lparr>q_incoming := True\<rparr>)"
| "poll_step i ok (Q_handle c) h = Some (if ok then Q_route c else Q_respond c [] K_done, h)"
| "poll_step i ok (Q_route c) h = (if q_lock h = None then Some (Q_flush c, h\<lparr>q_lock := Some i\<rparr>) else None)"
| "poll_step i ok (Q_flush c) h = Some (q_surr_flush c h)"
| "poll_step i ok (Q_replace c) h = Some (q_surr_replace c h)"
| "poll_step i ok (Q_old old) h =
     Some (case old of None \<Rightarrow> Q_unlock | Some p \<Rightarrow> Q_respond p [] K_unlock, h)"
| "poll_step i ok (Q_steal c ms) h = Some (q_surr_send c ms h)"
| "poll_step i ok (Q_send m) h =
     (if q_lock h = None then Some (Q_check m, h\<lparr>q_lock := Some i, q_sent := q_sent h @ [m]\<rparr>) else None)"
| "poll_step i ok (Q_check m) h = Some (q_http_send m h)"
| "poll_step i ok (Q_write m) h = Some (Q_unlock, h\<lparr>q_buff := q_buff h @ [m]\<rparr>)"
| "poll_step i ok Q_unlock h = Some (Q_idle, h\<lparr>q_lock := None\<rparr>)"
| "poll_step i ok (Q_beat c) h = Some (q_heartbeat c h)"
| "poll_step i ok Q_close h =
     (if free_for i h then Some (q_close_surrogate h) else None)"
| "poll_step i ok (Q_drop c) h = Some (q_close_client ok c h)"
| "poll_step i ok Q_idle h = None"
| "poll_step i ok (Q_abort ms) h = None"

section \<open>The threads\<close>

text \<open>
  \<open>q_job i\<close> is the connection thread \<open>i\<close> reads, \<open>q_reader c\<close> the last thread that read \<open>c\<close>: quick-event lets one thread at
  a time read a connection.
\<close>

record polling =
  q_shared :: poll_state
  q_pcs :: "ptid \<Rightarrow> ppc"
  q_job :: "ptid \<Rightarrow> cid option"
  q_reader :: "cid \<Rightarrow> ptid option"

definition q_start :: polling where
  "q_start =
     \<lparr>q_shared = \<lparr>q_poller = None, q_incoming = False, q_buff = [], q_lock = None, q_closing = False,
        q_linked = (\<lambda>_. False), q_asks = (\<lambda>_. False), q_await = (\<lambda>_. False), q_due = (\<lambda>_. False), q_shut = (\<lambda>_. False),
        q_refs = (\<lambda>_. 0), q_out = [], q_sent = [], q_requests = (\<lambda>_. 0)\<rparr>,
      q_pcs = (\<lambda>_. Q_idle), q_job = (\<lambda>_. None), q_reader = (\<lambda>_. None)\<rparr>"

definition q_read :: "cid \<Rightarrow> polling \<Rightarrow> bool" where
  "q_read c s = (case q_reader s c of None \<Rightarrow> False | Some j \<Rightarrow> q_pcs s j \<noteq> Q_idle \<and> q_job s j = Some c)"

definition q_begin :: "ptid \<Rightarrow> ppc \<Rightarrow> cid option \<Rightarrow> polling \<Rightarrow> polling option" where
  "q_begin i p job s =
     (if q_pcs s i = Q_idle then Some (s\<lparr>q_pcs := (q_pcs s)(i := p), q_job := (q_job s)(i := job)\<rparr>) else None)"

text \<open>
  What can happen next: an idle thread begins to read, to send, to run a heartbeat or a close callback; a thread makes
  a step; time passes for a connection; a connection or the surrogate starts to close.
\<close>

datatype poll_act =
    P_read ptid cid
  | P_send ptid string
  | P_beat ptid cid
  | P_drop ptid cid
  | P_close ptid
  | P_run ptid bool
  | P_age cid
  | P_shut cid
  | P_closing

fun poll_do :: "poll_act \<Rightarrow> polling \<Rightarrow> polling option" where
  "poll_do (P_read i c) s =
     (if q_read c s then None else q_begin i (Q_touch c) (Some c) (s\<lparr>q_reader := (q_reader s)(c := Some i)\<rparr>))"
| "poll_do (P_send i m) s = q_begin i (Q_send m) None s"
| "poll_do (P_beat i c) s = q_begin i (Q_beat c) None s"
| "poll_do (P_drop i c) s = (if q_shut (q_shared s) c then q_begin i (Q_drop c) None s else None)"
| "poll_do (P_close i) s = (if q_closing (q_shared s) then q_begin i Q_close None s else None)"
| "poll_do (P_run i ok) s =
     (case poll_step i ok (q_pcs s i) (q_shared s) of
        None \<Rightarrow> None
      | Some (p, h) \<Rightarrow> Some (s\<lparr>q_shared := h, q_pcs := (q_pcs s)(i := p)\<rparr>))"
| "poll_do (P_age c) s = Some (s\<lparr>q_shared := (q_shared s)\<lparr>q_due := (q_due (q_shared s))(c := True)\<rparr>\<rparr>)"
| "poll_do (P_shut c) s = Some (s\<lparr>q_shared := (q_shared s)\<lparr>q_shut := (q_shut (q_shared s))(c := True)\<rparr>\<rparr>)"
| "poll_do P_closing s = Some (s\<lparr>q_shared := (q_shared s)\<lparr>q_closing := True\<rparr>\<rparr>)"

inductive polled :: "polling \<Rightarrow> bool" where
  start: "polled q_start"
| act: "polled s \<Longrightarrow> poll_do a s = Some s' \<Longrightarrow> polled s'"

fun poll_run :: "poll_act list \<Rightarrow> polling \<Rightarrow> polling option" where
  "poll_run [] s = Some s"
| "poll_run (a # acts) s = (case poll_do a s of None \<Rightarrow> None | Some s' \<Rightarrow> poll_run acts s')"

lemma polled_run: "poll_run acts s = Some t \<Longrightarrow> polled s \<Longrightarrow> polled t"
  by (induction acts s rule: poll_run.induct) (auto split: option.splits intro: polled.act)

section \<open>The lock and what its holder has in hand\<close>

text \<open>Where a call of \<open>_send_response\<close> is made with the lock held, and which messages it carries.\<close>

fun kont_holds :: "kont \<Rightarrow> bool" where
  "kont_holds (K_sent m) = True"
| "kont_holds (K_old old) = True"
| "kont_holds K_unlock = True"
| "kont_holds (K_replace c ms) = True"
| "kont_holds (K_assert ms) = True"
| "kont_holds k = False"

fun kont_msgs :: "kont \<Rightarrow> string list" where
  "kont_msgs (K_sent m) = [m]"
| "kont_msgs (K_replace c ms) = ms"
| "kont_msgs (K_assert ms) = ms"
| "kont_msgs k = []"

fun q_holds :: "ppc \<Rightarrow> bool" where
  "q_holds (Q_respond c ms k) = kont_holds k"
| "q_holds (Q_release c sent k) = kont_holds k"
| "q_holds (Q_return c sent k) = kont_holds k"
| "q_holds (Q_flush c) = True"
| "q_holds (Q_replace c) = True"
| "q_holds (Q_old old) = True"
| "q_holds (Q_steal c ms) = True"
| "q_holds (Q_check m) = True"
| "q_holds (Q_write m) = True"
| "q_holds Q_unlock = True"
| "q_holds (Q_abort ms) = True"
| "q_holds p = False"

fun q_hand :: "ppc \<Rightarrow> string list" where
  "q_hand (Q_respond c ms k) = kont_msgs k"
| "q_hand (Q_release c sent k) = (if sent then [] else kont_msgs k)"
| "q_hand (Q_return c sent k) = (if sent then [] else kont_msgs k)"
| "q_hand (Q_steal c ms) = ms"
| "q_hand (Q_check m) = [m]"
| "q_hand (Q_write m) = [m]"
| "q_hand (Q_abort ms) = ms"
| "q_hand p = []"

text \<open>What the holder relies on: nobody else touches the buffer and the poller.\<close>

fun kont_relies :: "kont \<Rightarrow> poll_state \<Rightarrow> bool" where
  "kont_relies (K_sent m) h \<longleftrightarrow> q_buff h = [] \<and> q_poller h = None"
| "kont_relies (K_replace c ms) h \<longleftrightarrow> q_buff h = []"
| "kont_relies (K_assert ms) h \<longleftrightarrow> q_buff h = []"
| "kont_relies k h \<longleftrightarrow> True"

fun q_relies :: "ppc \<Rightarrow> poll_state \<Rightarrow> bool" where
  "q_relies (Q_respond c ms k) h \<longleftrightarrow> ms = kont_msgs k \<and> kont_relies k h"
| "q_relies (Q_release c sent k) h \<longleftrightarrow> kont_relies k h"
| "q_relies (Q_return c sent k) h \<longleftrightarrow> kont_relies k h"
| "q_relies (Q_replace c) h \<longleftrightarrow> q_buff h = []"
| "q_relies (Q_steal c ms) h \<longleftrightarrow> q_buff h = []"
| "q_relies (Q_write m) h \<longleftrightarrow> q_incoming h \<or> q_poller h = None"
| "q_relies (Q_abort ms) h \<longleftrightarrow> q_buff h = []"
| "q_relies p h \<longleftrightarrow> True"

definition q_delivered :: "poll_state \<Rightarrow> string list" where
  "q_delivered h = concat (map snd (q_out h))"

text \<open>What a step of another thread leaves to the holder.\<close>

definition q_left :: "poll_state \<Rightarrow> poll_state \<Rightarrow> bool" where
  "q_left h h' \<longleftrightarrow> q_buff h' = q_buff h \<and> q_poller h' = q_poller h \<and> (q_incoming h \<longrightarrow> q_incoming h') \<and>
     q_sent h' = q_sent h \<and> q_delivered h' = q_delivered h"

lemma kont_relies_left: "kont_relies k h \<Longrightarrow> q_left h h' \<Longrightarrow> kont_relies k h'"
  by (cases k) (auto simp: q_left_def)

lemma q_relies_left: "q_relies p h \<Longrightarrow> q_left h h' \<Longrightarrow> q_relies p h'"
  by (cases p) (auto simp: q_left_def intro: kont_relies_left[unfolded q_left_def])

lemma kont_msgs_free: "\<not> kont_holds k \<Longrightarrow> kont_msgs k = []"
  by (cases k) auto

lemma q_respond_simps [simp]:
  "q_buff (q_respond c ms h) = q_buff h" "q_poller (q_respond c ms h) = q_poller h"
  "q_incoming (q_respond c ms h) = q_incoming h" "q_sent (q_respond c ms h) = q_sent h"
  "q_lock (q_respond c ms h) = q_lock h" "q_refs (q_respond c ms h) = q_refs h"
  "q_requests (q_respond c ms h) = q_requests h"
  by (auto simp: q_respond_def)

lemma q_delivered_respond [simp]:
  "q_delivered (q_respond c ms h) = q_delivered h @ (if q_asks h c then ms else [])"
  by (auto simp: q_respond_def q_delivered_def)

lemma q_unref_simps [simp]:
  "q_buff (q_unref c h) = q_buff h" "q_poller (q_unref c h) = q_poller h"
  "q_incoming (q_unref c h) = q_incoming h" "q_sent (q_unref c h) = q_sent h" "q_lock (q_unref c h) = q_lock h"
  "q_out (q_unref c h) = q_out h" "q_asks (q_unref c h) = q_asks h" "q_requests (q_unref c h) = q_requests h"
  by (auto simp: q_unref_def)

lemma q_release_simps [simp]:
  "q_buff (q_release c h) = q_buff h" "q_incoming (q_release c h) = q_incoming h"
  "q_sent (q_release c h) = q_sent h" "q_lock (q_release c h) = q_lock h"
  "q_out (q_release c h) = q_out h" "q_asks (q_release c h) = q_asks h" "q_requests (q_release c h) = q_requests h"
  by (auto simp: q_release_def)

lemma q_release_poller: "q_poller (q_release c h) = (if q_poller h = Some c then None else q_poller h)"
  by (auto simp: q_release_def)

lemma q_delivered_simps [simp]:
  "q_delivered (q_unref c h) = q_delivered h" "q_delivered (q_release c h) = q_delivered h"
  "q_delivered (q_poller_update f0 h) = q_delivered h" "q_delivered (q_incoming_update f1 h) = q_delivered h"
  "q_delivered (q_buff_update f2 h) = q_delivered h" "q_delivered (q_lock_update f3 h) = q_delivered h"
  "q_delivered (q_linked_update f4 h) = q_delivered h" "q_delivered (q_asks_update f5 h) = q_delivered h"
  "q_delivered (q_await_update f6 h) = q_delivered h" "q_delivered (q_due_update f7 h) = q_delivered h"
  "q_delivered (q_refs_update f8 h) = q_delivered h" "q_delivered (q_sent_update f9 h) = q_delivered h"
  "q_delivered (q_requests_update f10 h) = q_delivered h" "q_delivered (q_shut_update f11 h) = q_delivered h"
  "q_delivered (q_closing_update f12 h) = q_delivered h"
  by (simp_all add: q_delivered_def)

end
