(* ===== verification/Poll_Fifo.thy ===== *)
theory Poll_Fifo
  imports Poll_Threads
begin

text \<open>
  What the lock of a surrogate guarantees: it has one holder; the messages sent to the surrogate are, in order, what was
  written, what is in the buffer and what the holder has in hand; a request is answered once.
\<close>

section \<open>One step of a thread\<close>

text \<open>The state of the lock agrees with where the thread stands, before and after its step.\<close>

lemma return_step_holds:
  assumes "return_step c sent k h = (p, h')"
  shows "q_holds p = kont_holds k" "q_lock h' = q_lock h" "q_out h' = q_out h" "q_sent h' = q_sent h"
    "q_buff h' = q_buff h" "q_poller h' = q_poller h" "q_incoming h' = q_incoming h"
    "q_asks h' = q_asks h" "q_requests h' = q_requests h" "q_delivered h' = q_delivered h"
  using assms by (cases k; auto split: if_splits)+

lemma poll_step_lock:
  assumes "poll_step i ok p h = Some (p', h')" "q_lock h = Some i \<longleftrightarrow> q_holds p"
  shows "q_lock h' = (if q_holds p' then Some i else if q_holds p then None else q_lock h)"
  using assms return_step_holds(1,2)
  by (cases p) (auto simp: free_for_def split: if_splits option.splits prod.splits)

lemma poll_step_left:
  assumes "poll_step i ok p h = Some (p', h')" "q_relies p h" "q_lock h = Some j" "i \<noteq> j" "\<not> q_holds p"
  shows "q_left h h'"
  using assms return_step_holds(4-7,10)[of _ _ _ h p' h']
  by (cases p) (auto simp: free_for_def q_left_def kont_msgs_free split: if_splits option.splits)

text \<open>The holder's own step: what it relies on, and nothing sent is lost or changes its place.\<close>

definition q_waits :: "poll_state \<Rightarrow> bool" where
  "q_waits h \<longleftrightarrow> (q_buff h \<noteq> [] \<and> q_poller h \<noteq> None \<longrightarrow> q_incoming h)"

lemma poll_step_relies:
  assumes "poll_step i ok p h = Some (p', h')" "q_relies p h" "q_waits h" "q_lock h = Some i \<longleftrightarrow> q_holds p"
  shows "q_relies p' h'"
proof (cases p)
  case (Q_return c sent k)
  with assms show ?thesis by (cases k) (auto split: if_splits)
next
  case (Q_respond c ms k)
  with assms show ?thesis by (cases k) (auto split: if_splits)
next
  case (Q_release c sent k)
  with assms show ?thesis by (cases k) (auto simp: q_release_poller split: if_splits)
qed (use assms in \<open>auto simp: q_waits_def split: if_splits option.splits\<close>)

lemma poll_step_waits:
  assumes "poll_step i ok p h = Some (p', h')" "q_relies p h" "q_waits h" "q_lock h = Some i \<longleftrightarrow> q_holds p"
  shows "q_waits h'"
  using assms return_step_holds(5-7)[of _ _ _ h p' h']
  by (cases p) (auto simp: q_waits_def q_release_poller split: if_splits option.splits)

lemma return_step_hand:
  assumes "return_step c sent k h = (p, h')"
  shows "q_hand p = (if sent then [] else kont_msgs k)"
  using assms by (cases k) (auto split: if_splits)

lemma poll_step_hand:
  assumes "poll_step i ok p h = Some (p', h')" "q_relies p h" "q_waits h" "q_lock h = Some i \<longleftrightarrow> q_holds p"
    "q_sent h = q_delivered h @ q_buff h @ q_hand p"
  shows "q_sent h' = q_delivered h' @ q_buff h' @ q_hand p'"
proof (cases p)
  case (Q_return c sent k)
  with assms return_step_holds(4,5,10)[of c sent k h p' h'] return_step_hand[of c sent k h p' h'] show ?thesis
    by auto
next
  case (Q_respond c ms k)
  with assms show ?thesis by (cases k) (auto split: if_splits)
next
  case (Q_release c sent k)
  with assms show ?thesis by (auto split: if_splits)
qed (use assms in \<open>auto simp: q_waits_def split: if_splits option.splits\<close>)

lemma q_hand_free: "\<not> q_holds p \<Longrightarrow> q_hand p = []"
  by (cases p) (auto simp: kont_msgs_free)

lemma q_relies_free: "\<not> q_holds p \<Longrightarrow> q_relies p h \<Longrightarrow> q_relies p h'"
proof (cases p)
  case (Q_respond c ms k)
  then show "\<not> q_holds p \<Longrightarrow> q_relies p h \<Longrightarrow> q_relies p h'" by (cases k) auto
next
  case (Q_release c sent k)
  then show "\<not> q_holds p \<Longrightarrow> q_relies p h \<Longrightarrow> q_relies p h'" by (cases k) auto
next
  case (Q_return c sent k)
  then show "\<not> q_holds p \<Longrightarrow> q_relies p h \<Longrightarrow> q_relies p h'" by (cases k) auto
qed auto

section \<open>All threads\<close>

text \<open>The messages the thread that holds the lock has taken and not yet written.\<close>

definition q_in_hand :: "polling \<Rightarrow> string list" where
  "q_in_hand s = (case q_lock (q_shared s) of None \<Rightarrow> [] | Some i \<Rightarrow> q_hand (q_pcs s i))"

definition poll_inv :: "polling \<Rightarrow> bool" where
  "poll_inv s \<longleftrightarrow> (\<forall>i. q_lock (q_shared s) = Some i \<longleftrightarrow> q_holds (q_pcs s i)) \<and>
     (\<forall>i. q_relies (q_pcs s i) (q_shared s)) \<and> q_waits (q_shared s) \<and>
     q_sent (q_shared s) = q_delivered (q_shared s) @ q_buff (q_shared s) @ q_in_hand s"

lemma poll_inv_D:
  assumes "poll_inv s"
  shows "q_lock (q_shared s) = Some i \<longleftrightarrow> q_holds (q_pcs s i)" "q_relies (q_pcs s i) (q_shared s)" "q_waits (q_shared s)"
    "q_sent (q_shared s) = q_delivered (q_shared s) @ q_buff (q_shared s) @ q_in_hand s"
  using assms unfolding poll_inv_def by auto

lemma poll_inv_I:
  assumes "\<And>i. q_lock (q_shared s) = Some i \<longleftrightarrow> q_holds (q_pcs s i)" "\<And>i. q_relies (q_pcs s i) (q_shared s)"
    "q_waits (q_shared s)" "q_sent (q_shared s) = q_delivered (q_shared s) @ q_buff (q_shared s) @ q_in_hand s"
  shows "poll_inv s"
  using assms unfolding poll_inv_def by auto

lemma poll_inv_start: "poll_inv q_start"
  by (simp add: poll_inv_def q_start_def q_waits_def q_delivered_def q_in_hand_def)

lemma poll_inv_run:
  assumes inv: "poll_inv s" and st: "poll_step i ok (q_pcs s i) (q_shared s) = Some (p, h)"
  shows "poll_inv (s\<lparr>q_shared := h, q_pcs := (q_pcs s)(i := p)\<rparr>)"
proof (rule poll_inv_I)
  let ?h = "q_shared s" and ?t = "s\<lparr>q_shared := h, q_pcs := (q_pcs s)(i := p)\<rparr>"
  note D = poll_inv_D[OF inv]
  note lock = poll_step_lock[OF st D(1)]
  have free: "\<not> q_holds (q_pcs s j)" if "j \<noteq> i" "q_holds (q_pcs s i)" for j
    using D(1)[of i] D(1)[of j] that by auto
  have other: "q_left ?h h" if "j \<noteq> i" "q_lock ?h = Some j" for j
    using poll_step_left[OF st D(2) that(2)] that D(1)[of i] by auto
  have gain: "q_lock ?h = None" if "q_holds p" "\<not> q_holds (q_pcs s i)"
  proof (rule ccontr)
    assume "q_lock ?h \<noteq> None"
    with that st D(1)[of i] show False using return_step_holds(1)
      by (cases "q_pcs s i") (auto simp: free_for_def split: if_splits option.splits)
  qed
  show "q_waits (q_shared ?t)" using poll_step_waits[OF st D(2,3) D(1)] by simp
  show "q_relies (q_pcs ?t j) (q_shared ?t)" for j
    using poll_step_relies[OF st D(2,3) D(1)] q_relies_free[OF _ D(2)[of j]] q_relies_left[OF D(2)[of j] other[of j]] D(1)[of j]
    by auto
  show "q_lock (q_shared ?t) = Some j \<longleftrightarrow> q_holds (q_pcs ?t j)" for j
    using lock free[of j] gain D(1)[of j] D(1)[of i] by (cases "j = i") auto
  show "q_sent (q_shared ?t) = q_delivered (q_shared ?t) @ q_buff (q_shared ?t) @ q_in_hand ?t"
  proof (cases "\<exists>j. j \<noteq> i \<and> q_lock ?h = Some j")
    case True
    then obtain j where j: "j \<noteq> i" "q_lock ?h = Some j" by auto
    then have "\<not> q_holds (q_pcs s i)" using D(1)[of i] by auto
    moreover from this have "\<not> q_holds p" using gain j by auto
    ultimately show ?thesis using other[OF j] j lock D(4) by (auto simp: q_left_def q_in_hand_def)
  next
    case False
    then have "q_lock ?h = None \<or> q_lock ?h = Some i" by (cases "q_lock ?h") auto
    then have "q_in_hand s = q_hand (q_pcs s i)" using D(1)[of i] q_hand_free by (auto simp: q_in_hand_def)
    moreover have "q_lock h = None \<and> \<not> q_holds p \<or> q_lock h = Some i"
      using lock \<open>q_lock ?h = None \<or> q_lock ?h = Some i\<close> D(1)[of i] by auto
    then have "q_in_hand ?t = q_hand p" using q_hand_free by (auto simp: q_in_hand_def)
    ultimately show ?thesis using poll_step_hand[OF st D(2,3) D(1)] D(4) by simp
  qed
qed

text \<open>What happens without a step of a thread does not matter.\<close>

lemma poll_inv_begin:
  assumes "poll_inv s" "q_begin i p job s = Some t" "\<not> q_holds p" "q_relies p (q_shared s)"
  shows "poll_inv t"
proof (rule poll_inv_I)
  note D = poll_inv_D[OF assms(1)]
  have i: "q_pcs s i = Q_idle" and t: "t = s\<lparr>q_pcs := (q_pcs s)(i := p), q_job := (q_job s)(i := job)\<rparr>"
    using assms(2) by (auto simp: q_begin_def split: if_splits)
  then have "q_lock (q_shared s) \<noteq> Some i" using D(1)[of i] by simp
  then have "q_in_hand t = q_in_hand s" by (auto simp: t q_in_hand_def split: option.splits)
  with D(4) show "q_sent (q_shared t) = q_delivered (q_shared t) @ q_buff (q_shared t) @ q_in_hand t" by (simp add: t)
  show "q_lock (q_shared t) = Some j \<longleftrightarrow> q_holds (q_pcs t j)" for j using D(1)[of j] i assms(3) by (auto simp: t)
  show "q_relies (q_pcs t j) (q_shared t)" for j using D(2)[of j] assms(4) by (auto simp: t)
  show "q_waits (q_shared t)" using D(3) by (simp add: t)
qed

lemma poll_inv_same:
  assumes "poll_inv s" "q_pcs t = q_pcs s" "q_left (q_shared s) (q_shared t)"
    "q_lock (q_shared t) = q_lock (q_shared s)" "q_incoming (q_shared t) = q_incoming (q_shared s)"
  shows "poll_inv t"
proof (rule poll_inv_I)
  note D = poll_inv_D[OF assms(1)]
  show "q_lock (q_shared t) = Some j \<longleftrightarrow> q_holds (q_pcs t j)" for j using D(1)[of j] assms(2,4) by simp
  show "q_relies (q_pcs t j) (q_shared t)" for j using q_relies_left[OF D(2) assms(3)] assms(2) by simp
  have "q_in_hand t = q_in_hand s" using assms(2,4) by (cases "q_lock (q_shared s)") (simp_all add: q_in_hand_def)
  with D(4) assms(3) show "q_sent (q_shared t) = q_delivered (q_shared t) @ q_buff (q_shared t) @ q_in_hand t"
    by (simp add: q_left_def)
  show "q_waits (q_shared t)" using D(3) assms(3,5) by (simp add: q_left_def q_waits_def)
qed

lemma poll_inv_do:
  assumes "poll_inv s" "poll_do a s = Some t"
  shows "poll_inv t"
proof (cases a)
  case (P_read i c)
  with assms have "q_begin i (Q_touch c) (Some c) (s\<lparr>q_reader := (q_reader s)(c := Some i)\<rparr>) = Some t"
    by (auto split: if_splits)
  from poll_inv_begin[OF poll_inv_same[OF assms(1)] this] show ?thesis by (simp add: q_left_def)
qed (use assms in \<open>auto split: option.splits if_splits intro: poll_inv_run poll_inv_begin poll_inv_same simp: q_left_def\<close>)

lemma polled_inv: "polled s \<Longrightarrow> poll_inv s"
  by (induction rule: polled.induct) (auto intro: poll_inv_start poll_inv_do)

section \<open>Every request is answered at most once\<close>

text \<open>Where a thread is about to accept the next request of a connection.\<close>

fun q_between :: "ppc \<Rightarrow> cid option" where
  "q_between (Q_release c sent K_ask) = Some c"
| "q_between (Q_return c sent K_ask) = Some c"
| "q_between (Q_ask c) = Some c"
| "q_between p = None"

text \<open>The connection a thread is the reader of, up to that point.\<close>

fun q_accepts :: "ppc \<Rightarrow> cid option" where
  "q_accepts (Q_touch c) = Some c"
| "q_accepts (Q_respond c ms K_ask) = Some c"
| "q_accepts p = q_between p"

definition q_answers :: "poll_state \<Rightarrow> cid \<Rightarrow> nat" where
  "q_answers h c = count_list (map fst (q_out h)) c"

lemma q_between_accepts: "q_between p = Some c \<Longrightarrow> q_accepts p = Some c"
  by (cases p rule: q_between.cases) auto

definition ask_inv :: "polling \<Rightarrow> bool" where
  "ask_inv s \<longleftrightarrow>
     (\<forall>c. q_requests (q_shared s) c = q_answers (q_shared s) c + (if q_asks (q_shared s) c then 1 else 0)) \<and>
     (\<forall>i c. q_accepts (q_pcs s i) = Some c \<longrightarrow> q_job s i = Some c) \<and>
     (\<forall>i c. q_job s i = Some c \<and> q_pcs s i \<noteq> Q_idle \<longrightarrow> q_reader s c = Some i) \<and>
     (\<forall>i c. q_between (q_pcs s i) = Some c \<longrightarrow> \<not> q_asks (q_shared s) c)"

lemma return_step_between:
  assumes "return_step c sent k h = (p, h')"
  shows "q_between p = q_between (Q_return c sent k)" "q_accepts p = q_accepts (Q_return c sent k)"
  using assms by (cases k; auto split: if_splits)+

lemma poll_step_accepts:
  assumes "poll_step i ok p h = Some (p', h')"
  shows "q_accepts p' = Some c \<Longrightarrow> q_accepts p = Some c"
proof (cases p)
  case (Q_respond d ms k)
  then show "q_accepts p' = Some c \<Longrightarrow> q_accepts p = Some c" using assms by (cases k) (auto split: if_splits)
next
  case (Q_release d sent k)
  then show "q_accepts p' = Some c \<Longrightarrow> q_accepts p = Some c" using assms by (cases k) (auto split: if_splits)
next
  case (Q_return d sent k)
  then show "q_accepts p' = Some c \<Longrightarrow> q_accepts p = Some c" using assms return_step_between(2) by fastforce
qed (use assms in \<open>auto split: if_splits option.splits\<close>)

lemma poll_step_between:
  assumes "poll_step i ok p h = Some (p', h')"
  shows "q_between p' = Some c \<Longrightarrow> (q_between p = Some c \<and> p \<noteq> Q_ask c) \<or> \<not> q_asks h' c"
proof (cases p)
  case (Q_respond d ms k)
  then show "q_between p' = Some c \<Longrightarrow> (q_between p = Some c \<and> p \<noteq> Q_ask c) \<or> \<not> q_asks h' c"
    using assms by (cases k) (auto simp: q_respond_def split: if_splits)
next
  case (Q_release d sent k)
  then show "q_between p' = Some c \<Longrightarrow> (q_between p = Some c \<and> p \<noteq> Q_ask c) \<or> \<not> q_asks h' c"
    using assms by (cases k) (auto split: if_splits)
next
  case (Q_return d sent k)
  then show "q_between p' = Some c \<Longrightarrow> (q_between p = Some c \<and> p \<noteq> Q_ask c) \<or> \<not> q_asks h' c"
    using assms return_step_between(1)[of d sent k h p' h'] by auto
qed (use assms in \<open>auto split: if_splits option.splits\<close>)

lemma poll_step_asks:
  assumes "poll_step i ok p h = Some (p', h')"
  shows "q_asks h' c \<Longrightarrow> q_asks h c \<or> p = Q_ask c"
  using assms return_step_holds(8)[of _ _ _ h p' h']
  by (cases p) (auto simp: q_respond_def split: if_splits option.splits)

lemma poll_step_answers:
  assumes "poll_step i ok p h = Some (p', h')" "p = Q_ask c \<Longrightarrow> \<not> q_asks h c"
    "q_requests h c = q_answers h c + (if q_asks h c then 1 else 0)"
  shows "q_requests h' c = q_answers h' c + (if q_asks h' c then 1 else 0)"
  using assms return_step_holds(3,8,9)[of _ _ _ h p' h']
  by (cases p) (auto simp: q_respond_def q_answers_def split: if_splits option.splits)

lemma ask_inv_D:
  assumes "ask_inv s"
  shows "q_requests (q_shared s) c = q_answers (q_shared s) c + (if q_asks (q_shared s) c then 1 else 0)"
    "q_accepts (q_pcs s i) = Some c \<Longrightarrow> q_job s i = Some c"
    "q_job s i = Some c \<Longrightarrow> q_pcs s i \<noteq> Q_idle \<Longrightarrow> q_reader s c = Some i"
    "q_between (q_pcs s i) = Some c \<Longrightarrow> \<not> q_asks (q_shared s) c"
  using assms unfolding ask_inv_def by blast+

lemma ask_inv_start: "ask_inv q_start"
  by (simp add: ask_inv_def q_start_def q_answers_def)

lemma ask_inv_run:
  assumes inv: "ask_inv s" and st: "poll_step i ok (q_pcs s i) (q_shared s) = Some (p, h)"
  shows "ask_inv (s\<lparr>q_shared := h, q_pcs := (q_pcs s)(i := p)\<rparr>)"
proof -
  note D = ask_inv_D[OF inv]
  let ?t = "s\<lparr>q_shared := h, q_pcs := (q_pcs s)(i := p)\<rparr>"
  have busy: "q_pcs s i \<noteq> Q_idle" using st by (cases "q_pcs s i") auto
  have uniq: "i = j" if "q_pcs s i = Q_ask c" "q_between (q_pcs s j) = Some c" for j c
  proof -
    have "q_reader s c = Some i" using D(2)[of i c] D(3)[of i c] that(1) by simp
    moreover have "q_job s j = Some c" using D(2) q_between_accepts that(2) by blast
    then have "q_reader s c = Some j" using D(3)[of j c] that(2) by fastforce
    ultimately show ?thesis by simp
  qed
  have "q_requests h c = q_answers h c + (if q_asks h c then 1 else 0)" for c
    by (rule poll_step_answers[OF st _ D(1)]) (use D(4)[of i c] in simp)
  moreover have "q_job s j = Some c" if "q_accepts (q_pcs ?t j) = Some c" for j c
    using that D(2)[of j c] D(2)[of i c] poll_step_accepts[OF st, of c] by (auto split: if_splits)
  moreover have "q_reader s c = Some j" if "q_job s j = Some c" "q_pcs ?t j \<noteq> Q_idle" for j c
    using that D(3)[of j c] busy by (auto split: if_splits)
  moreover have "\<not> q_asks h c" if "q_between (q_pcs ?t j) = Some c" for j c
  proof (cases "j = i")
    case True
    with that have "(q_between (q_pcs s i) = Some c \<and> q_pcs s i \<noteq> Q_ask c) \<or> \<not> q_asks h c"
      using poll_step_between[OF st, of c] by simp
    then show ?thesis using D(4)[of i c] poll_step_asks[OF st, of c] by blast
  next
    case False
    with that have "q_between (q_pcs s j) = Some c" by simp
    then show ?thesis using D(4)[of j c] poll_step_asks[OF st, of c] uniq[of c j] False by blast
  qed
  ultimately show ?thesis unfolding ask_inv_def by simp
qed

lemma ask_inv_begin:
  assumes "ask_inv s" "q_begin i p job s = Some t" "q_between p = None" "q_accepts p = job"
    "\<And>c. job = Some c \<Longrightarrow> q_reader s c = Some i"
  shows "ask_inv t"
proof -
  note D = ask_inv_D[OF assms(1)]
  have i: "q_pcs s i = Q_idle" and t: "t = s\<lparr>q_pcs := (q_pcs s)(i := p), q_job := (q_job s)(i := job)\<rparr>"
    using assms(2) by (auto simp: q_begin_def split: if_splits)
  show ?thesis unfolding ask_inv_def t using D assms(3-5) by auto
qed

lemma ask_inv_read:
  assumes "ask_inv s" "\<not> q_read c s" "q_begin i (Q_touch c) (Some c) (s\<lparr>q_reader := (q_reader s)(c := Some i)\<rparr>) = Some t"
  shows "ask_inv t"
proof -
  note D = ask_inv_D[OF assms(1)]
  have i: "q_pcs s i = Q_idle"
    and t: "t = s\<lparr>q_reader := (q_reader s)(c := Some i), q_pcs := (q_pcs s)(i := Q_touch c), q_job := (q_job s)(i := Some c)\<rparr>"
    using assms(3) by (auto simp: q_begin_def split: if_splits)
  have "q_job s j \<noteq> Some c" if "q_pcs s j \<noteq> Q_idle" for j
    using D(3)[of j c] that assms(2) by (auto simp: q_read_def)
  then show ?thesis unfolding ask_inv_def t using D by auto
qed

lemma ask_inv_same:
  assumes "ask_inv s" "q_pcs t = q_pcs s" "q_job t = q_job s" "q_reader t = q_reader s"
    "q_asks (q_shared t) = q_asks (q_shared s)" "q_out (q_shared t) = q_out (q_shared s)"
    "q_requests (q_shared t) = q_requests (q_shared s)"
  shows "ask_inv t"
  using assms unfolding ask_inv_def q_answers_def by simp

lemma ask_inv_do:
  assumes "ask_inv s" "poll_do a s = Some t"
  shows "ask_inv t"
  using assms
  by (cases a)
    (auto split: option.splits if_splits intro: ask_inv_run ask_inv_read ask_inv_begin ask_inv_same)

lemma polled_ask_inv: "polled s \<Longrightarrow> ask_inv s"
  by (induction rule: polled.induct) (auto intro: ask_inv_start ask_inv_do)

end
