(* ===== verification/Poll_Race.thy ===== *)
theory Poll_Race
  imports Poll_Fifo
begin

text \<open>
  Long polling under concurrency: the references to the connections, the absence of deadlocks, and what the threads can
  do to one another: a message waits although a connection polls, and the assertion of \<open>_surr_send\<close> fails.
\<close>

section \<open>References\<close>

text \<open>The connection to which a thread owns a reference: it took it from the surrogate and will drop it.\<close>

fun kont_owns :: "cid \<Rightarrow> kont \<Rightarrow> cid option" where
  "kont_owns c (K_sent m) = Some c"
| "kont_owns c K_unlock = Some c"
| "kont_owns c (K_replace d ms) = Some c"
| "kont_owns c K_unref = Some c"
| "kont_owns c (K_old old) = old"
| "kont_owns c k = None"

fun q_owns :: "ppc \<Rightarrow> cid option" where
  "q_owns (Q_respond c ms k) = kont_owns c k"
| "q_owns (Q_release c sent k) = kont_owns c k"
| "q_owns (Q_return c sent k) = kont_owns c k"
| "q_owns (Q_old old) = old"
| "q_owns p = None"

definition q_spare :: "cid \<Rightarrow> ppc \<Rightarrow> poll_state \<Rightarrow> int" where
  "q_spare c p h = q_refs h c - (if q_poller h = Some c then 1 else 0) - (if q_owns p = Some c then 1 else 0)"

lemma poll_step_spare:
  assumes "poll_step i ok p h = Some (p', h')"
  shows "q_spare c p' h' = q_spare c p h"
proof (cases p)
  case (Q_return d sent k)
  with assms show ?thesis by (cases k) (auto simp: q_spare_def q_unref_def split: if_splits)
qed (use assms in \<open>auto simp: q_spare_def q_unref_def q_release_def split: if_splits option.splits\<close>)

definition ref_inv :: "polling \<Rightarrow> bool" where
  "ref_inv s \<longleftrightarrow> finite {i. q_pcs s i \<noteq> Q_idle} \<and>
     (\<forall>c. q_refs (q_shared s) c =
        (if q_poller (q_shared s) = Some c then 1 else 0) + int (card {i. q_owns (q_pcs s i) = Some c}))"

lemma q_owners_finite: "finite {i. f i \<noteq> Q_idle} \<Longrightarrow> finite {i. q_owns (f i) = Some c}"
  by (rule finite_subset[of _ "{i. f i \<noteq> Q_idle}"]) auto

lemma q_busy_finite: "finite {i. f i \<noteq> Q_idle} \<Longrightarrow> finite {j. (f(i := p)) j \<noteq> Q_idle}"
  by (rule finite_subset[of _ "insert i {i. f i \<noteq> Q_idle}"]) auto

lemma q_card_owners:
  assumes "finite {i. f i \<noteq> Q_idle}"
  shows "int (card {j. q_owns ((f(i := p)) j) = Some c}) =
    int (card {j. q_owns (f j) = Some c}) + (if q_owns p = Some c then 1 else 0) - (if q_owns (f i) = Some c then 1 else 0)"
proof -
  let ?A = "{j. q_owns (f j) = Some c}" and ?B = "{j. q_owns ((f(i := p)) j) = Some c}"
  have "card ?A = card (?A - {i}) + (if q_owns (f i) = Some c then 1 else 0)"
    using card_Suc_Diff1[OF q_owners_finite[OF assms], of i c] by (auto simp: Diff_insert0)
  moreover have "card ?B = card (?B - {i}) + (if q_owns p = Some c then 1 else 0)"
    using card_Suc_Diff1[OF q_owners_finite[OF q_busy_finite[OF assms]], of i i p c] by (auto simp: Diff_insert0)
  moreover have "?B - {i} = ?A - {i}" by auto
  ultimately show ?thesis by auto
qed

lemma ref_inv_run:
  assumes "ref_inv s" "poll_step i ok (q_pcs s i) (q_shared s) = Some (p, h)"
  shows "ref_inv (s\<lparr>q_shared := h, q_pcs := (q_pcs s)(i := p)\<rparr>)"
proof -
  have fin: "finite {i. q_pcs s i \<noteq> Q_idle}" using assms(1) by (simp add: ref_inv_def)
  have "q_refs h c = (if q_poller h = Some c then 1 else 0) + int (card {j. q_owns (((q_pcs s)(i := p)) j) = Some c})" for c
  proof -
    have "q_refs (q_shared s) c =
        (if q_poller (q_shared s) = Some c then 1 else 0) + int (card {i. q_owns (q_pcs s i) = Some c})"
      using assms(1) by (simp add: ref_inv_def)
    with poll_step_spare[OF assms(2), of c] q_card_owners[OF fin, of i p c] show ?thesis
      unfolding q_spare_def by linarith
  qed
  then show ?thesis using q_busy_finite[OF fin, of i p] by (simp add: ref_inv_def)
qed

lemma ref_inv_begin:
  assumes "ref_inv s" "q_begin i p job s = Some t" "q_owns p = None"
  shows "ref_inv t"
proof -
  have i: "q_pcs s i = Q_idle" and t: "t = s\<lparr>q_pcs := (q_pcs s)(i := p), q_job := (q_job s)(i := job)\<rparr>"
    using assms(2) by (auto simp: q_begin_def split: if_splits)
  have fin: "finite {i. q_pcs s i \<noteq> Q_idle}" using assms(1) by (simp add: ref_inv_def)
  show ?thesis using assms(1) q_card_owners[OF fin, of i p] q_busy_finite[OF fin, of i p] i assms(3)
    by (simp add: ref_inv_def t)
qed

lemma ref_inv_same:
  assumes "ref_inv s" "q_pcs t = q_pcs s" "q_refs (q_shared t) = q_refs (q_shared s)" "q_poller (q_shared t) = q_poller (q_shared s)"
  shows "ref_inv t"
  using assms by (simp add: ref_inv_def)

lemma ref_inv_do:
  assumes "ref_inv s" "poll_do a s = Some t"
  shows "ref_inv t"
proof (cases a)
  case (P_read i c)
  with assms(2) have "q_begin i (Q_touch c) (Some c) (s\<lparr>q_reader := (q_reader s)(c := Some i)\<rparr>) = Some t"
    by (auto split: if_splits)
  from ref_inv_begin[OF ref_inv_same[OF assms(1)] this] show ?thesis by simp
qed (use assms in \<open>auto split: option.splits if_splits intro: ref_inv_run ref_inv_begin ref_inv_same\<close>)

lemma ref_inv_start: "ref_inv q_start"
  by (simp add: ref_inv_def q_start_def)

lemma polled_ref_inv: "polled s \<Longrightarrow> ref_inv s"
  by (induction rule: polled.induct) (auto intro: ref_inv_start ref_inv_do)

section \<open>Progress\<close>

text \<open>At most this many steps of its own remain to a thread.\<close>

fun kont_work :: "kont \<Rightarrow> nat" where
  "kont_work K_done = 0"
| "kont_work K_unref = 0"
| "kont_work K_ask = 20"
| "kont_work (K_sent m) = 2"
| "kont_work (K_old old) = 5"
| "kont_work K_unlock = 1"
| "kont_work (K_replace c ms) = 9"
| "kont_work (K_assert ms) = 1"

fun q_work :: "ppc \<Rightarrow> nat" where
  "q_work Q_idle = 0"
| "q_work (Q_respond c ms k) = 3 + kont_work k"
| "q_work (Q_release c sent k) = 2 + kont_work k"
| "q_work (Q_return c sent k) = 1 + kont_work k"
| "q_work (Q_touch c) = 24"
| "q_work (Q_ask c) = 20"
| "q_work (Q_link c) = 19"
| "q_work (Q_body c) = 18"
| "q_work (Q_incoming c) = 17"
| "q_work (Q_handle c) = 16"
| "q_work (Q_route c) = 15"
| "q_work (Q_flush c) = 14"
| "q_work (Q_replace c) = 9"
| "q_work (Q_old old) = 5"
| "q_work (Q_steal c ms) = 13"
| "q_work (Q_send m) = 7"
| "q_work (Q_check m) = 6"
| "q_work (Q_write m) = 2"
| "q_work Q_unlock = 1"
| "q_work (Q_beat c) = 4"
| "q_work Q_close = 4"
| "q_work (Q_drop c) = 4"
| "q_work (Q_abort ms) = 0"

lemma return_step_work: "return_step c sent k h = (p, h') \<Longrightarrow> q_work p < 1 + kont_work k"
  by (cases k) (auto split: if_splits)

lemma poll_step_work: "poll_step i ok p h = Some (p', h') \<Longrightarrow> q_work p' < q_work p"
  by (cases p) (auto split: if_splits option.splits dest: return_step_work)

lemma q_work_max: "q_work p \<le> 24"
proof (cases p)
  case (Q_respond c ms k)
  then show ?thesis by (cases k) auto
next
  case (Q_release c sent k)
  then show ?thesis by (cases k) auto
next
  case (Q_return c sent k)
  then show ?thesis by (cases k) auto
qed auto

definition q_aborted :: "polling \<Rightarrow> bool" where
  "q_aborted s \<longleftrightarrow> (\<exists>i ms. q_pcs s i = Q_abort ms)"

lemma poll_step_enabled:
  assumes "free_for i h" "q_lock h = Some i \<longleftrightarrow> q_holds p" "p \<noteq> Q_idle" "\<And>ms. p \<noteq> Q_abort ms"
  obtains p' h' where "poll_step i True p h = Some (p', h')"
proof (cases "poll_step i True p h")
  case None
  then have False using assms by (cases p) (auto simp: free_for_def split: if_splits option.splits)
  then show ?thesis ..
next
  case (Some r)
  then show ?thesis using that by (cases r) auto
qed

text \<open>Running the holder of the lock and the thread itself is enough to end what a thread does.\<close>

definition q_left_to_do :: "ptid \<Rightarrow> polling \<Rightarrow> nat" where
  "q_left_to_do i s = q_work (q_pcs s i) +
     (case q_lock (q_shared s) of None \<Rightarrow> 0 | Some j \<Rightarrow> if j = i then 0 else q_work (q_pcs s j))"

lemma poll_step_frees:
  assumes "poll_inv s" "poll_step i ok (q_pcs s i) (q_shared s) = Some (p, h)"
    "q_lock (q_shared s) = None \<or> q_lock (q_shared s) = Some i"
  shows "q_lock h = None \<or> q_lock h = Some i"
  using poll_step_lock[OF assms(2) poll_inv_D(1)[OF assms(1)]] assms(3) by auto

lemma poll_ends:
  assumes "poll_inv s"
  shows "\<exists>acts t. poll_run acts s = Some t \<and> length acts \<le> q_left_to_do i s \<and> (q_pcs t i = Q_idle \<or> q_aborted t)"
  using assms
proof (induction "q_left_to_do i s" arbitrary: s rule: less_induct)
  case less
  let ?h = "q_shared s"
  note D = poll_inv_D[OF less.prems]
  show ?case
  proof (cases "q_pcs s i = Q_idle \<or> q_aborted s")
    case True
    then have "poll_run [] s = Some s \<and> length ([] :: poll_act list) \<le> q_left_to_do i s \<and> (q_pcs s i = Q_idle \<or> q_aborted s)"
      by simp
    then show ?thesis by blast
  next
    case False
    define j where "j = (case q_lock ?h of None \<Rightarrow> i | Some j \<Rightarrow> j)"
    have own: "q_lock ?h = None \<or> q_lock ?h = Some j" by (simp add: j_def split: option.splits)
    then have "free_for j ?h" by (auto simp: free_for_def)
    moreover have "q_pcs s j \<noteq> Q_idle" using False D(1)[of j] own by (auto simp: j_def split: option.splits)
    ultimately obtain p h where st: "poll_step j True (q_pcs s j) ?h = Some (p, h)"
      using poll_step_enabled[of j ?h "q_pcs s j"] D(1)[of j] False by (auto simp: q_aborted_def)
    let ?t = "s\<lparr>q_shared := h, q_pcs := (q_pcs s)(j := p)\<rparr>"
    have "q_left_to_do i ?t < q_left_to_do i s"
      using poll_step_work[OF st] poll_step_frees[OF less.prems st own]
      by (auto simp: q_left_to_do_def j_def split: option.splits if_splits)
    moreover from this have "\<exists>acts t. poll_run acts ?t = Some t \<and> length acts \<le> q_left_to_do i ?t \<and> (q_pcs t i = Q_idle \<or> q_aborted t)"
      using less.hyps poll_inv_run[OF less.prems st] by blast
    then obtain acts t where "poll_run acts ?t = Some t" "length acts \<le> q_left_to_do i ?t" "q_pcs t i = Q_idle \<or> q_aborted t"
      by blast
    ultimately have "poll_run (P_run j True # acts) s = Some t \<and> length (P_run j True # acts) \<le> q_left_to_do i s \<and>
      (q_pcs t i = Q_idle \<or> q_aborted t)" using st by simp
    then show ?thesis by blast
  qed
qed

section \<open>Races\<close>

text \<open>A whole request of connection \<open>c\<close>, up to its place as the poller; a message; the steps of one thread.\<close>

definition q_steps :: "ptid \<Rightarrow> nat \<Rightarrow> poll_act list" where
  "q_steps i n = replicate n (P_run i True)"

text \<open>
  A heartbeat has seen that connection \<open>1\<close> waits for too long, when the rest of a request arrives; a message is put into
  the buffer because the request is being handled; the request takes it; the heartbeat answers the connection first.
\<close>

definition abort_acts :: "string \<Rightarrow> poll_act list" where
  "abort_acts m =
     [P_read 0 1] @ q_steps 0 4 @ [P_run 0 False, P_age 1, P_beat 1 1] @ q_steps 1 1 @
     [P_read 0 1] @ q_steps 0 3 @ [P_send 2 m] @ q_steps 2 4 @ q_steps 0 4 @ q_steps 1 1 @ q_steps 0 2"

text \<open>
  A heartbeat answers connection \<open>1\<close>, and before it goes on connection \<open>2\<close> polls, and then \<open>1\<close> again; the heartbeat takes
  the new poll for the old one and releases it.
\<close>

definition release_acts :: "string \<Rightarrow> poll_act list" where
  "release_acts m =
     [P_read 0 1] @ q_steps 0 13 @ [P_age 1, P_beat 1 1] @ q_steps 1 2 @
     [P_read 0 2] @ q_steps 0 15 @ [P_read 0 1] @ q_steps 0 16 @ q_steps 1 2 @ [P_send 2 m] @ q_steps 2 4"

text \<open>A request whose messages cannot be parsed, while another connection polls.\<close>

definition malformed_acts :: "string \<Rightarrow> poll_act list" where
  "malformed_acts m =
     [P_read 0 1] @ q_steps 0 13 @ [P_read 0 2] @ q_steps 0 7 @ [P_run 0 False] @ q_steps 0 3 @ [P_send 2 m] @ q_steps 2 4"

lemma poll_acts_simps: "replicate (numeral k) x = x # replicate (pred_numeral k) x" "replicate (Suc 0) x = [x]"
  by (simp_all add: numeral_eq_Suc)

lemma polled_runs:
  assumes "case poll_run acts q_start of None \<Rightarrow> False | Some s \<Rightarrow> P s"
  shows "\<exists>s. polled s \<and> P s"
  using assms polled_run[OF _ polled.start] by (auto split: option.splits)

lemmas poll_trace = q_steps_def poll_acts_simps q_start_def q_begin_def q_read_def q_respond_def q_release_def q_unref_def
  free_for_def

text \<open>
  A connection that polls twice can be its own old poller, which a comment of \<open>_surr_replace\<close> rules out: its new request is
  answered at once.
\<close>

lemma poll_race_same_poller:
  "\<exists>s. polled s \<and> q_pcs s 0 = Q_old (Some 1) \<and> q_poller (q_shared s) = Some 1"
  by (rule polled_runs[where acts = "[P_read 0 1] @ q_steps 0 13 @ [P_age 1, P_beat 1 1] @ q_steps 1 2 @ [P_read 0 1] @ q_steps 0 11"])
    (simp add: poll_trace)

text \<open>A released poll: no thread is at work, a connection waits for an answer, and the message for it stays in the buffer.\<close>

lemma poll_race_released:
  "\<exists>s. polled s \<and> (\<forall>i. q_pcs s i = Q_idle) \<and> q_asks (q_shared s) 1 \<and> q_linked (q_shared s) 1 \<and>
     \<not> q_incoming (q_shared s) \<and> q_poller (q_shared s) = None \<and> q_buff (q_shared s) = [m]"
  by (rule polled_runs[where acts = "release_acts m"]) (simp add: release_acts_def poll_trace)

text \<open>After a malformed body a message waits in the buffer although a connection polls.\<close>

lemma poll_malformed_delays:
  "\<exists>s. polled s \<and> (\<forall>i. q_pcs s i = Q_idle) \<and> q_poller (q_shared s) = Some 1 \<and> q_asks (q_shared s) 1 \<and>
     q_incoming (q_shared s) \<and> q_buff (q_shared s) = [m]"
  by (rule polled_runs[where acts = "malformed_acts m"]) (simp add: malformed_acts_def poll_trace)

section \<open>Properties\<close>


text \<open>
  C5. A request is answered at most once, whichever of the reader, the senders, the heartbeats, a newer poll and the close
  callback try to: the responses to a connection are as many as the requests it made, but for the one it still waits for.
\<close>

theorem poll_threads_answers:
  assumes "polled s"
  shows "q_requests (q_shared s) c =
    count_list (map fst (q_out (q_shared s))) c + (if q_asks (q_shared s) c then 1 else 0)"
  using ask_inv_D(1)[OF polled_ask_inv[OF assms], of c] by (simp add: q_answers_def)

text \<open>
  C24. The references to a connection that its surrogate hands around are counted exactly: one when it is the poller, and one
  for every thread that took it from the surrogate and has not dropped it. So no reference leaks or is dropped twice.
\<close>

theorem poll_threads_references:
  assumes "polled s"
  shows "q_refs (q_shared s) c =
    (if q_poller (q_shared s) = Some c then 1 else 0) + int (card {i. q_owns (q_pcs s i) = Some c})"
  using polled_ref_inv[OF assms] by (simp add: ref_inv_def)

text \<open>
  C25. No deadlock and no livelock: from every state the threads reach, whatever a thread is doing can be ended in at most 48
  steps, of it and of the holder of the lock, unless the assertion of \<open>_surr_send\<close> ends the process; and each step of
  any thread, in whatever order they come, brings it nearer to its end.
\<close>

theorem poll_threads_progress:
  assumes "polled s"
  shows "(\<exists>acts t. poll_run acts s = Some t \<and> length acts \<le> 48 \<and> (q_pcs t i = Q_idle \<or> q_aborted t)) \<and>
    (\<forall>j ok t. poll_do (P_run j ok) s = Some t \<longrightarrow> q_work (q_pcs t j) < q_work (q_pcs s j))"
proof
  have "q_left_to_do i s \<le> 48"
  proof (cases "q_lock (q_shared s)")
    case None
    then show ?thesis using q_work_max[of "q_pcs s i"] by (simp add: q_left_to_do_def)
  next
    case (Some j)
    then show ?thesis using q_work_max[of "q_pcs s i"] q_work_max[of "q_pcs s j"] by (simp add: q_left_to_do_def)
  qed
  then show "\<exists>acts t. poll_run acts s = Some t \<and> length acts \<le> 48 \<and> (q_pcs t i = Q_idle \<or> q_aborted t)"
    using poll_ends[OF polled_inv[OF assms], of i] by fastforce
  show "\<forall>j ok t. poll_do (P_run j ok) s = Some t \<longrightarrow> q_work (q_pcs t j) < q_work (q_pcs s j)"
    using poll_step_work by (auto split: option.splits)
qed


section \<open>Witnesses\<close>

text \<open>A request has become the poller, and a sender has taken the poller from the surrogate to answer it.\<close>

definition q_taken :: polling where
  "q_taken = the (poll_run ([P_read 0 1] @ q_steps 0 13 @ [P_send 2 ''a''] @ q_steps 2 2) q_start)"

lemma polled_taken: "polled q_taken"
proof (rule polled_run[OF _ polled.start])
  show "poll_run ([P_read 0 1] @ q_steps 0 13 @ [P_send 2 ''a''] @ q_steps 2 2) q_start = Some q_taken"
    unfolding q_taken_def by (simp add: poll_trace)
qed


theorem poll_threads_answers_witness:
  "q_requests (q_shared q_taken) 1 =
     count_list (map fst (q_out (q_shared q_taken))) 1 + (if q_asks (q_shared q_taken) 1 then 1 else 0) \<and>
   q_requests (q_shared q_taken) 1 = 1"
  using poll_threads_answers[OF polled_taken, of 1] by (simp add: q_taken_def poll_trace)

theorem poll_threads_references_witness:
  "q_refs (q_shared q_taken) 1 =
     (if q_poller (q_shared q_taken) = Some 1 then 1 else 0) + int (card {i. q_owns (q_pcs q_taken i) = Some 1}) \<and>
   q_refs (q_shared q_taken) 1 = 1 \<and> q_owns (q_pcs q_taken 2) = Some 1"
  using poll_threads_references[OF polled_taken, of 1] by (simp add: q_taken_def poll_trace)

theorem poll_threads_progress_witness:
  "(\<exists>acts t. poll_run acts q_taken = Some t \<and> length acts \<le> 48 \<and> (q_pcs t 2 = Q_idle \<or> q_aborted t)) \<and>
   (\<exists>t. poll_do (P_run 2 True) q_taken = Some t \<and> q_work (q_pcs t 2) < q_work (q_pcs q_taken 2)) \<and>
   q_pcs q_taken 2 \<noteq> Q_idle"
proof (intro conjI)
  note progress = poll_threads_progress[OF polled_taken, of 2]
  show "\<exists>acts t. poll_run acts q_taken = Some t \<and> length acts \<le> 48 \<and> (q_pcs t 2 = Q_idle \<or> q_aborted t)"
    using progress by blast
  have "\<exists>t. poll_do (P_run 2 True) q_taken = Some t" by (simp add: q_taken_def poll_trace)
  with progress show "\<exists>t. poll_do (P_run 2 True) q_taken = Some t \<and> q_work (q_pcs t 2) < q_work (q_pcs q_taken 2)"
    by blast
  show "q_pcs q_taken 2 \<noteq> Q_idle" by (simp add: q_taken_def poll_trace)
qed

end
