(* ===== verification/Answered.thy ===== *)
theory Answered
  imports Apps
begin

text \<open>
  From the bytes a client sends to the bytes it gets back, for events that the server answers itself: reading
  (\<open>protocols.c\<close>, \<open>protocols_raw.c\<close>, \<open>protocols_rfc6455.c\<close>), the registry (\<open>evs_query.c\<close>), routing and the callback (\<open>evs.c\<close>,
  \<open>evs_qio.c\<close>), framing and sending. The routing benchmark (\<open>src/bench/bench_routing.c\<close>) measures this way with pings.
\<close>

section \<open>The answers\<close>

text \<open>The code and the data of the answer.\<close>

definition answer_data :: "env \<Rightarrow> query_result \<Rightarrow> string option" where
  "answer_data E q =
     (case q of
        Q_found ev x \<Rightarrow> if handler_fn ev = Some H_hostname then Some (json_str E (cfg_public_address E)) else None
      | _ \<Rightarrow> None)"

definition answer_text :: "env \<Rightarrow> world \<Rightarrow> sent_event \<Rightarrow> string" where
  "answer_text E w ev =
     (case ev of (path, cb, json) \<Rightarrow>
        protocol_raw_format E (CB_PATH @ uint_str E cb) [] EVS_NO_CALLBACK
          (cb_json E (the (route_code (query_cleaned path w))) None (answer_data E (query_cleaned path w))))"

definition framed :: "prot \<Rightarrow> string \<Rightarrow> string" where
  "framed p s = (if p = P_raw then be_bytes 8 (length s) else rfc6455_head (length s)) @ s"

text \<open>What the client gets for a list of events: one frame for each that asks for an answer.\<close>

definition replies :: "env \<Rightarrow> prot \<Rightarrow> world \<Rightarrow> sent_event list \<Rightarrow> string list" where
  "replies E p w evs = map (\<lambda>ev. framed p (answer_text E w ev)) (filter (\<lambda>ev. fst (snd ev) \<noteq> 0) evs)"

definition answered :: "world \<Rightarrow> sent_event \<Rightarrow> bool" where
  "answered w ev \<longleftrightarrow> route_code (query_cleaned (fst ev) w) \<noteq> None"

lemma replies_simps [simp]:
  "replies E p w [] = []"
  "replies E p w (ev # evs) = (if fst (snd ev) = 0 then [] else [framed p (answer_text E w ev)]) @ replies E p w evs"
  by (simp_all add: replies_def)

section \<open>One event\<close>

lemma plain_cb_writes:
  assumes "random_law E" "clients_ok w" "c_handshaked (w_clients w c)" "c_prot (w_clients w c) = Some p" "p = P_raw \<or> p = P_rfc6455"
    and v: "v = evs_cb_full E c client_cb code None data None None None w"
  shows "calm w v" "writes (w_trace v) = writes (w_trace w) @
    (if client_cb = 0 then [] else [(c, framed p (protocol_raw_format E (CB_PATH @ uint_str E client_cb) [] EVS_NO_CALLBACK
       (cb_json E code None data)))])"
proof -
  show "calm w v" unfolding v by (rule calm_evs_cb_full [OF assms(1,2)])
  define u where "u = snd (client_cb_new E (if code = CODE_OK then Some c else None) None None None w)"
  have new: "fst (client_cb_new E x None None None w) = EVS_NO_CALLBACK" for x by (simp add: client_cb_new_def)
  show "writes (w_trace v) = writes (w_trace w) @
    (if client_cb = 0 then [] else [(c, framed p (protocol_raw_format E (CB_PATH @ uint_str E client_cb) [] EVS_NO_CALLBACK
       (cb_json E code None data)))])"
  proof (cases "client_cb = 0")
    case True
    then show ?thesis using evs_cb_full_writes [OF assms(1,2) v] by simp
  next
    case False
    let ?path = "CB_PATH @ uint_str E client_cb"
    have v': "v = stat_inc St_evs_callbacks_sent (protocols_send E c ?path (Some []) EVS_NO_CALLBACK (cb_json E code None data) u)"
      using False new by (simp add: v evs_cb_full_def u_def Let_def case_prod_beta)
    have cu: "calm w u" unfolding u_def by (simp add: client_cb_new_def calm_cb_data_free)
    have "writes (w_trace u) = writes (w_trace w)" by (simp add: u_def client_cb_new_def cb_data_free_def)
    moreover have "prot_ok (w_clients u c)" "c_handshaked (w_clients u c)" "c_prot (w_clients u c) = Some p"
      using calm_clients_ok [OF cu assms(2)] cu assms(3,4) by (simp_all add: clients_okD calm_def)
    ultimately show ?thesis
      using protocols_send_writes [OF _ _ refl, of u c E ?path "Some []" EVS_NO_CALLBACK "cb_json E code None data"] assms(5) False
      by (auto simp: v' framed_def)
  qed
qed

lemma deliver_answered:
  assumes "random_law E" "clients_ok w" "c_handshaked (w_clients w c)" "c_prot (w_clients w c) = Some p" "p = P_raw \<or> p = P_rfc6455"
    and "answered w ev"
  shows "calm w (deliver E c ev w)"
    "writes (w_trace (deliver E c ev w)) = writes (w_trace w) @ map (Pair c) (replies E p w [ev])"
proof -
  obtain path cb json where ev: "ev = (path, cb, json)" by (cases ev)
  let ?a = "if query_cleaned path w = Q_null then w else stat_inc St_evs_received w"
  obtain code where code: "route_code (query_cleaned path w) = Some code" using assms(6) by (auto simp: answered_def ev)
  then have v: "deliver E c ev w = evs_cb_full E c cb code None (answer_data E (query_cleaned path w)) None None None ?a"
    by (cases "query_cleaned path w")
      (auto simp: deliver_def ev route_code_def evs_route_def call_handler_def qio_hostname_def qio_ping_def evs_cb_def
        evs_err_cb_def answer_data_def Let_def split: option.splits if_splits)
  have a: "calm w ?a" "writes (w_trace ?a) = writes (w_trace w)" by simp_all
  have ok: "clients_ok ?a" "c_handshaked (w_clients ?a c)" "c_prot (w_clients ?a c) = Some p"
    using calm_clients_ok [OF a(1) assms(2)] assms(3,4) by simp_all
  note w = plain_cb_writes [OF assms(1) ok assms(5) v]
  show "calm w (deliver E c ev w)" by (rule calm_trans [OF a(1) w(1)])
  show "writes (w_trace (deliver E c ev w)) = writes (w_trace w) @ map (Pair c) (replies E p w [ev])"
    using w(2) a(2) code by (simp add: ev answer_text_def)
qed

section \<open>All events of a buffer\<close>

lemma calm_query: "calm w v \<Longrightarrow> query_cleaned path v = query_cleaned path w"
  by (simp add: calm_def query_cleaned_def)

lemma calm_replies:
  assumes "calm w v"
  shows "replies E p v evs = replies E p w evs" "answered v ev = answered w ev"
  by (simp_all add: replies_def answer_text_def answered_def calm_query [OF assms] split: prod.split)

lemma calm_note_recv: "calm w (note_recv c w)" "writes (w_trace (note_recv c w)) = writes (w_trace w)"
proof -
  have r: "calm w (upd_client c (\<lambda>cl. cl\<lparr>c_last_recv := w_now w\<rparr>) w)" for w
    by (rule calm_upd_client) (simp_all add: cbs_wf_def)
  have t: "calm w (upd_client c (\<lambda>cl. cl\<lparr>c_timeout := False\<rparr>) w)" for w
    by (rule calm_upd_client) (simp_all add: cbs_wf_def)
  show "calm w (note_recv c w)"
    unfolding note_recv_def Let_def using calm_steps(1) [OF calm_trans [OF r t]] r by simp
  show "writes (w_trace (note_recv c w)) = writes (w_trace w)" by (simp add: note_recv_def Let_def)
qed

lemma routed_answered:
  assumes "routed E c evs w v" "random_law E" "p = P_raw \<or> p = P_rfc6455"
  shows "clients_ok w \<Longrightarrow> c_handshaked (w_clients w c) \<Longrightarrow> c_prot (w_clients w c) = Some p \<Longrightarrow> \<forall>ev \<in> set evs. answered w ev \<Longrightarrow>
    calm w v \<and> writes (w_trace v) = writes (w_trace w) @ map (Pair c) (replies E p w evs)"
  using assms(1)
proof induction
  case (none w)
  then show ?case by simp
next
  case (event evs ev b w v)
  let ?b = "set_rbuff c b w"
  let ?d = "deliver E c ev ?b"
  let ?n = "note_recv c ?d"
  have b: "calm w ?b" "writes (w_trace ?b) = writes (w_trace w)" by (simp_all add: calm_rbuff)
  have okb: "clients_ok ?b" "c_handshaked (w_clients ?b c)" "c_prot (w_clients ?b c) = Some p" "answered ?b ev"
    using calm_clients_ok [OF b(1) event.prems(1)] event.prems b(1) calm_replies(2) [OF b(1)] by (simp_all add: calm_def)
  note d = deliver_answered [OF assms(2) okb(1-3) assms(3) okb(4)]
  have n: "calm w ?n" using calm_trans [OF b(1) calm_trans [OF d(1) calm_note_recv(1)]] .
  have okn: "clients_ok ?n" "c_handshaked (w_clients ?n c)" "c_prot (w_clients ?n c) = Some p" "\<forall>ev \<in> set evs. answered ?n ev"
    using calm_clients_ok [OF n event.prems(1)] event.prems n calm_replies(2) [OF n] by (simp_all add: calm_def)
  from event.IH [OF okn] have "calm ?n v" "writes (w_trace v) = writes (w_trace ?n) @ map (Pair c) (replies E p w evs)"
    by (simp_all add: calm_replies(1) [OF n])
  moreover have "writes (w_trace ?n) = writes (w_trace w) @ map (Pair c) (replies E p w [ev])"
    by (simp only: calm_note_recv(2) d(2) b(2) calm_replies(1) [OF b(1)])
  ultimately show ?case using calm_trans [OF n] by simp
qed

lemma calm_start_timeout: "calm w (start_timeout c w)" "writes (w_trace (start_timeout c w)) = writes (w_trace w)"
proof -
  have "calm w (upd_client c (\<lambda>cl. cl\<lparr>c_timeout := True\<rparr>) w)" for w
    by (rule calm_upd_client) (simp_all add: cbs_wf_def)
  then show "calm w (start_timeout c w)" unfolding start_timeout_def using calm_steps(1) by simp
  show "writes (w_trace (start_timeout c w)) = writes (w_trace w)" by (simp add: start_timeout_def)
qed

lemma stream_answered:
  assumes enc: "p = P_raw \<and> enc = raw_enc E \<and> good = raw_good E \<or> p = P_rfc6455 \<and> enc = ws_enc E pick \<and> good = ws_good E"
    and "list_all good (final # evs)" "strict_prefix t (enc final)"
    and w: "random_law E" "clients_ok w" "c_handshaked (w_clients w c)" "c_prot (w_clients w c) = Some p"
    and "\<forall>ev \<in> set evs. answered w ev"
    and b: "rbuff_of c w = concat (map enc evs) @ t"
  shows "\<exists>v. protocols_route E c w = Some v \<and> calm w v \<and> rbuff_of c v = t \<and>
    writes (w_trace v) = writes (w_trace w) @ map (Pair c) (replies E p w evs)"
proof -
  define w0 where "w0 = upd_client c (\<lambda>cl. cl\<lparr>c_last_recv := w_now w\<rparr>) w"
  have g: "\<forall>ev \<in> set evs. good ev" "good final" using assms(2) by (simp_all add: list_all_iff)
  have p: "p = P_raw \<or> p = P_rfc6455" using enc by blast
  have "\<exists>u v. protocols_route E c w = Some v \<and> routed E c evs w0 u \<and> rbuff_of c v = t \<and>
    v = set_rbuff c t (if t = [] \<and> evs \<noteq> [] then u else start_timeout c u)"
    using enc
  proof
    assume "p = P_raw \<and> enc = raw_enc E \<and> good = raw_good E"
    then show ?thesis using raw_reader.stream_routed [OF _ _ _ _ w(3) _ w0_def] g assms(3) w(4) b by simp
  next
    assume "p = P_rfc6455 \<and> enc = ws_enc E pick \<and> good = ws_good E"
    then show ?thesis using ws_reader.stream_routed [OF _ _ _ _ w(3) _ w0_def] g assms(3) w(4) b by simp
  qed
  then obtain u v where v: "protocols_route E c w = Some v" "routed E c evs w0 u" "rbuff_of c v = t"
    "v = set_rbuff c t (if t = [] \<and> evs \<noteq> [] then u else start_timeout c u)" by blast
  have c0: "calm w w0" unfolding w0_def by (rule calm_upd_client) (simp_all add: cbs_wf_def)
  have ok0: "clients_ok w0" "c_handshaked (w_clients w0 c)" "c_prot (w_clients w0 c) = Some p" "\<forall>ev \<in> set evs. answered w0 ev"
    using calm_clients_ok [OF c0 w(2)] w(3,4) c0 calm_replies(2) [OF c0] assms(8) by (simp_all add: calm_def)
  have "calm w0 u" "writes (w_trace u) = writes (w_trace w) @ map (Pair c) (replies E p w evs)"
    using routed_answered [OF v(2) w(1) p ok0] calm_replies(1) [OF c0] by (simp_all add: w0_def)
  then show ?thesis
    using v(1,3) calm_trans [OF c0] calm_start_timeout calm_trans [OF _ calm_rbuff] calm_trans
    by (intro exI [of _ v]) (auto simp: v(4))
qed

section \<open>The routing benchmark\<close>

text \<open>
  \<open>src/bench/bench_routing.c\<close>: the functions that put frames with pings into the read buffer of a client of their own and
  route them. (They then drop the write buffer, which is quick-event's.)
\<close>

definition bench_raw_frame :: string where
  "bench_raw_frame = [NUL, NUL, NUL, NUL, NUL, NUL, NUL, CHR 0x10] @ ''/qio/ping:1=null''"

definition bench_rfc6455_frame :: string where
  "bench_rfc6455_frame = [CHR 0x81, CHR 0x90, NUL, NUL, NUL, NUL] @ ''/qio/ping:1=null''"

definition bench_immediate :: "env \<Rightarrow> prot \<Rightarrow> string \<Rightarrow> cid \<Rightarrow> world \<Rightarrow> world option" where
  "bench_immediate E p b c w = protocols_route E c (upd_client c (\<lambda>cl. cl\<lparr>c_prot := Some p\<rparr>) (set_rbuff c b w))"

definition immediate_raw_single :: "env \<Rightarrow> cid \<Rightarrow> world \<Rightarrow> world option" where
  "immediate_raw_single E c w = bench_immediate E P_raw bench_raw_frame c w"

definition immediate_raw_double :: "env \<Rightarrow> cid \<Rightarrow> world \<Rightarrow> world option" where
  "immediate_raw_double E c w = bench_immediate E P_raw (bench_raw_frame @ bench_raw_frame) c w"

definition immediate_rfc6455_single :: "env \<Rightarrow> cid \<Rightarrow> world \<Rightarrow> world option" where
  "immediate_rfc6455_single E c w = bench_immediate E P_rfc6455 bench_rfc6455_frame c w"

definition immediate_rfc6455_double :: "env \<Rightarrow> cid \<Rightarrow> world \<Rightarrow> world option" where
  "immediate_rfc6455_double E c w = bench_immediate E P_rfc6455 (bench_rfc6455_frame @ bench_rfc6455_frame) c w"

definition base_routing :: "env \<Rightarrow> cid \<Rightarrow> world \<Rightarrow> protocol_status \<times> world" where
  "base_routing E c w = protocol_raw_handle E c ''/qio/ping:0=null'' (set_rbuff c ''/qio/ping:0=null'' w)"

definition bench_ping :: sent_event where
  "bench_ping = (''/qio/ping'', 1, ''null'')"

lemma bench_text:
  assumes "uint_str_law (uint_str E)"
  shows "event_text E bench_ping = ''/qio/ping:1=null''"
  using assms by (simp add: event_text_def bench_ping_def protocol_raw_format_def uint_str_law_def dec_str.simps digit_chars)

lemma unmask_zero: "unmask [NUL, NUL, NUL, NUL] s = s"
proof (rule nth_equalityI)
  fix i assume "i < length (unmask [NUL, NUL, NUL, NUL] s)"
  moreover have "[NUL, NUL, NUL, NUL] ! (i mod 4) = NUL"
    using nth_mem [of "i mod 4" "[NUL, NUL, NUL, NUL]"] by simp
  ultimately show "unmask [NUL, NUL, NUL, NUL] s ! i = s ! i"
    by (simp add: unmask_def xor_char_def)
qed simp

lemma bench_frames:
  assumes "uint_str_law (uint_str E)"
  shows "raw_enc E bench_ping = bench_raw_frame" "ws_enc E (\<lambda>_. 0) bench_ping = bench_rfc6455_frame"
proof -
  show "raw_enc E bench_ping = bench_raw_frame" unfolding raw_enc_def bench_text [OF assms] by code_simp
  have "be_bytes 4 0 = [NUL, NUL, NUL, NUL]" "masked_head (length ''/qio/ping:1=null'') = [CHR 0x81, CHR 0x90]"
    by code_simp+
  then show "ws_enc E (\<lambda>_. 0) bench_ping = bench_rfc6455_frame"
    unfolding ws_enc_def bench_text [OF assms] masked_frame_def by (simp only: unmask_zero bench_rfc6455_frame_def append.simps)
qed

lemma finds_query: "finds w path ev \<Longrightarrow> query_cleaned path w = Q_found ev []"
proof -
  assume f: "finds w path ev"
  then have c: "is_clean path" "cstr path = path"
    using is_clean_no_NUL [of path] by (auto simp: finds_def cstr_def takeWhile_eq_all_conv)
  obtain b n where "evs_clean_path path = (b, n)" by (cases "evs_clean_path path")
  with evs_clean_path_correct [OF this] c clean_path_id [OF c(1)] f show ?thesis
    by (simp add: query_cleaned_def finds_def)
qed

definition bench_pong :: string where
  "bench_pong = ''/qio/callback/1:0={\"code\":200,\"data\":null}''"

lemma bench_answer:
  assumes "finds w ''/qio/ping'' ev" "handler_fn ev = Some H_ping" "uint_str_law (uint_str E)"
  shows "answered w bench_ping" "answer_text E w bench_ping = bench_pong"
  using finds_query [OF assms(1)] assms(2,3)
  by (simp_all add: answered_def bench_ping_def route_code_def answer_text_def answer_data_def bench_pong_def cb_json_def
      protocol_raw_format_def uint_str_law_def dec_str.simps digit_chars CB_PATH_def EVS_NO_CALLBACK_def CODE_OK_def
      json_or_null_def)

lemma bench_good:
  assumes "uint_str_law (uint_str E)" "safe_uadd_law (safe_uadd E)" "steady_law {} E"
  shows "raw_good E bench_ping"
  using assms by (simp add: raw_good_def bench_text) (simp add: bench_ping_def)

text \<open>
  Every frame of the benchmark is one ping: it is read as a whole and answered once, with \<open>CODE_OK\<close>, to callback 1.
  \<open>base_routing\<close> asks for no answer and gets none.
\<close>

lemma bench_immediate_pongs:
  assumes p: "p = P_raw \<and> frame = bench_raw_frame \<or> p = P_rfc6455 \<and> frame = bench_rfc6455_frame \<and> utf8_validate E ''/qio/ping:1=null''"
    and f: "finds w ''/qio/ping'' ev" "handler_fn ev = Some H_ping"
    and l: "random_law E" "uint_str_law (uint_str E)" "safe_uadd_law (safe_uadd E)" "steady_law {} E"
    and w: "clients_ok w" "c_handshaked (w_clients w c)"
  shows "\<exists>v. bench_immediate E p (concat (replicate n frame)) c w = Some v \<and> rbuff_of c v = [] \<and>
    writes (w_trace v) = writes (w_trace w) @ replicate n (c, framed p bench_pong)"
proof -
  let ?w = "upd_client c (\<lambda>cl. cl\<lparr>c_prot := Some p\<rparr>) (set_rbuff c (concat (replicate n frame)) w)"
  let ?enc = "if p = P_raw then raw_enc E else ws_enc E (\<lambda>_. 0)" and ?good = "if p = P_raw then raw_good E else ws_good E"
  let ?evs = "replicate n bench_ping"
  have e: "p = P_raw \<and> ?enc = raw_enc E \<and> ?good = raw_good E \<or> p = P_rfc6455 \<and> ?enc = ws_enc E (\<lambda>_. 0) \<and> ?good = ws_good E"
    using p by auto
  have enc: "?enc bench_ping = frame" using p bench_frames [OF l(2)] by auto
  have good: "list_all ?good (bench_ping # ?evs)"
    using p bench_good [OF l(2-4)] bench_text [OF l(2)] by (auto simp: list_all_iff ws_good_def)
  have front: "strict_prefix [] (?enc bench_ping)"
    unfolding enc using p by (auto simp: bench_raw_frame_def bench_rfc6455_frame_def)
  have "finds ?w ''/qio/ping'' ev" using f(1) by (simp add: finds_def)
  note a = bench_answer [OF this f(2) l(2)]
  have ok: "clients_ok ?w" "c_handshaked (w_clients ?w c)" "c_prot (w_clients ?w c) = Some p"
    using w p by (auto simp: clients_ok_def prot_ok_def cbs_wf_def set_rbuff_def upd_client_def)
  have b: "rbuff_of c ?w = concat (map ?enc ?evs) @ []" by (simp add: enc rbuff_of_def set_rbuff_def)
  from stream_answered [OF e good front l(1) ok _ b] obtain v where
    "protocols_route E c ?w = Some v" "rbuff_of c v = []"
    "writes (w_trace v) = writes (w_trace ?w) @ map (Pair c) (replies E p ?w ?evs)"
    using a(1) by auto
  moreover have "map (Pair c) (replies E p ?w ?evs) = replicate n (c, framed p bench_pong)"
    using a(2) by (simp add: replies_def filter_replicate) (simp add: bench_ping_def)
  ultimately show ?thesis by (auto simp: bench_immediate_def)
qed

lemma base_routing_silent:
  assumes "finds w ''/qio/ping'' ev" "handler_fn ev = Some H_ping" "random_law E" "clients_ok w"
  shows "fst (base_routing E c w) = PROT_OK" "writes (w_trace (snd (base_routing E c w))) = writes (w_trace w)"
proof -
  let ?w = "set_rbuff c ''/qio/ping:0=null'' w"
  have "strtoull ''0=null'' = (0, ''=null'', False)"
    using strtoull_dec_str [of 0 "''=null''"] by (simp add: dec_str.simps digit_chars is_digit_def)
  moreover have "str_split_at (CHR '':'') ''/qio/ping:0=null'' = Some (''/qio/ping'', ''0=null'')" by code_simp
  ultimately have r: "base_routing E c w = (PROT_OK, evs_route E c ''/qio/ping'' 0 ''null'' ?w)"
    by (simp add: base_routing_def protocol_raw_handle_def)
  have "finds ?w ''/qio/ping'' ev" using assms(1) by (simp add: finds_def)
  from finds_query [OF this] have
    "evs_route E c ''/qio/ping'' 0 ''null'' ?w = evs_cb_full E c 0 CODE_OK None None None None None (stat_inc St_evs_received ?w)"
    using assms(2) by (simp add: evs_route_def call_handler_def qio_ping_def evs_cb_def)
  then show "fst (base_routing E c w) = PROT_OK" "writes (w_trace (snd (base_routing E c w))) = writes (w_trace w)"
    by (simp_all add: r evs_cb_full_def client_cb_new_def cb_data_free_def)
qed

lemma bench_immediates:
  assumes f: "finds w ''/qio/ping'' ev" "handler_fn ev = Some H_ping"
    and l: "random_law E" "uint_str_law (uint_str E)" "safe_uadd_law (safe_uadd E)" "steady_law {} E"
    and w: "clients_ok w" "c_handshaked (w_clients w c)" and u: "utf8_validate E ''/qio/ping:1=null''"
  shows "\<exists>v. immediate_raw_single E c w = Some v \<and> rbuff_of c v = [] \<and>
      writes (w_trace v) = writes (w_trace w) @ [(c, framed P_raw bench_pong)]"
    "\<exists>v. immediate_raw_double E c w = Some v \<and> rbuff_of c v = [] \<and>
      writes (w_trace v) = writes (w_trace w) @ [(c, framed P_raw bench_pong), (c, framed P_raw bench_pong)]"
    "\<exists>v. immediate_rfc6455_single E c w = Some v \<and> rbuff_of c v = [] \<and>
      writes (w_trace v) = writes (w_trace w) @ [(c, framed P_rfc6455 bench_pong)]"
    "\<exists>v. immediate_rfc6455_double E c w = Some v \<and> rbuff_of c v = [] \<and>
      writes (w_trace v) = writes (w_trace w) @ [(c, framed P_rfc6455 bench_pong), (c, framed P_rfc6455 bench_pong)]"
proof -
  note raw = bench_immediate_pongs [OF disjI1 [OF conjI [OF refl refl]] f l w]
  note ws = bench_immediate_pongs [OF disjI2 [OF conjI [OF refl conjI [OF refl u]]] f l w]
  show "\<exists>v. immediate_raw_single E c w = Some v \<and> rbuff_of c v = [] \<and>
      writes (w_trace v) = writes (w_trace w) @ [(c, framed P_raw bench_pong)]"
    using raw [of 1] by (simp add: immediate_raw_single_def)
  show "\<exists>v. immediate_raw_double E c w = Some v \<and> rbuff_of c v = [] \<and>
      writes (w_trace v) = writes (w_trace w) @ [(c, framed P_raw bench_pong), (c, framed P_raw bench_pong)]"
    using raw [of 2] by (simp add: immediate_raw_double_def numeral_2_eq_2)
  show "\<exists>v. immediate_rfc6455_single E c w = Some v \<and> rbuff_of c v = [] \<and>
      writes (w_trace v) = writes (w_trace w) @ [(c, framed P_rfc6455 bench_pong)]"
    using ws [of 1] by (simp add: immediate_rfc6455_single_def)
  show "\<exists>v. immediate_rfc6455_double E c w = Some v \<and> rbuff_of c v = [] \<and>
      writes (w_trace v) = writes (w_trace w) @ [(c, framed P_rfc6455 bench_pong), (c, framed P_rfc6455 bench_pong)]"
    using ws [of 2] by (simp add: immediate_rfc6455_double_def numeral_2_eq_2)
qed

section \<open>Properties\<close>

text \<open>
  C12. What a raw or WebSocket client gets back, byte for byte: if its read buffer holds any frames of events that the
  server answers itself (unknown paths, events without handler, \<open>/qio/ping\<close>, \<open>/qio/hostname\<close>), and the front of one more, then
  reading writes to that client, in the order of the events, one frame with the code for each event that names a callback,
  and nothing else to anybody; the incomplete frame stays in the buffer, and subscriptions and the registry are as before.
\<close>

theorem requests_answered:
  assumes "p = P_raw \<and> enc = raw_enc E \<and> good = raw_good E \<or> p = P_rfc6455 \<and> enc = ws_enc E pick \<and> good = ws_good E"
    and "list_all good (final # evs)" "strict_prefix t (enc final)"
    and "random_law E" "clients_ok w" "c_handshaked (w_clients w c)" "c_prot (w_clients w c) = Some p"
    and "\<forall>ev \<in> set evs. answered w ev"
    and "rbuff_of c w = concat (map enc evs) @ t"
  shows "\<exists>v. protocols_route E c w = Some v \<and> calm w v \<and> rbuff_of c v = t \<and>
    writes (w_trace v) = writes (w_trace w) @ map (Pair c) (replies E p w evs)"
  by (rule stream_answered [OF assms])

definition pinged_world :: world where
  "pinged_world = start_world\<lparr>w_clients := (\<lambda>_. qev_client_new)(5 := qev_client_new\<lparr>c_prot := Some P_raw, c_handshaked := True,
     c_rbuff := bench_raw_frame @ bench_raw_frame\<rparr>), w_trace := []\<rparr>"

lemma requests_answered_witness:
  "\<exists>v. protocols_route sample_env 5 pinged_world = Some v \<and>
     writes (w_trace v) = [(5, framed P_raw bench_pong), (5, framed P_raw bench_pong)]"
proof -
  have l: "uint_str_law (uint_str sample_env)" "safe_uadd_law (safe_uadd sample_env)" "steady_law {} sample_env"
    using steady_law_sample [of "{}"] by (simp_all add: uint_str_law_def safe_uadd_law_def sample_env_def)
  have "finds start_world ''/qio/ping'' (event_init ''/qio/ping'' (Some H_ping) (Some On_no_on) None False)"
    by (rule qio_finds) (simp add: qio_events_def)
  then have "finds pinged_world ''/qio/ping'' (event_init ''/qio/ping'' (Some H_ping) (Some On_no_on) None False)"
    by (simp add: finds_def pinged_world_def)
  from bench_answer [OF this _ l(1)] have a: "answered pinged_world bench_ping"
    "answer_text sample_env pinged_world bench_ping = bench_pong" by (simp_all add: event_init_def)
  have w: "clients_ok pinged_world" "c_handshaked (w_clients pinged_world 5)" "c_prot (w_clients pinged_world 5) = Some P_raw"
    by (simp_all add: pinged_world_def clients_ok_def prot_ok_def qev_client_new_def cbs_wf_def)
  have g: "list_all (raw_good sample_env) [bench_ping, bench_ping, bench_ping]" using bench_good [OF l] by simp
  have p: "strict_prefix [] (raw_enc sample_env bench_ping)"
    unfolding bench_frames(1) [OF l(1)] by (simp add: bench_raw_frame_def)
  have b: "rbuff_of 5 pinged_world = concat (map (raw_enc sample_env) [bench_ping, bench_ping]) @ []"
    by (simp add: bench_frames(1) [OF l(1)] rbuff_of_def pinged_world_def)
  have "replies sample_env P_raw pinged_world [bench_ping, bench_ping] = [framed P_raw bench_pong, framed P_raw bench_pong]"
    using a(2) by (simp add: replies_def) (simp add: bench_ping_def)
  moreover have "writes (w_trace pinged_world) = []" by (simp add: pinged_world_def writes_def)
  ultimately show ?thesis
    using requests_answered [OF disjI1 [OF conjI [OF refl conjI [OF refl refl]]] g p random_law_sample w _ b] a(1) by auto
qed

end
