(* ===== verification/Bench.thy ===== *)
theory Bench
  imports Ws_Mask
begin

text \<open>
  The benchmarks \<open>src/bench/bench_ws_decode.c\<close> and \<open>src/bench/bench_evs.c\<close>: what their functions compute. (The routing
  benchmark is in \<open>Answered\<close>.) The wider loops of the first do not decode with the mask of the base case.
\<close>

section \<open>Decoding\<close>

text \<open>The masks, as \<open>main\<close> sets them up: the fields \<open>i64\<close> of \<open>_mask128\<close> have 32 bits, and they fill half of \<open>i128\<close>.\<close>

definition bench_mask :: string where
  "bench_mask = ''abcd''"

definition bench_mask64 :: "64 word" where
  "bench_mask64 = word_of_nat (le_value ''abcdefgh'')"

definition bench_mask128 :: uint128 where
  "bench_mask128 =
     (let i32 = unat (ucast bench_mask64 :: 32 word)
      in word_of_nat (le_value (le_bytes 4 i32 @ le_bytes 4 i32 @ replicate 8 NUL)))"

text \<open>\<open>for (i = 0; i < _buff->len; i++) _buff_out->str[i] = _buff->str[i] ^ _mask[i & 3]\<close>\<close>

function base_loop :: "string \<Rightarrow> nat \<Rightarrow> string \<Rightarrow> string" where
  "base_loop b i out =
     (if i < length b then base_loop b (Suc i) (out[i := xor_char (b ! i) (bench_mask ! (i AND 3))]) else out)"
  by pat_completeness auto
termination by (relation "measure (\<lambda>(b, i, out). length b - i)") auto

declare base_loop.simps [simp del]

definition bench_base :: "string \<Rightarrow> string \<Rightarrow> string" where
  "bench_base b out = base_loop b 0 out"

text \<open>The loops over words of \<open>sz\<close> bytes.\<close>

function word_loop :: "nat \<Rightarrow> uint128 \<Rightarrow> string \<Rightarrow> nat \<Rightarrow> nat \<Rightarrow> string \<Rightarrow> string" where
  "word_loop sz m b i mx out =
     (if i < mx \<and> 0 < sz then
        let from = (word_of_nat (le_value (take sz (drop i b))) :: uint128)
        in word_loop sz m b (i + sz) mx (store i (le_bytes sz (unat (from XOR m))) out)
      else out)"
  by pat_completeness auto
termination by (relation "measure (\<lambda>(sz, m, b, i, mx, out). mx - i)") auto

declare word_loop.simps [simp del]

definition bench_64bit :: "string \<Rightarrow> string \<Rightarrow> string" where
  "bench_64bit b out = word_loop 8 (ucast bench_mask64) b 0 (length b - (length b AND 7)) out"

definition bench_128bit :: "string \<Rightarrow> string \<Rightarrow> string" where
  "bench_128bit b out = word_loop 16 bench_mask128 b 0 (length b - (length b AND 15)) out"

text \<open>What the loops compute: the xor with a pattern that repeats.\<close>

definition xored :: "string \<Rightarrow> string \<Rightarrow> nat \<Rightarrow> string" where
  "xored pat b n = map (\<lambda>i. xor_char (b ! i) (pat ! (i mod length pat))) [0..<n]"

lemma length_xored [simp]: "length (xored pat b n) = n"
  by (simp add: xored_def)

lemma xor_pattern_bytes:
  assumes "length s = length pat" "length pat \<le> 16"
  shows "le_bytes (length pat) (unat ((word_of_nat (le_value s) :: uint128) XOR word_of_nat (le_value pat))) = map2 xor_char s pat"
proof -
  have "le_value t < 256 ^ 16" if "length t \<le> 16" for t
    using le_value_bound [of t] that power_increasing [of "length t" 16 "256 :: nat"] by simp
  then have "unat ((word_of_nat (le_value s) :: uint128) XOR word_of_nat (le_value pat)) = le_value s XOR le_value pat"
    using assms by (simp add: unsigned_xor_eq unat_word128)
  then show ?thesis using le_bytes_xor [of s pat] assms by simp
qed

lemma xored_word:
  assumes "length pat = sz" "(j + 1) * sz \<le> length b"
  shows "xored pat b (j * sz) @ map2 xor_char (take sz (drop (j * sz) b)) pat = xored pat b ((j + 1) * sz)"
proof (rule nth_equalityI)
  show "length (xored pat b (j * sz) @ map2 xor_char (take sz (drop (j * sz) b)) pat) = length (xored pat b ((j + 1) * sz))"
    using assms by simp
  fix i assume "i < length (xored pat b (j * sz) @ map2 xor_char (take sz (drop (j * sz) b)) pat)"
  then have i: "i < (j + 1) * sz" using assms by simp
  show "(xored pat b (j * sz) @ map2 xor_char (take sz (drop (j * sz) b)) pat) ! i = xored pat b ((j + 1) * sz) ! i"
  proof (cases "i < j * sz")
    case True
    then show ?thesis using i by (simp add: nth_append xored_def)
  next
    case False
    then obtain r where r: "i = j * sz + r" "r < sz" using i by (metis add.commute le_iff_add mult_Suc not_less nat_add_left_cancel_less Suc_eq_plus1)
    then have "i mod sz = r" by simp
    then show ?thesis using r i assms by (simp add: nth_append xored_def)
  qed
qed

lemma word_loop_xored:
  assumes "length pat = sz" "0 < sz" "sz \<le> 16"
  shows "(j + k) * sz \<le> length b \<Longrightarrow> length b \<le> length out \<Longrightarrow>
    word_loop sz (word_of_nat (le_value pat)) b (j * sz) ((j + k) * sz) (xored pat b (j * sz) @ drop (j * sz) out) =
      xored pat b ((j + k) * sz) @ drop ((j + k) * sz) out"
proof (induction k arbitrary: j)
  case 0
  then show ?case by (simp add: word_loop.simps)
next
  case (Suc k)
  let ?s = "take sz (drop (j * sz) b)"
  have "(j + 1) * sz \<le> (j + Suc k) * sz" by (rule mult_le_mono1) simp
  then have room: "(j + 1) * sz \<le> length b" using Suc.prems(1) by (rule le_trans)
  then have "le_bytes sz (unat ((word_of_nat (le_value ?s) :: uint128) XOR word_of_nat (le_value pat))) = map2 xor_char ?s pat"
    using xor_pattern_bytes [of ?s pat] assms by simp
  then have "store (j * sz) (le_bytes sz (unat ((word_of_nat (le_value ?s) :: uint128) XOR word_of_nat (le_value pat))))
      (xored pat b (j * sz) @ drop (j * sz) out) = xored pat b ((j + 1) * sz) @ drop ((j + 1) * sz) out"
    using xored_word [OF assms(1) room] room Suc.prems(2) assms(1) by (simp add: store_def add.commute)
  moreover have "(j + 1 + k) * sz \<le> length b" using Suc.prems(1) by simp
  moreover have "j * sz < (j + Suc k) * sz" using assms(2) by (intro mult_strict_right_mono) simp_all
  ultimately show ?case
    using Suc.IH [of "j + 1"] Suc.prems(2) assms(2)
    by (subst word_loop.simps) (simp add: Let_def add.commute)
qed

lemma word_loop_all:
  assumes "length pat = sz" "0 < sz" "sz \<le> 16" "length b \<le> length out"
  shows "word_loop sz (word_of_nat (le_value pat)) b 0 (length b div sz * sz) out =
    xored pat b (length b div sz * sz) @ drop (length b div sz * sz) out"
  using word_loop_xored [OF assms(1-3), of 0 "length b div sz" b out] assms(4) by (simp add: xored_def)

lemma base_loop_xored:
  "length b \<le> length out \<Longrightarrow> i \<le> length b \<Longrightarrow>
   base_loop b i (xored bench_mask b i @ drop i out) = xored bench_mask b (length b) @ drop (length b) out"
proof (induction "length b - i" arbitrary: i)
  case 0
  then show ?case by (simp add: base_loop.simps)
next
  case (Suc n)
  then have i: "i < length b" by simp
  have "i AND 3 = i mod 4" using take_bit_eq_mask [of 2 i] by (simp add: take_bit_eq_mod mask_eq_exp_minus_1)
  moreover have "drop i out = out ! i # drop (Suc i) out" using i Suc.prems(1) by (simp add: Cons_nth_drop_Suc)
  ultimately have "(xored bench_mask b i @ drop i out)[i := xor_char (b ! i) (bench_mask ! (i AND 3))] =
      xored bench_mask b (Suc i) @ drop (Suc i) out"
    using i Suc.prems(1) by (simp add: list_update_append xored_def bench_mask_def)
  then show ?case using Suc i by (subst base_loop.simps) simp
qed

text \<open>
  The base case decodes with \<open>abcd\<close>; the 64-bit loop decodes with another mask of eight bytes; the 128-bit loop decodes half of
  the bytes and copies the other half. The last two leave out the bytes after the last whole word.
\<close>

lemma bench_base_decodes:
  assumes "length b \<le> length out"
  shows "bench_base b out = unmask ''abcd'' b @ drop (length b) out"
  using base_loop_xored [OF assms, of 0]
  by (simp add: bench_base_def xored_def unmask_def bench_mask_def)

lemma bench_64bit_decodes:
  assumes "length b \<le> length out"
  shows "bench_64bit b out = xored ''abcdefgh'' b (length b div 8 * 8) @ drop (length b div 8 * 8) out"
proof -
  have "ucast bench_mask64 = (word_of_nat (le_value ''abcdefgh'') :: uint128)"
    by (simp add: bench_mask64_def)
  then show ?thesis
    using word_loop_all [of "''abcdefgh''" 8 b out] assms
    by (simp only: bench_64bit_def and_low minus_mod_eq_div_mult) simp
qed

lemma le_bytes_value: "le_bytes (length s) (le_value s) = s"
proof (induction s)
  case (Cons c s)
  have "(byte c + 256 * le_value s) mod 256 = byte c" "(byte c + 256 * le_value s) div 256 = le_value s"
    using byte_less [of c] by simp_all
  with Cons show ?case by simp
qed simp

lemma bench_mask128_half: "bench_mask128 = word_of_nat (le_value (''abcdabcd'' @ replicate 8 NUL))"
proof -
  have "unat (ucast bench_mask64 :: 32 word) = le_value ''abcd''"
    by (simp add: bench_mask64_def)
  moreover have four: "length ''abcd'' = 4" by simp
  have "le_bytes 4 (le_value ''abcd'') = ''abcd''" by (rule le_bytes_value [of "''abcd''", unfolded four])
  ultimately show ?thesis by (simp add: bench_mask128_def Let_def)
qed

lemma bench_128bit_decodes:
  assumes "length b \<le> length out"
  shows "bench_128bit b out =
    xored (''abcdabcd'' @ replicate 8 NUL) b (length b div 16 * 16) @ drop (length b div 16 * 16) out"
  using word_loop_all [of "''abcdabcd'' @ replicate 8 NUL" 16 b out] assms
  by (simp only: bench_128bit_def bench_mask128_half and_low minus_mod_eq_div_mult) simp

text \<open>So the three do not agree: on a block of 16 bytes the wider loops are right only in the places that the masks share.\<close>

lemma bench_decoders_differ:
  assumes "length b = 16" "length out = 16" "i < 16"
  shows "bench_64bit b out ! i = bench_base b out ! i \<longleftrightarrow> i mod 8 < 4"
    "bench_128bit b out ! i = bench_base b out ! i \<longleftrightarrow> i < 8"
proof -
  have neq: "xor_char c d = xor_char c e \<longleftrightarrow> d = e" for c d e
  proof
    assume e: "xor_char c d = xor_char c e"
    have "xor_char (xor_char d c) c = xor_char (xor_char e c) c" using e by (simp add: xor_char_def ac_simps)
    then show "d = e" by (simp add: xor_char_involutive)
  qed simp
  have "list_all (\<lambda>i. ''abcdefgh'' ! (i mod 8) = ''abcd'' ! (i mod 4) \<longleftrightarrow> i mod 8 < 4) [0..<16]"
    "list_all (\<lambda>i. (''abcdabcd'' @ replicate 8 NUL) ! (i mod 16) = ''abcd'' ! (i mod 4) \<longleftrightarrow> i < 8) [0..<16]"
    by code_simp+
  then have m: "''abcdefgh'' ! (i mod 8) = ''abcd'' ! (i mod 4) \<longleftrightarrow> i mod 8 < 4"
    "(''abcdabcd'' @ replicate 8 NUL) ! i = ''abcd'' ! (i mod 4) \<longleftrightarrow> i < 8"
    using assms(3) by (auto simp del: nth_append simp: list_all_iff)
  have "bench_base b out ! i = xor_char (b ! i) (''abcd'' ! (i mod 4))"
    "bench_64bit b out ! i = xor_char (b ! i) (''abcdefgh'' ! (i mod 8))"
    "bench_128bit b out ! i = xor_char (b ! i) ((''abcdabcd'' @ replicate 8 NUL) ! i)"
    using assms by (simp_all add: bench_base_decodes bench_64bit_decodes bench_128bit_decodes xored_def unmask_def)
  then show "bench_64bit b out ! i = bench_base b out ! i \<longleftrightarrow> i mod 8 < 4"
    "bench_128bit b out ! i = bench_base b out ! i \<longleftrightarrow> i < 8"
    by (simp_all only: neq m)
qed

section \<open>Cleaning\<close>

definition evs_clean_typical :: "string \<times> nat" where
  "evs_clean_typical = evs_clean_path ''/qio/ping/test''"

definition evs_clean_wild :: "string \<times> nat" where
  "evs_clean_wild = evs_clean_path ''///////???qio//////**ping***&^^$#@///////test''"

text \<open>Both benchmarks come to the same path.\<close>

lemma evs_clean_same: "cstr (fst evs_clean_typical) = ''/qio/ping/test''" "cstr (fst evs_clean_wild) = ''/qio/ping/test''"
  unfolding evs_clean_typical_def evs_clean_wild_def by code_simp+

end
