(* ===== verification/Spec2Isabelle.thy ===== *)
theory Spec2Isabelle
  imports Clienttest Apps Config Sub_Atomic Heartbeats Routed Query_Threads Skeleton Shutdown Poll_Race Answered Bench
begin

text \<open>
  QuickIO is a C server that routes events between clients and the applications loaded into it.
  A client speaks one of four protocols on its connection (raw frames, WebSocket, HTTP long
  polling, the flash policy); it sends events, subscribes to events, and answers or is
  answered through callbacks. An application registers handlers for paths, sends events to
  subscribers and broadcasts. Everything below is a model of the files under \<open>src/src\<close>, which are
  named here without that directory.

  \<^bold>\<open>How the parts interact.\<close> quick-event, a library, accepts connections, reads bytes and calls \<open>qev.c\<close>. This
  calls \<open>protocols.c\<close>, which finds the protocol of the client and lets it cut events out of the read
  buffer. Each event goes to \<open>evs_route\<close> of \<open>evs.c\<close>, which looks the path up in the registry
  (\<open>evs_query.c\<close>) and calls the handler: one of the server's own (\<open>evs_qio.c\<close>) or an
  application's. Subscriptions (\<open>sub.c\<close>) are counted by reference and shared by the clients
  that hold them (\<open>client.c\<close>), queued broadcasts, and running code. What is sent goes through
  \<open>protocols_send\<close> back into frames. \<open>periodic.c\<close> ages callbacks, sends heartbeats and sends the queued broadcasts.

  \<^bold>\<open>Conventions.\<close> The state of the process is the record \<open>world\<close> of \<open>Qio_State\<close>; an operation takes the world and
  returns it changed, next to its result. Pointers to clients and subscriptions are numbers;
  \<open>w_sub_heap\<close> maps the pointers of live subscriptions to their memory. A use after free, a call of NULL, an
  access out of bounds and a failed \<open>ASSERT\<close> set \<open>w_fault\<close>, so that \<open>\<not> w_fault\<close> says there was none. Integers whose
  width matters are words. Strings are lists of bytes; the functions that edit a buffer in place do so in the
  model. What the code does to the outside (writes, closes, frees, calls into applications) is appended to
  \<open>w_trace\<close>. What is not code of the repository is a field of the record \<open>env\<close>: the list and pool of
  quick-event, its random numbers, its HTTP parser, SHA-1, and the functions of applications. A
  property that relies on such code has a named law as a hypothesis (\<open>random_law\<close>, \<open>items_law\<close>,
  \<open>safe_uadd_law\<close>, \<open>http_parse_law\<close>, \<open>surrogate_new_law\<close>, \<open>on_law\<close>, \<open>off_law\<close>, \<open>cb_law\<close>, \<open>handler_law\<close>, \<open>civil_law\<close>,
  \<open>steady_law\<close>; \<open>server_laws\<close> is all of them), and \<open>sample_server_laws\<close> shows an environment that obeys them all. The order of a
  hash table is the order of a list.

  \<^bold>\<open>Theories.\<close>

  \<^item> \<open>Qio_Base\<close>: collections of simplification rules, lemmas on lists, words and numerals.
  \<^item> \<open>Evs_Path\<close>: \<open>evs_clean_path\<close> and \<open>evs_make_path\<close> of \<open>evs.c\<close>; the two-pointer loop equals a reference function.
  \<^item> \<open>Evs_Query\<close>: \<open>evs_query.c\<close>; the prefix tree refines a list of registrations with longest-prefix lookup (locale \<open>path_registry\<close>).
  \<^item> \<open>Qio_State\<close>: the records and enumerations of \<open>client.h\<close>, \<open>evs.h\<close>, \<open>sub.h\<close>, \<open>protocols.h\<close>.
  \<^item> \<open>Sub_Refs\<close>: \<open>sub.c\<close> and \<open>atomic.h\<close>; reference counts are the number of holders.
  \<^item> \<open>Sub_Threads\<close>, \<open>Sub_Atomic\<close>: the same operations run by any number of threads, one shared access at a time, with the reader-writer lock of
    the table and the compare-and-swap loop. No interleaving touches freed memory or loses a count; the operations are atomic, so that
    running them one after the other elsewhere loses nothing; and calls end.
  \<^item> \<open>Client_Cb\<close>: the callback slots of \<open>client.c\<close>: handles, eviction, ageing, freeing.
  \<^item> \<open>Protocol_Frames\<close>, \<open>Protocols_Send\<close>: the frames of all protocols (locale \<open>framing\<close>), \<open>protocols_send\<close>, broadcast frames, HTTP responses.
  \<^item> \<open>Evs_Cb\<close>, \<open>Client_Subs\<close>, \<open>Evs_Subs\<close>, \<open>Evs_Route\<close>, \<open>Evs_Broadcast\<close>: \<open>evs.c\<close>, \<open>evs_qio.c\<close> and the subscriptions of \<open>client.c\<close>. Subscriptions refine a four-state
    machine; every operation keeps the invariant \<open>subs_inv\<close> (counts, tables, lists of subscribers, no fault).
  \<^item> \<open>Ws_Mask\<close>, \<open>Protocol_Raw\<close>, \<open>Protocol_Rfc6455\<close>, \<open>Protocol_Http\<close>: the receiving sides. What a peer frames is what gets routed; bad input
    is refused with its reason; polls are answered or wait.
  \<^item> \<open>Event_Frame\<close>, \<open>Steady\<close>, \<open>Polls\<close>: what routing an event can change at all (locale \<open>event_frame\<close>), with the instances the protocols need.
  \<^item> \<open>Protocols\<close>, \<open>Read_Loop\<close>: \<open>protocols.c\<close>, \<open>protocols_flash.c\<close>, \<open>periodic.c\<close>, \<open>qev.c\<close>; reading ends, and buffers of frames are routed in
    order (locale \<open>stream_reader\<close>).
  \<^item> \<open>Served\<close>, \<open>Served_Http\<close>, \<open>Server\<close>: the server as a state machine \<open>server_step\<close> over all of the above. Every reachable state satisfies \<open>served\<close>:
    \<open>subs_inv\<close>, the registry is a tree of the right shape, the graph of polls and surrogates is consistent.
  \<^item> \<open>Lasting\<close>: a client that events come from and go to remains one in every step of the server, so applications may answer later.
  \<^item> \<open>Skeleton\<close>: the application of the documentation (\<open>docs/overview/app_skeleton.c\<close>), whose own thread runs between the steps of the server.
  \<^item> \<open>Shutdown\<close>: the order of \<open>qio_main\<close>, and what the cleanup functions free, in either order.
  \<^item> \<open>Heartbeats\<close>: the times of heartbeats, challenges and polls over one round of \<open>periodic.c\<close>.
  \<^item> \<open>Routed\<close>: the events and extra segments that handlers get are well-formed, whatever clients send.
  \<^item> \<open>Query_Threads\<close>: registrations by several threads, with the mutex of \<open>evs_query_insert\<close> where the code has it.
  \<^item> \<open>Poll_Threads\<close>, \<open>Poll_Fifo\<close>, \<open>Poll_Race\<close>: long polling by any number of threads, with the lock of the surrogate where
    \<open>protocols_http.c\<close> has it. Messages keep their order and none is lost or doubled, a request is answered at most
    once, references are exact, there is no deadlock; and the races of heartbeats with new polls, one of which makes an \<open>ASSERT\<close> fail.
  \<^item> \<open>Answered\<close>: from the bytes a client sends to the bytes it gets back, for events the server answers itself; with the routing
    benchmark (\<open>bench/bench_routing.c\<close>) as an instance. \<open>Bench\<close>: what the other benchmarks compute.
  \<^item> \<open>Clienttest\<close>, \<open>Apps\<close>, \<open>Config\<close>: \<open>quickio-clienttest.c\<close> (an application, shown to obey the laws), \<open>apps.c\<close>, \<open>config.c\<close>.

  \<^bold>\<open>Fuel.\<close> The read loop is the only recursion with fuel: \<open>route_fuel\<close> is the length of the read buffer plus one.
  \<open>Read_Loop\<close> proves that it never runs out, as every round either stops or uses at least one byte. All other loops are
  structural or have a termination proof.

  \<^bold>\<open>Not modelled.\<close> Locks other than the ones of \<open>sub.c\<close>, \<open>evs_query.c\<close> and the surrogates of \<open>protocols_http.c\<close>: operations on one client run under its lock, and operations of
  different threads run one after the other. Init functions that only create counters, timers and
  buffers have no effect in the model. Counters of statistics are kept
  only where a property needs them. The pages in \<open>protocols_http_html_*.c\<close> are generated bytes. Of the routing
  benchmark, the functions over sockets and over HTTP.
\<close>

end
